(* ===== verification/Prelude.thy ===== *)
theory Prelude
  imports Main "HOL-Library.Word"
begin

text \<open>
  Shared vocabulary of the development: fallible results, machine integers, big-endian
  bytes, buffer writes, and the fixed-width byte array \<open>[u8; 32]\<close> as a type of its own.
  Everything here is about the language and its standard library, not about the rollup.
\<close>

unbundle bit_operations_syntax

named_theorems size_simps \<open>lengths of the byte strings the program builds\<close>
named_theorems result_simps \<open>how a successful fallible computation decomposes\<close>

section \<open>Fallible results\<close>

text \<open>
  A Rust \<open>Result<T, E>\<close> is \<open>'e + 'a\<close>, with \<open>Inl\<close> for \<open>Err\<close> and \<open>Inr\<close> for \<open>Ok\<close>. The
  \<open>?\<close> operator is \<open>and_then\<close>, \<open>Option::ok_or\<close> is \<open>ok_or\<close>, and an early
  \<open>return Err(e)\<close> under a condition is \<open>ensure\<close>.
\<close>

definition and_then :: "'e + 'a \<Rightarrow> ('a \<Rightarrow> 'e + 'b) \<Rightarrow> 'e + 'b" where
  "and_then r f = (case r of Inl e \<Rightarrow> Inl e | Inr a \<Rightarrow> f a)"

definition ok_or :: "'e \<Rightarrow> 'a option \<Rightarrow> 'e + 'a" where
  "ok_or e x = (case x of None \<Rightarrow> Inl e | Some a \<Rightarrow> Inr a)"

definition ensure :: "bool \<Rightarrow> 'e \<Rightarrow> 'e + unit" where
  "ensure b e = (if b then Inr () else Inl e)"

lemma and_then_simps [simp]:
  "and_then (Inl e) f = Inl e"
  "and_then (Inr a) f = f a"
  by (simp_all add: and_then_def)

lemma ok_or_simps [simp]:
  "ok_or e None = Inl e"
  "ok_or e (Some a) = Inr a"
  by (simp_all add: ok_or_def)

lemma ensure_simps [simp]:
  "ensure True e = Inr ()"
  "ensure False e = Inl e"
  by (simp_all add: ensure_def)

lemma and_then_Inr_iff [result_simps]:
  "and_then r f = Inr y \<longleftrightarrow> (\<exists>a. r = Inr a \<and> f a = Inr y)"
  by (cases r) auto

lemma and_then_Inl_iff:
  "and_then r f = Inl e \<longleftrightarrow> r = Inl e \<or> (\<exists>a. r = Inr a \<and> f a = Inl e)"
  by (cases r) auto

lemma ok_or_Inr_iff [result_simps]: "ok_or e x = Inr a \<longleftrightarrow> x = Some a"
  by (cases x) auto

lemma ensure_Inr_iff [result_simps]: "ensure b e = Inr u \<longleftrightarrow> b"
  by (cases b) auto

lemma and_then_cong [fundef_cong]:
  "r = r' \<Longrightarrow> (\<And>a. r' = Inr a \<Longrightarrow> f a = f' a) \<Longrightarrow> and_then r f = and_then r' f'"
  by (cases r') auto

lemma and_then_assoc: "and_then (and_then r f) g = and_then r (\<lambda>a. and_then (f a) g)"
  by (cases r) auto

text \<open>Collecting an iterator of results: the first failure, or every value.\<close>

primrec map_results :: "('a \<Rightarrow> 'e + 'b) \<Rightarrow> 'a list \<Rightarrow> 'e + 'b list" where
  "map_results f [] = Inr []"
| "map_results f (x # xs) = and_then (f x) (\<lambda>y. and_then (map_results f xs) (\<lambda>ys. Inr (y # ys)))"

lemma map_results_Inr_iff [result_simps]:
  "map_results f xs = Inr ys \<longleftrightarrow> list_all2 (\<lambda>x y. f x = Inr y) xs ys"
  by (induction xs arbitrary: ys) (auto simp: and_then_Inr_iff list_all2_Cons1)

lemma map_results_Inl_iff:
  "map_results f xs = Inl e \<longleftrightarrow> (\<exists>i<length xs. f (xs ! i) = Inl e \<and> (\<forall>j<i. \<exists>y. f (xs ! j) = Inr y))"
proof (induction xs)
  case (Cons x xs)
  show ?case
  proof (cases "f x")
    case (Inl e')
    then show ?thesis by (force simp: less_Suc_eq_0_disj)
  next
    case (Inr y)
    then have "map_results f (x # xs) = Inl e \<longleftrightarrow> map_results f xs = Inl e" by (cases "map_results f xs") auto
    also have "\<dots> \<longleftrightarrow> (\<exists>i<length xs. f (xs ! i) = Inl e \<and> (\<forall>j<i. \<exists>y. f (xs ! j) = Inr y))" by (rule Cons.IH)
    also have "\<dots> \<longleftrightarrow> (\<exists>i<length (x # xs). f ((x # xs) ! i) = Inl e \<and> (\<forall>j<i. \<exists>y. f ((x # xs) ! j) = Inr y))"
      (is "?L \<longleftrightarrow> ?R")
    proof
      assume ?L
      then obtain i where "i < length xs" "f (xs ! i) = Inl e" "\<forall>j<i. \<exists>y. f (xs ! j) = Inr y" by blast
      then show ?R using Inr by (intro exI [of _ "Suc i"]) (auto simp: less_Suc_eq_0_disj)
    next
      assume ?R
      then obtain i where "i < length (x # xs)" "f ((x # xs) ! i) = Inl e" "\<forall>j<i. \<exists>y. f ((x # xs) ! j) = Inr y" by blast
      then obtain n where "n < length xs" "f (xs ! n) = Inl e" and before: "\<forall>j<Suc n. \<exists>y. f ((x # xs) ! j) = Inr y"
        using Inr by (cases i) auto
      moreover have "\<exists>y. f (xs ! j) = Inr y" if "j < n" for j using before that by force
      ultimately show ?L by blast
    qed
    finally show ?thesis .
  qed
qed simp

section \<open>Machine integers\<close>

type_synonym byte = "8 word"
type_synonym u32 = "32 word"
type_synonym u64 = "64 word"

definition checked_add :: "u64 \<Rightarrow> u64 \<Rightarrow> u64 option" where
  "checked_add a b = (if uint a + uint b < 2 ^ 64 then Some (a + b) else None)"

definition checked_sub :: "u64 \<Rightarrow> u64 \<Rightarrow> u64 option" where
  "checked_sub a b = (if b \<le> a then Some (a - b) else None)"

lemma checked_add_unat: "checked_add a b = (if unat a + unat b < 2 ^ 64 then Some (a + b) else None)"
proof -
  have "uint a + uint b < 2 ^ 64 \<longleftrightarrow> int (unat a + unat b) < int (2 ^ 64)" by simp
  then have "uint a + uint b < 2 ^ 64 \<longleftrightarrow> unat a + unat b < 2 ^ 64" by (simp only: of_nat_less_iff)
  then show ?thesis by (simp add: checked_add_def)
qed

lemma unat_u64_bound [simp]: "unat (x :: u64) < 18446744073709551616"
  using unsigned_less [of x, where 'a = nat] by simp

lemma checked_add_Some_iff [result_simps]:
  "checked_add a b = Some c \<longleftrightarrow> unat c = unat a + unat b"
proof
  assume "checked_add a b = Some c"
  then show "unat c = unat a + unat b"
    by (auto simp: checked_add_unat unat_word_ariths split: if_splits)
next
  assume eq: "unat c = unat a + unat b"
  then have "unat a + unat b < 2 ^ 64" using unat_u64_bound [of c] by simp
  moreover from this eq have "c = a + b"
    by (intro word_unat_eq_iff [THEN iffD2]) (simp add: unat_word_ariths)
  ultimately show "checked_add a b = Some c" by (simp add: checked_add_unat)
qed

lemma checked_add_None_iff: "checked_add a b = None \<longleftrightarrow> 2 ^ 64 \<le> unat a + unat b"
  by (simp add: checked_add_unat not_less)

lemma checked_sub_Some_iff [result_simps]:
  "checked_sub a b = Some c \<longleftrightarrow> unat c + unat b = unat a"
proof
  assume "checked_sub a b = Some c"
  then show "unat c + unat b = unat a"
    by (auto simp: checked_sub_def unat_sub word_le_nat_alt split: if_splits)
next
  assume eq: "unat c + unat b = unat a"
  then have "unat c = unat a - unat b" and le: "unat b \<le> unat a" by simp_all
  then have "c = a - b"
    by (intro word_unat_eq_iff [THEN iffD2]) (simp add: unat_sub word_le_nat_alt)
  with le show "checked_sub a b = Some c" by (simp add: checked_sub_def word_le_nat_alt)
qed

lemma checked_sub_None_iff: "checked_sub a b = None \<longleftrightarrow> unat a < unat b"
  by (simp add: checked_sub_def word_le_nat_alt not_le)

section \<open>Bytes\<close>

text \<open>An ASCII byte-string literal, Rust's \<open>b"..."\<close>.\<close>

definition ascii :: "string \<Rightarrow> byte list" where
  "ascii s = map of_char s"

lemma length_ascii [simp]: "length (ascii s) = length s"
  by (simp add: ascii_def)

text \<open>\<open>to_be_bytes\<close> of an integer whose width is a multiple of eight, and \<open>from_be_bytes\<close>.\<close>

definition to_be_bytes :: "'a::len word \<Rightarrow> byte list" where
  "to_be_bytes x = map (\<lambda>i. ucast (drop_bit (8 * i) x)) (rev [0..<LENGTH('a) div 8])"

definition from_be_bytes :: "byte list \<Rightarrow> 'a::len word" where
  "from_be_bytes bs = foldl (\<lambda>acc b. push_bit 8 acc OR ucast b) 0 bs"

lemma length_to_be_bytes [simp]: "length (to_be_bytes (x :: 'a::len word)) = LENGTH('a) div 8"
  by (simp add: to_be_bytes_def)

lemma bit_from_be_bytes:
  "bit (from_be_bytes bs :: 'a::len word) n \<longleftrightarrow>
     n < LENGTH('a) \<and> n div 8 < length bs \<and> bit (rev bs ! (n div 8)) (n mod 8)"
proof (induction bs arbitrary: n rule: rev_induct)
  case Nil
  then show ?case by (simp add: from_be_bytes_def)
next
  case (snoc b bs)
  have step: "from_be_bytes (bs @ [b]) = (push_bit 8 (from_be_bytes bs) OR ucast b :: 'a word)"
    by (simp add: from_be_bytes_def)
  show ?case
  proof (cases "n < 8")
    case True
    then have "n div 8 = 0" and "n mod 8 = n" by simp_all
    with True show ?thesis by (auto simp: step bit_simps)
  next
    case False
    then obtain k where n: "n = k + 8"
      by (metis le_add_diff_inverse2 not_less)
    have "\<not> bit b n"
      using False bit_imp_le_length [of b n] by auto
    moreover have "(k + 8) div 8 = Suc (k div 8)" by simp
    ultimately show ?thesis by (simp add: step bit_simps snoc.IH n) auto
  qed
qed

lemma bit_to_be_bytes:
  assumes "8 dvd LENGTH('a)" and "i < LENGTH('a) div 8" and "j < 8"
  shows "bit (rev (to_be_bytes (x :: 'a::len word)) ! i) j \<longleftrightarrow> bit x (8 * i + j)"
  using assms by (auto simp: to_be_bytes_def rev_map bit_simps dest: bit_imp_le_length)

lemma from_to_be_bytes [simp]:
  assumes "8 dvd LENGTH('a)"
  shows "from_be_bytes (to_be_bytes x) = (x :: 'a::len word)"
proof (rule bit_word_eqI)
  fix n assume n: "n < LENGTH('a)"
  with assms have "n div 8 < LENGTH('a) div 8"
    by (auto elim!: dvdE)
  with n assms show "bit (from_be_bytes (to_be_bytes x) :: 'a word) n \<longleftrightarrow> bit x n"
    by (simp add: bit_from_be_bytes bit_to_be_bytes)
qed

lemma to_from_be_bytes [simp]:
  assumes "8 dvd LENGTH('a)" and "length bs = LENGTH('a) div 8"
  shows "to_be_bytes (from_be_bytes bs :: 'a::len word) = bs"
proof -
  have "rev (to_be_bytes (from_be_bytes bs :: 'a word)) = rev bs"
  proof (rule nth_equalityI)
    fix i assume "i < length (rev (to_be_bytes (from_be_bytes bs :: 'a word)))"
    then have i: "i < LENGTH('a) div 8" by simp
    show "rev (to_be_bytes (from_be_bytes bs :: 'a word)) ! i = rev bs ! i"
    proof (rule bit_word_eqI)
      fix j :: nat assume "j < LENGTH(8)"
      then have j: "j < 8" by simp
      with i assms(1) have "8 * i + j < LENGTH('a)" by (auto elim!: dvdE)
      with i j assms show "bit (rev (to_be_bytes (from_be_bytes bs :: 'a word)) ! i) j
          \<longleftrightarrow> bit (rev bs ! i) j"
        by (simp add: bit_from_be_bytes bit_to_be_bytes)
    qed
  qed (use assms in simp)
  then show ?thesis by simp
qed

lemma to_be_bytes_inject [simp]:
  assumes "8 dvd LENGTH('a)"
  shows "to_be_bytes x = to_be_bytes (y :: 'a::len word) \<longleftrightarrow> x = y"
  using from_to_be_bytes [OF assms, of x] from_to_be_bytes [OF assms, of y] by metis

section \<open>Writes into a fixed buffer\<close>

text \<open>
  \<open>buf[offset..offset + src.len()].copy_from_slice(src)\<close>. The program only performs it with
  the range inside the buffer, which is what \<open>copy_at_append\<close> asks for.
\<close>

definition copy_at :: "nat \<Rightarrow> byte list \<Rightarrow> byte list \<Rightarrow> byte list" where
  "copy_at offset src buf = take offset buf @ src @ drop (offset + length src) buf"

lemma copy_at_append:
  "offset = length pre \<Longrightarrow> length src \<le> length rest \<Longrightarrow>
     copy_at offset src (pre @ rest) = (pre @ src) @ drop (length src) rest"
  by (simp add: copy_at_def)

lemma length_copy_at [simp]:
  "offset + length src \<le> length buf \<Longrightarrow> length (copy_at offset src buf) = length buf"
  by (simp add: copy_at_def)

text \<open>
  A run of such writes from offset 0 of a zeroed buffer of \<open>n\<close> bytes, \<open>offset\<close> advancing by
  each field's length: the shape of every fixed-size encoder of the program.
\<close>

definition write_field :: "byte list \<times> nat \<Rightarrow> byte list \<Rightarrow> byte list \<times> nat" where
  "write_field s src = (copy_at (snd s) src (fst s), snd s + length src)"

definition write_fields :: "nat \<Rightarrow> byte list list \<Rightarrow> byte list" where
  "write_fields n fields = fst (foldl write_field (replicate n 0, 0) fields)"

lemma foldl_write_field:
  "length (concat fields) \<le> length rest \<Longrightarrow>
     foldl write_field (pre @ rest, length pre) fields
       = ((pre @ concat fields) @ drop (length (concat fields)) rest, length (pre @ concat fields))"
proof (induction fields arbitrary: pre rest)
  case Nil
  then show ?case by simp
next
  case (Cons f fields)
  have "write_field (pre @ rest, length pre) f = ((pre @ f) @ drop (length f) rest, length (pre @ f))"
    using Cons.prems by (simp add: write_field_def copy_at_def)
  then show ?case
    using Cons.IH [of "drop (length f) rest" "pre @ f"] Cons.prems by (simp add: add.commute)
qed

lemma write_fields_eq:
  "length (concat fields) = n \<Longrightarrow> write_fields n fields = concat fields"
  using foldl_write_field [of fields "replicate n 0" "[]"] by (simp add: write_fields_def)

section \<open>The array type \<open>[u8; 32]\<close>\<close>

typedef bytes32 = "{bs :: byte list. length bs = 32}" morphisms bytes_of Abs_bytes32
  by (rule exI [of _ "replicate 32 0"]) simp

setup_lifting type_definition_bytes32

text \<open>
  \<open>b32\<close> is \<open>try_into().unwrap()\<close> where the length is known to be 32; elsewhere the model
  checks the length first.
\<close>

lift_definition b32 :: "byte list \<Rightarrow> bytes32" is
  "\<lambda>bs :: byte list. if length bs = 32 then bs else replicate 32 0"
  by simp

lift_definition zero32 :: bytes32 is "replicate 32 (0 :: byte)"
  by simp

instantiation bytes32 :: equal
begin

definition equal_bytes32 :: "bytes32 \<Rightarrow> bytes32 \<Rightarrow> bool" where
  "equal_bytes32 a b \<longleftrightarrow> bytes_of a = bytes_of b"

instance
  by standard (simp add: equal_bytes32_def bytes_of_inject)
end

lemma length_bytes_of [simp]: "length (bytes_of a) = 32"
  using bytes_of [of a] by simp

lemma bytes_of_b32 [simp]: "length bs = 32 \<Longrightarrow> bytes_of (b32 bs) = bs"
  by (simp add: b32.rep_eq)

lemma b32_bytes_of [simp]: "b32 (bytes_of a) = a"
  by (simp add: bytes_of_inject [symmetric])

lemma bytes_of_zero32 [simp]: "bytes_of zero32 = replicate 32 0"
  by (rule zero32.rep_eq)

lemma bytes_of_eq_iff [simp]: "bytes_of a = bytes_of b \<longleftrightarrow> a = b"
  by (rule bytes_of_inject)

lemma bytes_of_append_eq_iff [simp]:
  "bytes_of a @ xs = bytes_of b @ ys \<longleftrightarrow> a = b \<and> xs = ys"
  by simp

lemma to_be_bytes_append_eq_iff [simp]:
  "to_be_bytes (x :: u64) @ xs = to_be_bytes (y :: u64) @ ys \<longleftrightarrow> x = y \<and> xs = ys"
  by simp

end
