(* ===== verification/Accounts.thy ===== *)
theory Accounts
  imports Prelude
begin

text \<open>
  Addresses, schemes, the bytes a sender signs, and account state: the first part of
  \<^verbatim>\<open>crates/payment-rollup/src/lib.rs\<close>. SHA-256 is the \<^verbatim>\<open>sha2\<close> crate, so it is an
  argument \<open>H\<close> of every definition that hashes; a \<open>Hasher\<close> fed by several \<open>update\<close>
  calls digests the concatenation of what it was fed.
\<close>

type_synonym hash_fn = "byte list \<Rightarrow> bytes32"

type_synonym address = bytes32

type_synonym l1_address = bytes32

type_synonym deployment_domain = bytes32

text \<open>
  What the rollup relies on SHA-256 for. No 32-byte hash is injective, so the hypothesis is
  about the finitely many strings a run hashes: no two of them collide and none digests to
  thirty-two zero bytes. It is decidable for given strings and a given hash.
\<close>

definition collision_free :: "hash_fn \<Rightarrow> byte list list \<Rightarrow> bool" where
  "collision_free H xs \<longleftrightarrow>
     list_all (\<lambda>x. H x \<noteq> zero32 \<and> list_all (\<lambda>y. H x = H y \<longrightarrow> x = y) xs) xs"

lemma collision_freeD:
  "collision_free H xs \<Longrightarrow> x \<in> set xs \<Longrightarrow> y \<in> set xs \<Longrightarrow> H x = H y \<Longrightarrow> x = y"
  by (auto simp: collision_free_def list_all_iff)

lemma collision_free_zero: "collision_free H xs \<Longrightarrow> x \<in> set xs \<Longrightarrow> H x \<noteq> zero32"
  by (auto simp: collision_free_def list_all_iff)

lemma collision_free_mono: "collision_free H xs \<Longrightarrow> set ys \<subseteq> set xs \<Longrightarrow> collision_free H ys"
  by (auto simp: collision_free_def list_all_iff)

lemma collision_free_appendD:
  "collision_free H (xs @ ys) \<Longrightarrow> collision_free H xs \<and> collision_free H ys"
  by (auto simp: collision_free_def list_all_iff)

text \<open>The same with each string hashed once, for evaluation.\<close>

definition hashes_separate :: "(byte list \<times> bytes32) list \<Rightarrow> bool" where
  "hashes_separate hs \<longleftrightarrow>
     list_all (\<lambda>(x, h). h \<noteq> zero32 \<and> list_all (\<lambda>(y, k). h = k \<longrightarrow> x = y) hs) hs"

lemma collision_free_code [code]: "collision_free H xs = hashes_separate (map (\<lambda>x. (x, H x)) xs)"
  by (simp add: collision_free_def hashes_separate_def list_all_iff)

text \<open>\<open>deployment_domain\<close> of the source; the type synonym has that name here.\<close>

definition deployment_domain_of :: "hash_fn \<Rightarrow> bytes32 \<Rightarrow> u64 \<Rightarrow> deployment_domain" where
  "deployment_domain_of H genesis_hash app_id =
     H (ascii ''PAYMENT_ROLLUP_V1'' @ bytes_of genesis_hash @ to_be_bytes app_id)"

definition MIN_WITHDRAWAL :: u64 where
  "MIN_WITHDRAWAL = 100000"

definition ZERO_ADDRESS :: address where
  "ZERO_ADDRESS = zero32"

definition FEE_SINK :: address where
  "FEE_SINK = b32 [
    0x3c, 0x59, 0x3f, 0x54, 0x58, 0xdd, 0x87, 0x8c, 0x42, 0x37, 0x9b, 0x05, 0xb2, 0xb3, 0x2f, 0xc2,
    0x88, 0xb1, 0xff, 0x4a, 0x8e, 0x88, 0xf0, 0xa5, 0x09, 0x28, 0xe9, 0x9d, 0xb1, 0x8b, 0xed, 0x4d]"

section \<open>Signature schemes\<close>

definition SCHEME_SIZE :: nat where
  "SCHEME_SIZE = 3"

datatype scheme = Managed | Ed25519 | Falcon1024HybridEd25519

definition scheme_ALL :: "scheme list" where
  "scheme_ALL = [Managed, Ed25519, Falcon1024HybridEd25519]"

fun scheme_identifier :: "scheme \<Rightarrow> byte list" where
  "scheme_identifier Managed = ascii ''man''"
| "scheme_identifier Ed25519 = ascii ''edd''"
| "scheme_identifier Falcon1024HybridEd25519 = ascii ''f1h''"

definition from_identifier :: "byte list \<Rightarrow> scheme option" where
  "from_identifier ident = find (\<lambda>s. scheme_identifier s = ident) scheme_ALL"

definition address_from_public_key :: "hash_fn \<Rightarrow> scheme \<Rightarrow> byte list \<Rightarrow> address" where
  "address_from_public_key H scheme pub_key = H (ascii ''ADDR'' @ scheme_identifier scheme @ pub_key)"

section \<open>What a sender signs\<close>

definition SIGN_TAG_PAYMENT :: "byte list" where
  "SIGN_TAG_PAYMENT = ascii ''PAY''"

definition SIGN_TAG_WITHDRAWAL :: "byte list" where
  "SIGN_TAG_WITHDRAWAL = ascii ''WDR''"

definition SIGN_TAG_SIZE :: nat where
  "SIGN_TAG_SIZE = 3"

definition ENCODED_TX_SIZE :: nat where
  "ENCODED_TX_SIZE = 32 + SIGN_TAG_SIZE + 32 + 8 + 8 + 32 + 8"

definition bytes_to_sign ::
  "deployment_domain \<Rightarrow> byte list \<Rightarrow> address \<Rightarrow> u64 \<Rightarrow> u64 \<Rightarrow> bytes32 \<Rightarrow> u64 \<Rightarrow> byte list" where
  "bytes_to_sign domain tag sender nonce fee destination amount =
     write_fields ENCODED_TX_SIZE
       [tag, bytes_of domain, bytes_of sender, to_be_bytes nonce, to_be_bytes fee,
        bytes_of destination, to_be_bytes amount]"

section \<open>Errors of the replay\<close>

datatype verification_error =
    InvalidAuthAddress
  | InvalidSignature
  | MalformedKey
  | MalformedSignature
  | InvalidNonce
  | UnknownSender
  | InsufficientFunds
  | AmountOverflow
  | WithdrawalTooSmall
  | MalformedProof
  | StaleWitness
  | RootMismatch
  | SidecarLengthMismatch
  | SidecarKindMismatch

section \<open>Account state\<close>

definition ENCODED_ACCOUNT_SIZE :: nat where
  "ENCODED_ACCOUNT_SIZE = 8 + 8 + 32"

record account =
  nonce :: u64
  amount :: u64
  auth_address :: address

definition account_new :: "u64 \<Rightarrow> u64 \<Rightarrow> address \<Rightarrow> account" where
  "account_new n a auth = \<lparr>nonce = n, amount = a, auth_address = auth\<rparr>"

definition account_empty :: "address \<Rightarrow> account" where
  "account_empty address = account_new 0 0 address"

definition account_from_public_key :: "hash_fn \<Rightarrow> scheme \<Rightarrow> byte list \<Rightarrow> address \<times> account" where
  "account_from_public_key H scheme pub_key =
     (let address = address_from_public_key H scheme pub_key in (address, account_empty address))"

definition encode_account :: "account \<Rightarrow> byte list" where
  "encode_account acc =
     write_fields ENCODED_ACCOUNT_SIZE
       [to_be_bytes (nonce acc), to_be_bytes (amount acc), bytes_of (auth_address acc)]"

definition decode_account :: "byte list \<Rightarrow> account" where
  "decode_account bytes =
     (let n = from_be_bytes (take 8 bytes);
          a = from_be_bytes (take 8 (drop 8 bytes));
          auth = b32 (take 32 (drop 16 bytes))
      in account_new n a auth)"

definition bump_nonce :: "account \<Rightarrow> verification_error + account" where
  "bump_nonce acc =
     and_then (ok_or InvalidNonce (checked_add (nonce acc) 1)) (\<lambda>n. Inr (acc\<lparr>nonce := n\<rparr>))"

section \<open>Lemmas\<close>

lemma length_scheme_identifier [simp]: "length (scheme_identifier s) = 3"
  by (cases s) simp_all

lemma scheme_identifier_bytes:
  "scheme_identifier Managed = [109, 97, 110]"
  "scheme_identifier Ed25519 = [101, 100, 100]"
  "scheme_identifier Falcon1024HybridEd25519 = [102, 49, 104]"
  by (simp_all add: ascii_def of_char_Char)

lemma scheme_identifier_inject [simp]: "scheme_identifier s = scheme_identifier t \<longleftrightarrow> s = t"
  by (cases s; cases t) (simp_all add: scheme_identifier_bytes del: scheme_identifier.simps)

lemma from_identifier_scheme_identifier [simp]: "from_identifier (scheme_identifier s) = Some s"
  by (cases s) (simp_all add: from_identifier_def scheme_ALL_def del: scheme_identifier.simps)

lemma from_identifier_Some_iff: "from_identifier ident = Some s \<longleftrightarrow> ident = scheme_identifier s"
  by (auto simp: from_identifier_def scheme_ALL_def simp del: scheme_identifier.simps split: if_splits)
     (cases s; simp del: scheme_identifier.simps)

lemma sign_tags_bytes: "SIGN_TAG_PAYMENT = [80, 65, 89]" "SIGN_TAG_WITHDRAWAL = [87, 68, 82]"
  by (simp_all add: SIGN_TAG_PAYMENT_def SIGN_TAG_WITHDRAWAL_def ascii_def of_char_Char)

lemma length_sign_tags [simp]: "length SIGN_TAG_PAYMENT = 3" "length SIGN_TAG_WITHDRAWAL = 3"
  by (simp_all add: sign_tags_bytes)

lemma sign_tags_distinct [simp]: "SIGN_TAG_PAYMENT \<noteq> SIGN_TAG_WITHDRAWAL"
  by (simp add: sign_tags_bytes)

lemma bytes_to_sign_eq:
  "length tag = 3 \<Longrightarrow>
     bytes_to_sign domain tag sender n fee destination a =
       tag @ bytes_of domain @ bytes_of sender @ to_be_bytes n @ to_be_bytes fee
         @ bytes_of destination @ to_be_bytes a"
  unfolding bytes_to_sign_def
  by (subst write_fields_eq) (simp_all add: ENCODED_TX_SIZE_def SIGN_TAG_SIZE_def)

lemma bytes_to_sign_inject:
  assumes "length tag = 3" and "length tag' = 3"
  shows "bytes_to_sign d tag s n f r a = bytes_to_sign d' tag' s' n' f' r' a' \<longleftrightarrow>
     d = d' \<and> tag = tag' \<and> s = s' \<and> n = n' \<and> f = f' \<and> r = r' \<and> a = a'"
  using assms by (auto simp: bytes_to_sign_eq)

lemma length_bytes_to_sign [simp]:
  "length tag = 3 \<Longrightarrow> length (bytes_to_sign d tag s n f r a) = 123"
  by (simp add: bytes_to_sign_eq)

lemma encode_account_eq:
  "encode_account acc =
     to_be_bytes (nonce acc) @ to_be_bytes (amount acc) @ bytes_of (auth_address acc)"
  unfolding encode_account_def by (subst write_fields_eq) (simp_all add: ENCODED_ACCOUNT_SIZE_def)

lemma length_encode_account [simp]: "length (encode_account acc) = 48"
  by (simp add: encode_account_eq)

lemma decode_encode_account [simp]: "decode_account (encode_account acc) = acc"
  by (simp add: decode_account_def encode_account_eq account_new_def)

lemma encode_decode_account:
  assumes "length bs = 48"
  shows "encode_account (decode_account bs) = bs"
proof -
  have "take 8 bs @ take 8 (drop 8 bs) @ take 32 (drop 16 bs) = take 8 bs @ take 8 (drop 8 bs) @ drop 8 (drop 8 bs)"
    using assms by simp
  also have "\<dots> = bs"
    by (simp only: append_take_drop_id)
  finally have "take 8 bs @ take 8 (drop 8 bs) @ take 32 (drop 16 bs) = bs" .
  then show ?thesis
    using assms by (simp add: encode_account_eq decode_account_def account_new_def Let_def)
qed

lemma encode_account_inject [simp]: "encode_account a = encode_account b \<longleftrightarrow> a = b"
  by (metis decode_encode_account)

lemma encode_account_append_eq_iff [simp]:
  "encode_account a @ xs = encode_account b @ ys \<longleftrightarrow> a = b \<and> xs = ys"
  by simp

lemma bump_nonce_Inr_iff [result_simps]:
  "bump_nonce acc = Inr acc' \<longleftrightarrow>
     unat (nonce acc) + 1 < 2 ^ 64 \<and> acc' = acc\<lparr>nonce := nonce acc + 1\<rparr>"
  by (auto simp: bump_nonce_def checked_add_unat)

lemma bump_nonce_Inl_iff:
  "bump_nonce acc = Inl e \<longleftrightarrow> e = InvalidNonce \<and> nonce acc = -1"
proof -
  have "nonce acc = -1 \<longleftrightarrow> 2 ^ 64 \<le> unat (nonce acc) + 1"
    by (simp add: word_unat_eq_iff unsigned_minus_1_eq_mask mask_eq_exp_minus_1)
       (use unat_u64_bound [of "nonce acc"] in linarith)
  then show ?thesis
    by (auto simp: bump_nonce_def checked_add_unat)
qed

end
