(* ===== verification/Transactions.thy ===== *)
theory Transactions
  imports Accounts
begin

text \<open>
  Transactions, signatures and the two halves of a block's data: the second part of
  \<^verbatim>\<open>crates/payment-rollup/src/lib.rs\<close>, with the signature checks of \<^verbatim>\<open>crypto.rs\<close> and the
  wrapper of \<^verbatim>\<open>crates/falcon-det1024/src/lib.rs\<close>.

  The cryptographic libraries (\<^verbatim>\<open>sha2\<close>, \<^verbatim>\<open>ed25519-dalek\<close>, the Falcon C library) are one
  record of functions, an argument of every definition that reaches them.
\<close>

section \<open>The cryptographic libraries\<close>

text \<open>
  \<open>ed25519_key_ok\<close> says whether \<open>VerifyingKey::from_bytes\<close> accepts a key, and
  \<open>ed25519_verify_strict\<close> whether \<open>verify_strict\<close> returns \<open>Ok\<close> for key, message and signature.
  \<open>falcon_det1024_verify_compressed\<close> is the C function: signature, key, message, 0 for valid.
\<close>

record primitives =
  sha256 :: hash_fn
  ed25519_key_ok :: "byte list \<Rightarrow> bool"
  ed25519_verify_strict :: "byte list \<Rightarrow> byte list \<Rightarrow> byte list \<Rightarrow> bool"
  falcon_det1024_verify_compressed :: "byte list \<Rightarrow> byte list \<Rightarrow> byte list \<Rightarrow> int"

section \<open>Transactions\<close>

record transaction_header =
  header_sender :: address
  header_fee :: u64

record payment =
  payment_header :: transaction_header
  payment_receiver :: address
  payment_amount :: u64

definition payment_new :: "address \<Rightarrow> address \<Rightarrow> u64 \<Rightarrow> u64 \<Rightarrow> payment" where
  "payment_new sender rcv amt fee =
     \<lparr>payment_header = \<lparr>header_sender = sender, header_fee = fee\<rparr>,
      payment_receiver = rcv, payment_amount = amt\<rparr>"

definition payment_bytes_to_sign :: "payment \<Rightarrow> deployment_domain \<Rightarrow> u64 \<Rightarrow> byte list" where
  "payment_bytes_to_sign p domain n =
     bytes_to_sign domain SIGN_TAG_PAYMENT (header_sender (payment_header p)) n
       (header_fee (payment_header p)) (payment_receiver p) (payment_amount p)"

record withdrawal =
  withdrawal_header :: transaction_header
  withdrawal_recipient :: l1_address
  withdrawal_amount :: u64

definition withdrawal_new :: "address \<Rightarrow> l1_address \<Rightarrow> u64 \<Rightarrow> u64 \<Rightarrow> withdrawal" where
  "withdrawal_new sender rcp amt fee =
     \<lparr>withdrawal_header = \<lparr>header_sender = sender, header_fee = fee\<rparr>,
      withdrawal_recipient = rcp, withdrawal_amount = amt\<rparr>"

definition withdrawal_bytes_to_sign :: "withdrawal \<Rightarrow> deployment_domain \<Rightarrow> u64 \<Rightarrow> byte list" where
  "withdrawal_bytes_to_sign w domain n =
     bytes_to_sign domain SIGN_TAG_WITHDRAWAL (header_sender (withdrawal_header w)) n
       (header_fee (withdrawal_header w)) (withdrawal_recipient w) (withdrawal_amount w)"

text \<open>
  The fields of a deposit and of a forced withdrawal are private to the module and every value
  of the program comes from their \<open>new\<close>, which pins the sender and the fee; the well-formedness
  predicates below say so for the codec.
\<close>

record deposit =
  deposit_header :: transaction_header
  deposit_receiver :: address
  deposit_amount :: u64

definition deposit_new :: "address \<Rightarrow> u64 \<Rightarrow> deposit" where
  "deposit_new rcv amt =
     \<lparr>deposit_header = \<lparr>header_sender = ZERO_ADDRESS, header_fee = 0\<rparr>,
      deposit_receiver = rcv, deposit_amount = amt\<rparr>"

record forced_withdrawal =
  forced_header :: transaction_header
  forced_recipient :: l1_address

definition forced_withdrawal_new :: "address \<Rightarrow> l1_address \<Rightarrow> forced_withdrawal" where
  "forced_withdrawal_new addr rcp =
     \<lparr>forced_header = \<lparr>header_sender = addr, header_fee = 0\<rparr>, forced_recipient = rcp\<rparr>"

definition forced_address :: "forced_withdrawal \<Rightarrow> address" where
  "forced_address f = header_sender (forced_header f)"

datatype transaction =
    Payment payment
  | Deposit deposit
  | Withdrawal withdrawal
  | ForcedWithdrawal forced_withdrawal

fun transaction_sender :: "transaction \<Rightarrow> address" where
  "transaction_sender (Payment p) = header_sender (payment_header p)"
| "transaction_sender (Deposit d) = header_sender (deposit_header d)"
| "transaction_sender (Withdrawal w) = header_sender (withdrawal_header w)"
| "transaction_sender (ForcedWithdrawal f) = header_sender (forced_header f)"

fun transaction_receiver :: "transaction \<Rightarrow> address option" where
  "transaction_receiver (Payment p) = Some (payment_receiver p)"
| "transaction_receiver (Deposit d) = Some (deposit_receiver d)"
| "transaction_receiver (Withdrawal _) = None"
| "transaction_receiver (ForcedWithdrawal _) = None"

fun transaction_amount :: "transaction \<Rightarrow> u64 option" where
  "transaction_amount (Payment p) = Some (payment_amount p)"
| "transaction_amount (Deposit d) = Some (deposit_amount d)"
| "transaction_amount (Withdrawal w) = Some (withdrawal_amount w)"
| "transaction_amount (ForcedWithdrawal _) = None"

fun transaction_fee :: "transaction \<Rightarrow> u64" where
  "transaction_fee (Payment p) = header_fee (payment_header p)"
| "transaction_fee (Withdrawal w) = header_fee (withdrawal_header w)"
| "transaction_fee (Deposit _) = 0"
| "transaction_fee (ForcedWithdrawal _) = 0"

section \<open>The checks behind a scheme\<close>

definition ED25519_PUBLIC_KEY_SIZE :: nat where
  "ED25519_PUBLIC_KEY_SIZE = 32"

definition ED25519_SIGNATURE_SIZE :: nat where
  "ED25519_SIGNATURE_SIZE = 64"

definition FALCON_MAX_SIGNATURE_SIZE :: nat where
  "FALCON_MAX_SIGNATURE_SIZE = 1423"

definition FALCON_MIN_SIGNATURE_SIZE :: nat where
  "FALCON_MIN_SIGNATURE_SIZE = 2"

definition FALCON_PUBLIC_KEY_SIZE :: nat where
  "FALCON_PUBLIC_KEY_SIZE = 1793"

definition HYBRID_PUBLIC_KEY_SIZE :: nat where
  "HYBRID_PUBLIC_KEY_SIZE = ED25519_PUBLIC_KEY_SIZE + FALCON_PUBLIC_KEY_SIZE"

definition MIN_HYBRID_SIGNATURE_SIZE :: nat where
  "MIN_HYBRID_SIGNATURE_SIZE = ED25519_SIGNATURE_SIZE + FALCON_MIN_SIGNATURE_SIZE"

definition MAX_HYBRID_SIGNATURE_SIZE :: nat where
  "MAX_HYBRID_SIGNATURE_SIZE = ED25519_SIGNATURE_SIZE + FALCON_MAX_SIGNATURE_SIZE"

text \<open>\<open>falcon_det1024::verify_compressed\<close>: the C function's answer compared to 0.\<close>

definition verify_compressed :: "primitives \<Rightarrow> byte list \<Rightarrow> byte list \<Rightarrow> byte list \<Rightarrow> bool" where
  "verify_compressed P signature public_key message =
     (falcon_det1024_verify_compressed P signature public_key message = 0)"

definition as_key :: "nat \<Rightarrow> byte list \<Rightarrow> verification_error + byte list" where
  "as_key n pub_key = (if length pub_key = n then Inr pub_key else Inl MalformedKey)"

definition verify_ed25519 ::
  "primitives \<Rightarrow> byte list \<Rightarrow> byte list \<Rightarrow> byte list \<Rightarrow> verification_error + unit" where
  "verify_ed25519 P pub_key sig message =
     (if length sig \<noteq> ED25519_SIGNATURE_SIZE then Inl MalformedSignature
      else and_then (ensure (ed25519_key_ok P pub_key) MalformedKey) (\<lambda>_.
        ensure (ed25519_verify_strict P pub_key message sig) InvalidSignature))"

fun crypto_verify ::
  "primitives \<Rightarrow> scheme \<Rightarrow> byte list \<Rightarrow> byte list \<Rightarrow> byte list \<Rightarrow> verification_error + unit" where
  "crypto_verify P Managed pub_key sig message = Inr ()"
| "crypto_verify P Ed25519 pub_key sig message =
     and_then (as_key ED25519_PUBLIC_KEY_SIZE pub_key) (\<lambda>key. verify_ed25519 P key sig message)"
| "crypto_verify P Falcon1024HybridEd25519 pub_key sig message =
     (if length pub_key \<noteq> HYBRID_PUBLIC_KEY_SIZE then Inl MalformedKey
      else if \<not> (MIN_HYBRID_SIGNATURE_SIZE \<le> length sig \<and> length sig \<le> MAX_HYBRID_SIGNATURE_SIZE)
        then Inl MalformedSignature
      else
        let ed25519_key = take ED25519_PUBLIC_KEY_SIZE pub_key;
            falcon_key = drop ED25519_PUBLIC_KEY_SIZE pub_key;
            ed25519_sig = take ED25519_SIGNATURE_SIZE sig;
            falcon_sig = drop ED25519_SIGNATURE_SIZE sig
        in and_then (as_key ED25519_PUBLIC_KEY_SIZE ed25519_key) (\<lambda>key.
           and_then (verify_ed25519 P key ed25519_sig message) (\<lambda>_.
           and_then (as_key FALCON_PUBLIC_KEY_SIZE falcon_key) (\<lambda>key.
             if verify_compressed P falcon_sig key message then Inr () else Inl InvalidSignature))))"

section \<open>Signatures\<close>

record signature =
  sig_scheme :: scheme
  sig_pub_key :: "byte list"
  sig_bytes :: "byte list"

definition signature_new :: "scheme \<Rightarrow> byte list \<Rightarrow> byte list \<Rightarrow> signature" where
  "signature_new s pub_key sig = \<lparr>sig_scheme = s, sig_pub_key = pub_key, sig_bytes = sig\<rparr>"

definition signature_address :: "primitives \<Rightarrow> signature \<Rightarrow> address" where
  "signature_address P s = address_from_public_key (sha256 P) (sig_scheme s) (sig_pub_key s)"

definition verify_auth :: "primitives \<Rightarrow> signature \<Rightarrow> account \<Rightarrow> verification_error + unit" where
  "verify_auth P s acc =
     (if signature_address P s = auth_address acc then Inr () else Inl InvalidAuthAddress)"

definition signature_verify ::
  "primitives \<Rightarrow> signature \<Rightarrow> account \<Rightarrow> byte list \<Rightarrow> verification_error + unit" where
  "signature_verify P s acc message =
     and_then (verify_auth P s acc) (\<lambda>_.
       crypto_verify P (sig_scheme s) (sig_pub_key s) (sig_bytes s) message)"

text \<open>
  A transaction as submitted. The four constructor functions of the source
  (\<open>SignedTransaction::payment\<close> and so on) are these constructors.
\<close>

datatype signed_transaction =
    SignedPayment payment signature
  | SignedDeposit deposit
  | SignedWithdrawal withdrawal signature
  | SignedForcedWithdrawal forced_withdrawal

section \<open>Well-formedness\<close>

definition wf_deposit :: "deposit \<Rightarrow> bool" where
  "wf_deposit d \<longleftrightarrow> deposit_header d = \<lparr>header_sender = ZERO_ADDRESS, header_fee = 0\<rparr>"

definition wf_forced :: "forced_withdrawal \<Rightarrow> bool" where
  "wf_forced f \<longleftrightarrow> header_fee (forced_header f) = 0"

fun wf_transaction :: "transaction \<Rightarrow> bool" where
  "wf_transaction (Deposit d) = wf_deposit d"
| "wf_transaction (ForcedWithdrawal f) = wf_forced f"
| "wf_transaction _ = True"

lemma wf_deposit_new [simp]: "wf_deposit (deposit_new rcv amt)"
  by (simp add: wf_deposit_def deposit_new_def)

lemma wf_deposit_iff: "wf_deposit d \<longleftrightarrow> d = deposit_new (deposit_receiver d) (deposit_amount d)"
  by (cases d) (auto simp: wf_deposit_def deposit_new_def)

lemma wf_forced_new [simp]: "wf_forced (forced_withdrawal_new addr rcp)"
  by (simp add: wf_forced_def forced_withdrawal_new_def)

lemma wf_forced_iff:
  "wf_forced f \<longleftrightarrow> f = forced_withdrawal_new (forced_address f) (forced_recipient f)"
  by (cases f; cases "forced_header f")
     (auto simp: wf_forced_def forced_withdrawal_new_def forced_address_def)

section \<open>Lemmas\<close>

lemma payment_new_simps [simp]:
  "header_sender (payment_header (payment_new s r a f)) = s"
  "header_fee (payment_header (payment_new s r a f)) = f"
  "payment_receiver (payment_new s r a f) = r"
  "payment_amount (payment_new s r a f) = a"
  by (simp_all add: payment_new_def)

lemma withdrawal_new_simps [simp]:
  "header_sender (withdrawal_header (withdrawal_new s r a f)) = s"
  "header_fee (withdrawal_header (withdrawal_new s r a f)) = f"
  "withdrawal_recipient (withdrawal_new s r a f) = r"
  "withdrawal_amount (withdrawal_new s r a f) = a"
  by (simp_all add: withdrawal_new_def)

lemma deposit_new_simps [simp]:
  "deposit_receiver (deposit_new r a) = r"
  "deposit_amount (deposit_new r a) = a"
  "header_sender (deposit_header (deposit_new r a)) = ZERO_ADDRESS"
  "header_fee (deposit_header (deposit_new r a)) = 0"
  by (simp_all add: deposit_new_def)

lemma forced_new_simps [simp]:
  "header_sender (forced_header (forced_withdrawal_new a r)) = a"
  "forced_address (forced_withdrawal_new a r) = a"
  "forced_recipient (forced_withdrawal_new a r) = r"
  by (simp_all add: forced_withdrawal_new_def forced_address_def)

lemmas crypto_sizes =
  ED25519_PUBLIC_KEY_SIZE_def ED25519_SIGNATURE_SIZE_def FALCON_MAX_SIGNATURE_SIZE_def
  FALCON_MIN_SIGNATURE_SIZE_def FALCON_PUBLIC_KEY_SIZE_def HYBRID_PUBLIC_KEY_SIZE_def
  MIN_HYBRID_SIGNATURE_SIZE_def MAX_HYBRID_SIGNATURE_SIZE_def

lemma verify_auth_Inr_iff [result_simps]:
  "verify_auth P s acc = Inr u \<longleftrightarrow> signature_address P s = auth_address acc"
  by (simp add: verify_auth_def)

lemma verify_ed25519_Inr_iff [result_simps]:
  "verify_ed25519 P key sig msg = Inr u \<longleftrightarrow>
     length sig = 64 \<and> ed25519_key_ok P key \<and> ed25519_verify_strict P key msg sig"
  by (auto simp: verify_ed25519_def ED25519_SIGNATURE_SIZE_def result_simps)

lemma crypto_verify_hybrid_iff:
  "crypto_verify P Falcon1024HybridEd25519 key sig msg = Inr u \<longleftrightarrow>
     length key = 1825 \<and> 66 \<le> length sig \<and> length sig \<le> 1487 \<and>
     ed25519_key_ok P (take 32 key) \<and> ed25519_verify_strict P (take 32 key) msg (take 64 sig) \<and>
     falcon_det1024_verify_compressed P (drop 64 sig) (drop 32 key) msg = 0"
  by (auto simp: crypto_sizes result_simps as_key_def verify_compressed_def split: if_splits)

lemma crypto_verify_ed25519_iff:
  "crypto_verify P Ed25519 key sig msg = Inr u \<longleftrightarrow>
     length key = 32 \<and> length sig = 64 \<and> ed25519_key_ok P key \<and> ed25519_verify_strict P key msg sig"
  by (auto simp: crypto_sizes result_simps as_key_def split: if_splits)

lemma crypto_verify_errors:
  "crypto_verify P s key sig msg = Inl e \<Longrightarrow>
     s \<noteq> Managed \<and> e \<in> {MalformedKey, MalformedSignature, InvalidSignature}"
  by (cases s)
     (auto simp: and_then_Inl_iff as_key_def verify_ed25519_def ensure_def Let_def split: if_splits)

text \<open>A signature's message determines every field it authorizes, and the kind of the spend.\<close>

lemma payment_bytes_to_sign_inject:
  "payment_bytes_to_sign p d n = payment_bytes_to_sign q d' m \<longleftrightarrow> p = q \<and> d = d' \<and> n = m"
  by (cases p; cases q; cases "payment_header p"; cases "payment_header q")
     (auto simp: payment_bytes_to_sign_def bytes_to_sign_inject)

lemma withdrawal_bytes_to_sign_inject:
  "withdrawal_bytes_to_sign v d n = withdrawal_bytes_to_sign w d' m \<longleftrightarrow> v = w \<and> d = d' \<and> n = m"
  by (cases v; cases w; cases "withdrawal_header v"; cases "withdrawal_header w")
     (auto simp: withdrawal_bytes_to_sign_def bytes_to_sign_inject)

lemma payment_withdrawal_bytes_disjoint:
  "payment_bytes_to_sign p d n \<noteq> withdrawal_bytes_to_sign w d' m"
  by (simp add: payment_bytes_to_sign_def withdrawal_bytes_to_sign_def bytes_to_sign_inject)

end
