(* ===== verification/Toy.thy ===== *)
theory Toy
  imports Transactions
begin

text \<open>
  Concrete libraries for the examples: a 32-byte checksum that tells apart the handful of
  strings an example hashes, and signature checks that accept one recognisable signature. No
  theorem of the development is about them.
\<close>

fun toy_sums :: "byte \<Rightarrow> byte \<Rightarrow> byte list \<Rightarrow> byte \<times> byte" where
  "toy_sums x y [] = (x, y)"
| "toy_sums x y (b # bs) = toy_sums (x + b) (y + x) bs"

definition toy_hash :: hash_fn where
  "toy_hash bs = (let (x, y) = toy_sums 0 0 bs in b32 (x # y # replicate 30 1))"

definition toy :: primitives where
  "toy = \<lparr>sha256 = toy_hash, ed25519_key_ok = (\<lambda>key. True),
     ed25519_verify_strict = (\<lambda>key msg sig. hd sig = 7),
     falcon_det1024_verify_compressed = (\<lambda>sig key msg. if hd sig = 0xba then 0 else 1)\<rparr>"

lemma toy_simps [simp]: "sha256 toy = toy_hash" "ed25519_key_ok toy key"
  "ed25519_verify_strict toy key msg sig = (hd sig = 7)"
  "falcon_det1024_verify_compressed toy sig key msg = (if hd sig = 0xba then 0 else 1)"
  by (simp_all add: toy_def)

text \<open>Two addresses that differ in their first bit, and a third that differs in the second.\<close>

definition addr :: "byte \<Rightarrow> address" where
  "addr b = b32 (b # replicate 31 5)"

end
