(* ===== verification/Merkle.thy ===== *)
theory Merkle
  imports Accounts
begin

text \<open>
  The sparse Merkle tree of \<^verbatim>\<open>crates/payment-rollup/src/merkle.rs\<close>: hashes, address
  bits, the tree and its operations, proofs and their verification. The facts about them
  are in \<open>Merkle_Tree\<close> and \<open>Merkle_Proofs\<close>.
\<close>

section \<open>Hashes\<close>

definition DEPTH :: nat where
  "DEPTH = 256"

definition EMPTY_SUBTREE :: bytes32 where
  "EMPTY_SUBTREE = zero32"

definition leaf_preimage :: "address \<Rightarrow> account \<Rightarrow> byte list" where
  "leaf_preimage address acc = ascii ''LEAF'' @ bytes_of address @ encode_account acc"

definition leaf_hash :: "hash_fn \<Rightarrow> address \<Rightarrow> account \<Rightarrow> bytes32" where
  "leaf_hash H address acc = H (leaf_preimage address acc)"

definition node_preimage :: "bytes32 \<Rightarrow> bytes32 \<Rightarrow> byte list" where
  "node_preimage left right = ascii ''NODE'' @ bytes_of left @ bytes_of right"

definition node_hash :: "hash_fn \<Rightarrow> bytes32 \<Rightarrow> bytes32 \<Rightarrow> bytes32" where
  "node_hash H left right = H (node_preimage left right)"

section \<open>Address bits\<close>

definition bit_at :: "address \<Rightarrow> nat \<Rightarrow> nat" where
  "bit_at address depth =
     unat (drop_bit (7 - depth mod 8) (bytes_of address ! (depth div 8)) AND 1)"

text \<open>\<open>u8::leading_zeros\<close>, and the loop of \<open>common_prefix_len\<close> from byte \<open>index\<close> on.\<close>

definition leading_zeros :: "byte \<Rightarrow> nat" where
  "leading_zeros x = length (takeWhile (\<lambda>i. \<not> bit x i) [7, 6, 5, 4, 3, 2, 1, 0])"

fun common_prefix_loop :: "nat \<Rightarrow> byte list \<Rightarrow> byte list \<Rightarrow> nat" where
  "common_prefix_loop index (x # xs) (y # ys) =
     (if x \<noteq> y then index * 8 + leading_zeros (x XOR y)
      else common_prefix_loop (index + 1) xs ys)"
| "common_prefix_loop index _ _ = DEPTH"

definition common_prefix_len :: "address \<Rightarrow> address \<Rightarrow> nat" where
  "common_prefix_len a b = common_prefix_loop 0 (bytes_of a) (bytes_of b)"

section \<open>The tree\<close>

text \<open>
  \<open>Branch\<close> carries the cached hash and the two children; \<open>children[0]\<close> is the first.
\<close>

datatype node =
    Empty
  | Leaf address account
  | Branch bytes32 node node

fun hash_of :: "hash_fn \<Rightarrow> node \<Rightarrow> bytes32" where
  "hash_of H Empty = EMPTY_SUBTREE"
| "hash_of H (Leaf address acc) = leaf_hash H address acc"
| "hash_of H (Branch h _ _) = h"

definition branch :: "hash_fn \<Rightarrow> node \<Rightarrow> node \<Rightarrow> node" where
  "branch H left right = Branch (node_hash H (hash_of H left) (hash_of H right)) left right"

fun rehash :: "hash_fn \<Rightarrow> node \<Rightarrow> node" where
  "rehash H (Branch _ left right) = Branch (node_hash H (hash_of H left) (hash_of H right)) left right"
| "rehash H t = t"

definition split_node ::
  "hash_fn \<Rightarrow> nat \<Rightarrow> address \<times> account \<Rightarrow> address \<times> account \<Rightarrow> node" where
  "split_node H depth a b =
     (let split_depth = common_prefix_len (fst a) (fst b);
          a_leaf = Leaf (fst a) (snd a);
          b_leaf = Leaf (fst b) (snd b);
          node = (if bit_at (fst a) split_depth = 0
                  then branch H a_leaf b_leaf else branch H b_leaf a_leaf)
      in foldl (\<lambda>node level. if bit_at (fst a) level = 0
                 then branch H node Empty else branch H Empty node)
           node (rev [depth..<split_depth]))"

fun node_insert :: "hash_fn \<Rightarrow> node \<Rightarrow> nat \<Rightarrow> address \<Rightarrow> account \<Rightarrow> node" where
  "node_insert H Empty depth address acc = Leaf address acc"
| "node_insert H (Leaf held held_acc) depth address acc =
     (if held = address then Leaf held acc
      else split_node H depth (held, held_acc) (address, acc))"
| "node_insert H (Branch h left right) depth address acc =
     rehash H
       (if bit_at address depth = 0
        then Branch h (node_insert H left (depth + 1) address acc) right
        else Branch h left (node_insert H right (depth + 1) address acc))"

fun collapse :: "node \<Rightarrow> node" where
  "collapse (Branch _ Empty Empty) = Empty"
| "collapse (Branch _ (Leaf a acc) Empty) = Leaf a acc"
| "collapse (Branch _ Empty (Leaf a acc)) = Leaf a acc"
| "collapse t = t"

fun node_remove :: "hash_fn \<Rightarrow> node \<Rightarrow> nat \<Rightarrow> address \<Rightarrow> node" where
  "node_remove H Empty depth address = Empty"
| "node_remove H (Leaf held acc) depth address = (if held = address then Empty else Leaf held acc)"
| "node_remove H (Branch h left right) depth address =
     collapse (rehash H
       (if bit_at address depth = 0
        then Branch h (node_remove H left (depth + 1) address) right
        else Branch h left (node_remove H right (depth + 1) address)))"

section \<open>Proofs\<close>

datatype slot = Own | Neighbor address account

record merkle_proof =
  siblings :: "bytes32 list"
  slot :: slot

definition from_parts :: "bytes32 list \<Rightarrow> slot \<Rightarrow> merkle_proof" where
  "from_parts sibs s = \<lparr>siblings = sibs, slot = s\<rparr>"

definition proof_depth :: "merkle_proof \<Rightarrow> nat" where
  "proof_depth p = length (siblings p)"

text \<open>\<open>prove\<close> pushes onto the vector it is given; the model returns the extended vector.\<close>

fun prove_node ::
  "hash_fn \<Rightarrow> node \<Rightarrow> nat \<Rightarrow> address \<Rightarrow> bytes32 list \<Rightarrow> bytes32 list \<times> slot" where
  "prove_node H Empty depth address sibs = (sibs, Own)"
| "prove_node H (Leaf held acc) depth address sibs =
     (sibs, if held = address then Own else Neighbor held acc)"
| "prove_node H (Branch h left right) depth address sibs =
     (if bit_at address depth = 0
      then prove_node H left (depth + 1) address (sibs @ [hash_of H right])
      else prove_node H right (depth + 1) address (sibs @ [hash_of H left]))"

record sparse_merkle_tree =
  tree_root :: node

definition tree_new :: sparse_merkle_tree where
  "tree_new = \<lparr>tree_root = Empty\<rparr>"

definition root :: "hash_fn \<Rightarrow> sparse_merkle_tree \<Rightarrow> bytes32" where
  "root H t = hash_of H (tree_root t)"

definition update ::
  "hash_fn \<Rightarrow> sparse_merkle_tree \<Rightarrow> address \<Rightarrow> account option \<Rightarrow> sparse_merkle_tree" where
  "update H t address acc =
     (case acc of
        Some acc \<Rightarrow> t\<lparr>tree_root := node_insert H (tree_root t) 0 address acc\<rparr>
      | None \<Rightarrow> t\<lparr>tree_root := node_remove H (tree_root t) 0 address\<rparr>)"

definition tree_proof :: "hash_fn \<Rightarrow> sparse_merkle_tree \<Rightarrow> address \<Rightarrow> merkle_proof" where
  "tree_proof H t address =
     (let (sibs, s) = prove_node H (tree_root t) 0 address []
      in \<lparr>siblings = sibs, slot = s\<rparr>)"

section \<open>Verifying a proof\<close>

definition check_neighbor :: "address \<Rightarrow> address \<Rightarrow> nat \<Rightarrow> unit option" where
  "check_neighbor address neighbor depth =
     (if neighbor \<noteq> address \<and> common_prefix_len address neighbor \<ge> depth then Some () else None)"

definition subtree_with_both ::
  "hash_fn \<Rightarrow> nat \<Rightarrow> address \<times> account \<Rightarrow> address \<times> account \<Rightarrow> bytes32" where
  "subtree_with_both H depth new held =
     (let split_depth = common_prefix_len (fst new) (fst held);
          own = leaf_hash H (fst new) (snd new);
          other = leaf_hash H (fst held) (snd held);
          current = (if bit_at (fst new) split_depth = 0
                     then node_hash H own other else node_hash H other own)
      in foldl (\<lambda>current level. if bit_at (fst new) level = 0
                 then node_hash H current EMPTY_SUBTREE
                 else node_hash H EMPTY_SUBTREE current)
           current (rev [depth..<split_depth]))"

definition slot_hash ::
  "hash_fn \<Rightarrow> address \<Rightarrow> account option \<Rightarrow> nat \<Rightarrow> slot \<Rightarrow> bytes32 option" where
  "slot_hash H address acc depth s =
     (case (s, acc) of
        (Own, None) \<Rightarrow> Some EMPTY_SUBTREE
      | (Own, Some acc) \<Rightarrow> Some (leaf_hash H address acc)
      | (Neighbor neighbor held, None) \<Rightarrow>
          Option.bind (check_neighbor address neighbor depth) (\<lambda>_.
            Some (leaf_hash H neighbor held))
      | (Neighbor neighbor held, Some acc) \<Rightarrow>
          Option.bind (check_neighbor address neighbor depth) (\<lambda>_.
            Some (subtree_with_both H depth (address, acc) (neighbor, held))))"

definition root_from_proof ::
  "hash_fn \<Rightarrow> address \<Rightarrow> account option \<Rightarrow> merkle_proof \<Rightarrow> bytes32 option" where
  "root_from_proof H address acc p =
     (let depth = length (siblings p) in
      if depth > DEPTH then None
      else Option.bind (slot_hash H address acc depth (slot p)) (\<lambda>current.
        Some (foldl (\<lambda>current level. if bit_at address level = 0
                then node_hash H current (siblings p ! level)
                else node_hash H (siblings p ! level) current)
              current (rev [0..<depth]))))"

definition verify_proof ::
  "hash_fn \<Rightarrow> bytes32 \<Rightarrow> address \<Rightarrow> account option \<Rightarrow> merkle_proof \<Rightarrow> bool" where
  "verify_proof H r address acc p \<longleftrightarrow> root_from_proof H address acc p = Some r"

end
