(* ===== verification/Merkle_Tree.thy ===== *)
theory Merkle_Tree
  imports Merkle
begin

text \<open>
  The tree as a finite map. Address bits and \<open>common_prefix_len\<close>; the well-formedness
  invariant \<open>wf_node\<close> (every cached hash is current, every leaf sits under the bits of its
  address, every branch holds at least two accounts); what \<open>insert\<close> and \<open>remove\<close> do to
  the contents; and canonicity: the contents determine the tree.
\<close>

section \<open>Address bits\<close>

definition bit_of :: "byte list \<Rightarrow> nat \<Rightarrow> bool" where
  "bit_of bs d \<longleftrightarrow> bit (bs ! (d div 8)) (7 - d mod 8)"

lemma bit_at_bit_of: "bit_at a d = of_bool (bit_of (bytes_of a) d)"
  by (simp add: bit_at_def bit_of_def and_one_eq bit_iff_odd_drop_bit mod_2_eq_odd)

lemma bit_at_less_2: "bit_at a d = 0 \<or> bit_at a d = 1"
  by (simp add: bit_at_bit_of)

lemma bit_at_neq_0 [simp]: "0 < bit_at a d \<longleftrightarrow> bit_at a d = 1" "bit_at a d \<noteq> 0 \<longleftrightarrow> bit_at a d = 1"
  using bit_at_less_2 [of a d] by auto

lemma byte_bits_inject: "(\<And>i. i < 8 \<Longrightarrow> bit x (7 - i) = bit y (7 - i)) \<Longrightarrow> x = (y :: byte)"
proof (rule bit_word_eqI)
  fix n :: nat assume h: "\<And>i. i < 8 \<Longrightarrow> bit x (7 - i) = bit y (7 - i)" and "n < LENGTH(8)"
  then show "bit x n = bit y n" using h [of "7 - n"] by simp
qed

lemma bits_of_byte_cases:
  assumes "x \<noteq> (0 :: byte)"
  shows "bit x 7 \<or> bit x 6 \<or> bit x 5 \<or> bit x 4 \<or> bit x 3 \<or> bit x 2 \<or> bit x 1 \<or> bit x 0"
proof (rule ccontr)
  assume "\<not> ?thesis"
  then have "bit x n = bit (0 :: byte) n" if "n < 8" for n
    using that by (auto simp: less_Suc_eq numeral_eq_Suc)
  then have "x = 0" by (intro bit_word_eqI) simp
  with assms show False by simp
qed

lemma leading_zeros_spec:
  assumes "x \<noteq> (0 :: byte)"
  shows "leading_zeros x < 8" and "bit x (7 - leading_zeros x)"
    and "i < leading_zeros x \<Longrightarrow> \<not> bit x (7 - i)"
proof -
  show "leading_zeros x < 8" and "bit x (7 - leading_zeros x)"
    using bits_of_byte_cases [OF assms] by (auto simp: leading_zeros_def split: if_splits)
  show "i < leading_zeros x \<Longrightarrow> \<not> bit x (7 - i)"
    by (auto simp: leading_zeros_def less_Suc_eq numeral_eq_Suc split: if_splits)
qed

lemma common_prefix_loop_self: "common_prefix_loop k xs xs = 256"
  by (induction xs arbitrary: k) (simp_all add: DEPTH_def)

lemma common_prefix_loop_diff:
  assumes "length xs = length ys" and "k + length xs = 32" and "xs \<noteq> ys"
  shows "\<exists>c. common_prefix_loop k xs ys = k * 8 + c \<and> c < length xs * 8
    \<and> (\<forall>d<c. bit_of xs d = bit_of ys d) \<and> bit_of xs c \<noteq> bit_of ys c"
  using assms
proof (induction xs ys arbitrary: k rule: list_induct2)
  case Nil
  then show ?case by simp
next
  case (Cons x xs y ys)
  show ?case
  proof (cases "x = y")
    case False
    then have nz: "x XOR y \<noteq> 0" by (auto simp: bit_eq_iff bit_xor_iff)
    define c where "c = leading_zeros (x XOR y)"
    note lz = leading_zeros_spec [OF nz, folded c_def]
    have "\<forall>d<c. bit_of (x # xs) d = bit_of (y # ys) d"
    proof (intro allI impI)
      fix d assume "d < c"
      with lz(1) lz(3) [of d] show "bit_of (x # xs) d = bit_of (y # ys) d"
        by (simp add: bit_of_def bit_xor_iff)
    qed
    moreover have "bit_of (x # xs) c \<noteq> bit_of (y # ys) c"
      using lz(1,2) by (simp add: bit_of_def bit_xor_iff)
    ultimately show ?thesis using False lz(1) by (intro exI [of _ c]) (simp add: c_def)
  next
    case True
    with Cons.prems have "xs \<noteq> ys" and "(k + 1) + length xs = 32" by simp_all
    from Cons.IH [OF this(2,1)] obtain c
      where c: "common_prefix_loop (k + 1) xs ys = (k + 1) * 8 + c" "c < length xs * 8"
        "\<forall>d<c. bit_of xs d = bit_of ys d" "bit_of xs c \<noteq> bit_of ys c" by blast
    have shift: "bit_of (z # zs) (d + 8) = bit_of zs d" for z zs d
      using div_add_self2 [of 8 d] by (simp add: bit_of_def del: div_add_self2)
    have "bit_of (x # xs) d = bit_of (y # ys) d" if "d < c + 8" for d
    proof (cases "d < 8")
      case True
      then show ?thesis using \<open>x = y\<close> by (simp add: bit_of_def)
    next
      case False
      then obtain e where "d = e + 8" by (metis le_add_diff_inverse2 not_less)
      with that c(3) show ?thesis by (simp add: shift)
    qed
    with c True show ?thesis by (intro exI [of _ "c + 8"]) (simp add: shift)
  qed
qed

lemma common_prefix_len_self [simp]: "common_prefix_len a a = 256"
  by (simp add: common_prefix_len_def common_prefix_loop_self)

lemma common_prefix_len_diff:
  assumes "a \<noteq> b"
  shows common_prefix_len_less: "common_prefix_len a b < 256"
    and bit_at_common_prefix_len:
      "bit_at a (common_prefix_len a b) \<noteq> bit_at b (common_prefix_len a b)"
    and bit_at_below_common_prefix_len:
      "d < common_prefix_len a b \<Longrightarrow> bit_at a d = bit_at b d"
proof -
  from assms have "bytes_of a \<noteq> bytes_of b" by simp
  with common_prefix_loop_diff [of "bytes_of a" "bytes_of b" 0]
  obtain c where "common_prefix_len a b = c" "c < 256"
    "\<forall>d<c. bit_of (bytes_of a) d = bit_of (bytes_of b) d"
    "bit_of (bytes_of a) c \<noteq> bit_of (bytes_of b) c"
    by (auto simp: common_prefix_len_def)
  then show "common_prefix_len a b < 256"
    "bit_at a (common_prefix_len a b) \<noteq> bit_at b (common_prefix_len a b)"
    "d < common_prefix_len a b \<Longrightarrow> bit_at a d = bit_at b d"
    by (simp_all add: bit_at_bit_of)
qed

lemma common_prefix_len_bit: "d < common_prefix_len a b \<Longrightarrow> bit_at a d = bit_at b d"
  by (cases "a = b") (auto dest: bit_at_below_common_prefix_len)

lemma common_prefix_len_ge_iff:
  assumes "d \<le> 256"
  shows "d \<le> common_prefix_len a b \<longleftrightarrow> (\<forall>i<d. bit_at a i = bit_at b i)"
proof (cases "a = b")
  case True
  then show ?thesis using assms by simp
next
  case False
  then show ?thesis
    using bit_at_common_prefix_len [OF False] common_prefix_len_bit [of _ a b]
    by (meson leI less_le_trans)
qed

lemma common_prefix_len_sym: "common_prefix_len a b = common_prefix_len b a"
proof (cases "a = b")
  case False
  then have ab: "common_prefix_len a b < 256" and ba: "common_prefix_len b a < 256"
    by (auto intro: common_prefix_len_less)
  have "d \<le> common_prefix_len a b \<longleftrightarrow> d \<le> common_prefix_len b a" if "d \<le> 256" for d
    using that by (auto simp: common_prefix_len_ge_iff)
  with ab ba show ?thesis by (meson le_antisym less_imp_le order_refl)
qed simp

lemma bits_differ_within:
  "a \<noteq> b \<Longrightarrow> (\<And>i. i < d \<Longrightarrow> bit_at a i = bit_at b i) \<Longrightarrow> d \<le> common_prefix_len a b"
  by (meson bit_at_common_prefix_len leI)

lemma address_eq_if_bits_eq: "(\<And>d. d < 256 \<Longrightarrow> bit_at a d = bit_at b d) \<Longrightarrow> a = b"
  using common_prefix_len_less bit_at_common_prefix_len by blast

section \<open>Well-formed trees\<close>

text \<open>
  \<open>under p a\<close>: address \<open>a\<close> descends along the path \<open>p\<close>. A branch's depth is the length of the
  path that leads to it, so a node is well-formed relative to its path.
\<close>

definition under :: "nat list \<Rightarrow> address \<Rightarrow> bool" where
  "under p a \<longleftrightarrow> (\<forall>i<length p. bit_at a i = p ! i)"

fun leaves :: "node \<Rightarrow> (address \<times> account) list" where
  "leaves Empty = []"
| "leaves (Leaf a acc) = [(a, acc)]"
| "leaves (Branch _ l r) = leaves l @ leaves r"

definition accounts :: "node \<Rightarrow> address \<rightharpoonup> account" where
  "accounts t = map_of (leaves t)"

text \<open>\<open>hashed H t\<close>: every cached hash is the hash of the children as they stand.\<close>

fun hashed :: "hash_fn \<Rightarrow> node \<Rightarrow> bool" where
  "hashed H Empty = True"
| "hashed H (Leaf _ _) = True"
| "hashed H (Branch h l r) =
     (h = node_hash H (hash_of H l) (hash_of H r) \<and> hashed H l \<and> hashed H r)"

fun shaped :: "nat list \<Rightarrow> node \<Rightarrow> bool" where
  "shaped p Empty = True"
| "shaped p (Leaf a _) = under p a"
| "shaped p (Branch _ l r) =
     (shaped (p @ [0]) l \<and> shaped (p @ [1]) r \<and> 2 \<le> length (leaves l) + length (leaves r))"

definition wf_node :: "hash_fn \<Rightarrow> nat list \<Rightarrow> node \<Rightarrow> bool" where
  "wf_node H p t \<longleftrightarrow> hashed H t \<and> shaped p t"

definition wf_tree :: "hash_fn \<Rightarrow> sparse_merkle_tree \<Rightarrow> bool" where
  "wf_tree H t \<longleftrightarrow> wf_node H [] (tree_root t)"

lemma under_Nil [simp]: "under [] a"
  by (simp add: under_def)

lemma under_snoc [simp]: "under (p @ [b]) a \<longleftrightarrow> under p a \<and> bit_at a (length p) = b"
  by (auto simp: under_def nth_append less_Suc_eq)

lemma shaped_leaves_under: "shaped p t \<Longrightarrow> (a, acc) \<in> set (leaves t) \<Longrightarrow> under p a"
  by (induction p t rule: shaped.induct) auto

lemma accounts_simps [simp]:
  "accounts Empty = Map.empty"
  "accounts (Leaf a acc) = [a \<mapsto> acc]"
  by (simp_all add: accounts_def)

lemma accounts_Branch: "accounts (Branch h l r) = accounts r ++ accounts l"
  by (simp add: accounts_def map_of_append)

lemma finite_dom_accounts [simp]: "finite (dom (accounts t))"
  by (simp add: accounts_def finite_dom_map_of)

lemma accounts_under: "shaped p t \<Longrightarrow> accounts t a = Some acc \<Longrightarrow> under p a"
  by (auto simp: accounts_def dest: map_of_SomeD shaped_leaves_under)

lemma accounts_Branch_bit:
  assumes "shaped p (Branch h l r)"
  shows "accounts (Branch h l r) a =
    (if bit_at a (length p) = 0 then accounts l a else accounts r a)"
proof -
  have "accounts r a = None" if "bit_at a (length p) = 0"
    using assms that accounts_under [of "p @ [1]" r a] by (cases "accounts r a") auto
  moreover have "accounts l a = None" if "bit_at a (length p) \<noteq> 0"
    using assms that accounts_under [of "p @ [0]" l a] by (cases "accounts l a") auto
  ultimately show ?thesis
    by (auto simp: accounts_Branch map_add_def split: option.splits)
qed

lemma distinct_leaves: "shaped p t \<Longrightarrow> distinct (map fst (leaves t))"
proof (induction p t rule: shaped.induct)
  case (3 p h l r)
  have "fst ` set (leaves l) \<inter> fst ` set (leaves r) = {}"
    using 3 shaped_leaves_under [of "p @ [0]" l] shaped_leaves_under [of "p @ [1]" r] by fastforce
  with 3 show ?case by simp
qed simp_all

text \<open>A branch never sits at depth 256, so \<open>bit_at\<close> is never asked for a bit that is not there.\<close>

lemma two_under_length:
  assumes "a \<noteq> b" and "under p a" and "under p b"
  shows "length p \<le> common_prefix_len a b" and "length p < 256"
proof -
  show "length p \<le> common_prefix_len a b"
    using assms by (intro bits_differ_within) (auto simp: under_def)
  with common_prefix_len_less [OF assms(1)] show "length p < 256" by simp
qed

lemma branch_depth_bound:
  assumes "shaped p (Branch h l r)"
  shows "length p < 256"
proof -
  have d: "distinct (map fst (leaves (Branch h l r)))" using assms by (rule distinct_leaves)
  have "2 \<le> length (leaves (Branch h l r))" using assms by simp
  then obtain x y zs where xs: "leaves (Branch h l r) = x # y # zs"
    by (metis One_nat_def Suc_1 Suc_le_length_iff)
  with d have "fst x \<noteq> fst y" by (metis distinct_length_2_or_more list.simps(9))
  moreover have "under p (fst x)" "under p (fst y)"
    using assms xs shaped_leaves_under [of p "Branch h l r"]
    by (metis list.set_intros prod.collapse)+
  ultimately show ?thesis by (rule two_under_length(2))
qed

section \<open>What the operations do to the contents\<close>

lemma hash_of_branch [simp]: "hash_of H (branch H l r) = node_hash H (hash_of H l) (hash_of H r)"
  by (simp add: branch_def)

lemma leaves_branch [simp]: "leaves (branch H l r) = leaves l @ leaves r"
  by (simp add: branch_def)

lemma hashed_branch [simp]: "hashed H (branch H l r) \<longleftrightarrow> hashed H l \<and> hashed H r"
  by (simp add: branch_def)

lemma rehash_Branch: "rehash H (Branch h l r) = branch H l r"
  by (simp add: branch_def)

lemma shaped_branch [simp]: "shaped p (branch H l r) \<longleftrightarrow>
    shaped (p @ [0]) l \<and> shaped (p @ [1]) r \<and> 2 \<le> length (leaves l) + length (leaves r)"
  by (simp add: branch_def)

text \<open>The path of an address, and the chain of one-child branches \<open>split\<close> builds along it.\<close>

definition path :: "address \<Rightarrow> nat \<Rightarrow> nat list" where
  "path a d = map (bit_at a) [0..<d]"

lemma length_path [simp]: "length (path a d) = d"
  by (simp add: path_def)

lemma path_Suc: "path a (Suc d) = path a d @ [bit_at a d]"
  by (simp add: path_def)

lemma under_iff_path: "under p a \<longleftrightarrow> p = path a (length p)"
  by (auto simp: under_def path_def intro: nth_equalityI) (metis add_0 nth_map_upt diff_zero)

lemma under_path: "under (path a d) b \<longleftrightarrow> (\<forall>i<d. bit_at b i = bit_at a i)"
  by (auto simp: under_def path_def)

definition wrap :: "hash_fn \<Rightarrow> address \<Rightarrow> nat \<Rightarrow> nat \<Rightarrow> node \<Rightarrow> node" where
  "wrap H a d s t =
     foldl (\<lambda>node level. if bit_at a level = 0 then branch H node Empty else branch H Empty node)
       t (rev [d..<s])"

lemma wrap_same [simp]: "wrap H a s s t = t"
  by (simp add: wrap_def)

lemma wrap_step: "d < s \<Longrightarrow> wrap H a d s t =
    (if bit_at a d = 0 then branch H (wrap H a (Suc d) s t) Empty
     else branch H Empty (wrap H a (Suc d) s t))"
  by (simp add: wrap_def upt_conv_Cons)

lemma wrap_facts:
  assumes "d \<le> s"
  shows "leaves (wrap H a d s t) = leaves t"
    and "hashed H (wrap H a d s t) = hashed H t"
    and "2 \<le> length (leaves t) \<Longrightarrow> shaped (path a s) t \<Longrightarrow> shaped (path a d) (wrap H a d s t)"
proof -
  have "leaves (wrap H a d s t) = leaves t \<and> hashed H (wrap H a d s t) = hashed H t
    \<and> (2 \<le> length (leaves t) \<and> shaped (path a s) t \<longrightarrow> shaped (path a d) (wrap H a d s t))"
    using assms
  proof (induction rule: inc_induct)
    case (step n)
    show ?case
      using step.IH bit_at_less_2 [of a n]
      by (simp add: wrap_step [OF step.hyps(2)] path_Suc split: if_splits) auto
  qed simp
  then show "leaves (wrap H a d s t) = leaves t" "hashed H (wrap H a d s t) = hashed H t"
    "2 \<le> length (leaves t) \<Longrightarrow> shaped (path a s) t \<Longrightarrow> shaped (path a d) (wrap H a d s t)"
    by blast+
qed

lemma split_node_wrap:
  "split_node H d a b =
     (let s = common_prefix_len (fst a) (fst b);
          a_leaf = Leaf (fst a) (snd a);
          b_leaf = Leaf (fst b) (snd b)
      in wrap H (fst a) d s
           (if bit_at (fst a) s = 0 then branch H a_leaf b_leaf else branch H b_leaf a_leaf))"
  by (simp add: split_node_def wrap_def Let_def)

lemma split_node_facts:
  assumes ne: "a \<noteq> b" and a: "under p a" and b: "under p b"
  shows "wf_node H p (split_node H (length p) (a, x) (b, y))"
    and "accounts (split_node H (length p) (a, x) (b, y)) = [a \<mapsto> x, b \<mapsto> y]"
proof -
  define s where "s = common_prefix_len a b"
  define t where "t = (if bit_at a s = 0 then branch H (Leaf a x) (Leaf b y)
    else branch H (Leaf b y) (Leaf a x))"
  have le: "length p \<le> s" using two_under_length(1) [OF assms] by (simp add: s_def)
  have eq: "split_node H (length p) (a, x) (b, y) = wrap H a (length p) s t"
    by (simp add: split_node_wrap s_def t_def Let_def)
  have p: "p = path a (length p)" using a by (simp add: under_iff_path)
  have "shaped (path a s) t"
    using bit_at_common_prefix_len [OF ne] bit_at_less_2 [of b s] common_prefix_len_bit [of _ a b]
    by (auto simp: t_def s_def under_path)
  moreover have "2 \<le> length (leaves t)" and "hashed H t" by (simp_all add: t_def)
  ultimately show "wf_node H p (split_node H (length p) (a, x) (b, y))"
    using wrap_facts [OF le, where H = H and a = a and t = t] p by (simp add: wf_node_def eq)
  have "accounts t = [a \<mapsto> x, b \<mapsto> y]"
    using ne by (auto simp: t_def accounts_def)
  then show "accounts (split_node H (length p) (a, x) (b, y)) = [a \<mapsto> x, b \<mapsto> y]"
    using wrap_facts(1) [OF le, where H = H and a = a and t = t] by (simp add: eq accounts_def)
qed

lemma length_leaves: "shaped p t \<Longrightarrow> length (leaves t) = card (dom (accounts t))"
  using distinct_leaves [of p t]
  by (simp add: accounts_def dom_map_of_conv_image_fst distinct_card flip: set_map)

lemma node_insert_facts:
  "wf_node H p t \<Longrightarrow> under p a \<Longrightarrow>
     wf_node H p (node_insert H t (length p) a acc)
     \<and> accounts (node_insert H t (length p) a acc) = (accounts t)(a \<mapsto> acc)"
proof (induction t arbitrary: p)
  case Empty
  then show ?case by (simp add: wf_node_def)
next
  case (Leaf b acc')
  then show ?case
    using split_node_facts [of b a p H acc' acc] by (auto simp: wf_node_def)
next
  case (Branch h l r)
  let ?b = "bit_at a (length p)"
  have wf: "shaped p (Branch h l r)" "hashed H (Branch h l r)"
    and l: "wf_node H (p @ [0]) l" and r: "wf_node H (p @ [1]) r"
    using Branch.prems by (auto simp: wf_node_def)
  show ?case
  proof (cases "?b = 0")
    case True
    then have "under (p @ [0]) a" using Branch.prems by simp
    from Branch.IH(1) [OF l this]
    have IH: "wf_node H (p @ [0]) (node_insert H l (Suc (length p)) a acc)"
      "accounts (node_insert H l (Suc (length p)) a acc) = (accounts l)(a \<mapsto> acc)"
      unfolding length_append_singleton by blast+
    have "length (leaves l) \<le> length (leaves (node_insert H l (Suc (length p)) a acc))"
      using IH l length_leaves [of "p @ [0]"] by (auto simp: wf_node_def card_insert_le)
    then have wf': "wf_node H p (node_insert H (Branch h l r) (length p) a acc)"
      using True IH r wf by (auto simp: rehash_Branch wf_node_def)
    moreover have "accounts (node_insert H (Branch h l r) (length p) a acc) = (accounts (Branch h l r))(a \<mapsto> acc)"
      using True wf' wf IH
      by (auto simp: wf_node_def accounts_Branch_bit rehash_Branch branch_def fun_eq_iff)
    ultimately show ?thesis by blast
  next
    case False
    then have "under (p @ [1]) a" using Branch.prems by simp
    from Branch.IH(2) [OF r this]
    have IH: "wf_node H (p @ [1]) (node_insert H r (Suc (length p)) a acc)"
      "accounts (node_insert H r (Suc (length p)) a acc) = (accounts r)(a \<mapsto> acc)"
      unfolding length_append_singleton by blast+
    have "length (leaves r) \<le> length (leaves (node_insert H r (Suc (length p)) a acc))"
      using IH r length_leaves [of "p @ [1]"] by (auto simp: wf_node_def card_insert_le)
    then have wf': "wf_node H p (node_insert H (Branch h l r) (length p) a acc)"
      using False IH l wf by (auto simp: rehash_Branch wf_node_def)
    moreover have "accounts (node_insert H (Branch h l r) (length p) a acc) = (accounts (Branch h l r))(a \<mapsto> acc)"
      using False wf' wf IH
      by (auto simp: wf_node_def accounts_Branch_bit rehash_Branch branch_def fun_eq_iff)
    ultimately show ?thesis by blast
  qed
qed

text \<open>Removal: \<open>collapse\<close> keeps the leaves and restores the shape.\<close>

lemma few_leaves: "shaped p t \<Longrightarrow> length (leaves t) < 2 \<Longrightarrow> t = Empty \<or> (\<exists>a acc. t = Leaf a acc)"
  by (cases t) auto

lemma leaves_collapse [simp]: "leaves (collapse t) = leaves t"
  by (induction t rule: collapse.induct) simp_all

lemma collapse_wf:
  assumes "wf_node H (p @ [0]) l" and "wf_node H (p @ [1]) r"
  shows "wf_node H p (collapse (branch H l r))"
proof (cases "2 \<le> length (leaves l) + length (leaves r)")
  case True
  then have "collapse (branch H l r) = branch H l r"
    by (cases l; cases r) (simp_all add: branch_def)
  with True assms show ?thesis by (simp add: wf_node_def)
next
  case False
  then have "length (leaves l) < 2" and "length (leaves r) < 2" by simp_all
  with assms have "l = Empty \<or> (\<exists>a acc. l = Leaf a acc)" and "r = Empty \<or> (\<exists>a acc. r = Leaf a acc)"
    using few_leaves [of "p @ [0]" l] few_leaves [of "p @ [1]" r] by (simp_all add: wf_node_def)
  with False assms show ?thesis by (auto simp: wf_node_def branch_def)
qed

lemma node_remove_facts:
  "wf_node H p t \<Longrightarrow> under p a \<Longrightarrow>
     wf_node H p (node_remove H t (length p) a)
     \<and> accounts (node_remove H t (length p) a) = (accounts t)(a := None)"
proof (induction t arbitrary: p)
  case Empty
  then show ?case by (simp add: wf_node_def)
next
  case (Leaf b acc')
  then show ?case by (auto simp: wf_node_def)
next
  case (Branch h l r)
  have sh: "shaped p (Branch h l r)" and l: "wf_node H (p @ [0]) l" and r: "wf_node H (p @ [1]) r"
    using Branch.prems by (auto simp: wf_node_def)
  have acc: "accounts (collapse (branch H l' r')) = accounts r' ++ accounts l'" for l' r'
    by (simp add: accounts_def map_of_append)
  show ?case
  proof (cases "bit_at a (length p) = 0")
    case True
    then have "under (p @ [0]) a" using Branch.prems by simp
    from Branch.IH(1) [OF l this]
    have IH: "wf_node H (p @ [0]) (node_remove H l (Suc (length p)) a)"
      "accounts (node_remove H l (Suc (length p)) a) = (accounts l)(a := None)"
      unfolding length_append_singleton by blast+
    have "accounts r a = None"
      using r accounts_under [of "p @ [1]" r a] True by (cases "accounts r a") (auto simp: wf_node_def)
    then show ?thesis
      using True IH collapse_wf [OF IH(1) r]
      by (auto simp: rehash_Branch acc accounts_Branch map_add_def fun_eq_iff simp del: rehash.simps
          split: option.splits)
  next
    case False
    then have "under (p @ [1]) a" using Branch.prems by simp
    from Branch.IH(2) [OF r this]
    have IH: "wf_node H (p @ [1]) (node_remove H r (Suc (length p)) a)"
      "accounts (node_remove H r (Suc (length p)) a) = (accounts r)(a := None)"
      unfolding length_append_singleton by blast+
    have "accounts l a = None"
      using l accounts_under [of "p @ [0]" l a] False by (cases "accounts l a") (auto simp: wf_node_def)
    then show ?thesis
      using False IH collapse_wf [OF l IH(1)]
      by (auto simp: rehash_Branch acc accounts_Branch map_add_def fun_eq_iff simp del: rehash.simps
          split: option.splits)
  qed
qed

section \<open>Canonicity\<close>

text \<open>The shape, and with it the root, is determined by the contents alone.\<close>

lemma same_accounts_length:
  "wf_node H p t \<Longrightarrow> wf_node H p u \<Longrightarrow> accounts t = accounts u \<Longrightarrow>
     length (leaves u) = length (leaves t)"
  by (simp add: wf_node_def length_leaves [of p])

lemma wf_node_canonical:
  "wf_node H p t \<Longrightarrow> wf_node H p u \<Longrightarrow> accounts t = accounts u \<Longrightarrow> t = u"
proof (induction t arbitrary: p u)
  case Empty
  from same_accounts_length [OF this] have "length (leaves u) = 0" by simp
  with Empty.prems(2) show ?case by (cases u) (auto simp: wf_node_def)
next
  case (Leaf a acc)
  from same_accounts_length [OF this] have "length (leaves u) = 1" by simp
  then obtain b x where u: "u = Leaf b x"
    using Leaf.prems(2) few_leaves [of p u] by (auto simp: wf_node_def)
  have "[a \<mapsto> acc] b = Some x"
    using fun_cong [OF Leaf.prems(3), of b] u by simp
  with u show ?case by (simp split: if_splits)
next
  case (Branch h l r)
  have sh: "shaped p (Branch h l r)" and l: "wf_node H (p @ [0]) l" and r: "wf_node H (p @ [1]) r"
    using Branch.prems(1) by (auto simp: wf_node_def)
  have "length (leaves u) = length (leaves (Branch h l r))"
    by (rule same_accounts_length [OF Branch.prems])
  then have "2 \<le> length (leaves u)" using sh by simp
  then obtain h' l' r' where u: "u = Branch h' l' r'" by (cases u) auto
  have sh': "shaped p (Branch h' l' r')" and l': "wf_node H (p @ [0]) l'" and r': "wf_node H (p @ [1]) r'"
    using Branch.prems(2) u by (auto simp: wf_node_def)
  have "accounts l a = accounts l' a \<and> accounts r a = accounts r' a" for a
    using fun_cong [OF Branch.prems(3), of a] accounts_Branch_bit [OF sh, of a]
      accounts_Branch_bit [OF sh', of a] accounts_under [of "p @ [0]" l a]
      accounts_under [of "p @ [0]" l' a] accounts_under [of "p @ [1]" r a]
      accounts_under [of "p @ [1]" r' a] l l' r r'
    by (cases "accounts l a"; cases "accounts l' a"; cases "accounts r a"; cases "accounts r' a")
       (auto simp: u wf_node_def split: if_splits)
  then have "l = l'" and "r = r'"
    using Branch.IH(1) [OF l l'] Branch.IH(2) [OF r r'] by (auto simp: fun_eq_iff)
  moreover have "h = h'"
    using Branch.prems(1,2) u calculation by (simp add: wf_node_def)
  ultimately show ?case by (simp add: u)
qed

section \<open>The tree as the ledger uses it\<close>

definition tree_accounts :: "sparse_merkle_tree \<Rightarrow> address \<rightharpoonup> account" where
  "tree_accounts t = accounts (tree_root t)"

lemma wf_tree_new [simp, intro]: "wf_tree H tree_new"
  by (simp add: wf_tree_def tree_new_def wf_node_def)

lemma tree_accounts_new [simp]: "tree_accounts tree_new = Map.empty"
  by (simp add: tree_accounts_def tree_new_def)

lemma wf_tree_update [intro]: "wf_tree H t \<Longrightarrow> wf_tree H (update H t a x)"
  using node_insert_facts [of H "[]" "tree_root t" a] node_remove_facts [of H "[]" "tree_root t" a]
  by (auto simp: wf_tree_def update_def split: option.splits)

lemma tree_accounts_update [simp]: "wf_tree H t \<Longrightarrow> tree_accounts (update H t a x) = (tree_accounts t)(a := x)"
  using node_insert_facts [of H "[]" "tree_root t" a] node_remove_facts [of H "[]" "tree_root t" a]
  by (auto simp: wf_tree_def tree_accounts_def update_def split: option.splits)

lemma wf_tree_canonical:
  "wf_tree H t \<Longrightarrow> wf_tree H u \<Longrightarrow> tree_accounts t = tree_accounts u \<Longrightarrow> t = u"
  using wf_node_canonical [of H "[]" "tree_root t" "tree_root u"]
  by (cases t; cases u) (simp add: wf_tree_def tree_accounts_def)

end
