(* ===== verification/Merkle_Proofs.thy ===== *)
theory Merkle_Proofs
  imports Merkle_Tree
begin

text \<open>
  Proofs against roots. Completeness: the proof the tree gives for an address reproduces
  the root with the account held there, and the root after a write with the account
  written. Soundness: a proof that reproduces the root of a well-formed tree tells the
  truth about the address and about the root after a write, unless SHA-256 collides among
  the strings that were actually hashed.
\<close>

section \<open>Climbing from a slot to the root\<close>

fun climb :: "hash_fn \<Rightarrow> address \<Rightarrow> nat \<Rightarrow> bytes32 list \<Rightarrow> bytes32 \<Rightarrow> bytes32" where
  "climb H a d [] c = c"
| "climb H a d (s # ss) c =
     (if bit_at a d = 0 then node_hash H (climb H a (Suc d) ss c) s
      else node_hash H s (climb H a (Suc d) ss c))"

lemma climb_snoc:
  "climb H a d (ss @ [s]) c =
     climb H a d ss (if bit_at a (d + length ss) = 0 then node_hash H c s else node_hash H s c)"
  by (induction ss arbitrary: d) simp_all

lemma foldl_climb:
  "foldl (\<lambda>current level. if bit_at a level = 0 then node_hash H current (ss ! level)
           else node_hash H (ss ! level) current) c (rev [0..<length ss]) = climb H a 0 ss c"
proof (induction ss arbitrary: c rule: rev_induct)
  case (snoc s ss)
  have "foldl (\<lambda>current level. if bit_at a level = 0 then node_hash H current ((ss @ [s]) ! level)
           else node_hash H ((ss @ [s]) ! level) current) c' (rev [0..<length ss])
      = climb H a 0 ss c'" for c'
    unfolding snoc.IH [symmetric] by (rule foldl_cong) (auto simp: nth_append)
  then show ?case by (simp add: climb_snoc)
qed simp

lemma root_from_proof_climb:
  "root_from_proof H a x p =
     (if length (siblings p) > 256 then None
      else map_option (climb H a 0 (siblings p)) (slot_hash H a x (length (siblings p)) (slot p)))"
  by (auto simp: root_from_proof_def DEPTH_def Let_def foldl_climb split: bind_splits)

lemma prove_node_acc:
  "prove_node H t d a sibs = (sibs @ fst (prove_node H t d a []), snd (prove_node H t d a []))"
proof (induction t arbitrary: d sibs)
  case (Branch h l r)
  show ?case
    by (simp add: Branch.IH(1) [of "Suc d" "sibs @ _"] Branch.IH(1) [of "Suc d" "[_]"]
        Branch.IH(2) [of "Suc d" "sibs @ _"] Branch.IH(2) [of "Suc d" "[_]"])
qed simp_all

definition proof_path :: "hash_fn \<Rightarrow> node \<Rightarrow> nat \<Rightarrow> address \<Rightarrow> bytes32 list" where
  "proof_path H t d a = fst (prove_node H t d a [])"

definition proof_slot :: "hash_fn \<Rightarrow> node \<Rightarrow> nat \<Rightarrow> address \<Rightarrow> slot" where
  "proof_slot H t d a = snd (prove_node H t d a [])"

lemma proof_path_simps [simp]:
  "proof_path H Empty d a = []"
  "proof_path H (Leaf b x) d a = []"
  "proof_path H (Branch h l r) d a =
     (if bit_at a d = 0 then hash_of H r # proof_path H l (Suc d) a
      else hash_of H l # proof_path H r (Suc d) a)"
  using prove_node_acc [of H l "Suc d" a "[hash_of H r]"]
    prove_node_acc [of H r "Suc d" a "[hash_of H l]"]
  by (simp_all add: proof_path_def)

lemma proof_slot_simps [simp]:
  "proof_slot H Empty d a = Own"
  "proof_slot H (Leaf b x) d a = (if b = a then Own else Neighbor b x)"
  "proof_slot H (Branch h l r) d a =
     (if bit_at a d = 0 then proof_slot H l (Suc d) a else proof_slot H r (Suc d) a)"
  using prove_node_acc [of H l "Suc d" a "[hash_of H r]"]
    prove_node_acc [of H r "Suc d" a "[hash_of H l]"]
  by (simp_all add: proof_slot_def)

lemma tree_proof_parts [simp]:
  "siblings (tree_proof H t a) = proof_path H (tree_root t) 0 a"
  "slot (tree_proof H t a) = proof_slot H (tree_root t) 0 a"
  by (simp_all add: tree_proof_def proof_path_def proof_slot_def case_prod_beta)

section \<open>The pushed-down neighbor\<close>

lemma wrap_cong: "d \<le> s \<Longrightarrow> (\<And>i. i < s \<Longrightarrow> bit_at a i = bit_at b i) \<Longrightarrow> wrap H a d s t = wrap H b d s t"
  by (induction rule: inc_induct) (auto simp: wrap_step)

lemma hash_of_wrap:
  "d \<le> s \<Longrightarrow> hash_of H (wrap H a d s t) =
     foldl (\<lambda>current level. if bit_at a level = 0 then node_hash H current EMPTY_SUBTREE
              else node_hash H EMPTY_SUBTREE current) (hash_of H t) (rev [d..<s])"
proof (induction rule: inc_induct)
  case (step n)
  then show ?case by (simp add: wrap_step upt_conv_Cons)
qed simp

lemma subtree_with_both_split:
  assumes "a \<noteq> b" and "d \<le> common_prefix_len a b"
  shows "subtree_with_both H d (a, x) (b, y) = hash_of H (split_node H d (b, y) (a, x))"
proof -
  let ?s = "common_prefix_len a b"
  let ?t = "if bit_at a ?s = 0 then branch H (Leaf a x) (Leaf b y) else branch H (Leaf b y) (Leaf a x)"
  have bits: "bit_at a ?s = 0 \<longleftrightarrow> bit_at b ?s \<noteq> 0"
    using bit_at_common_prefix_len [OF assms(1)] bit_at_less_2 [of a ?s] bit_at_less_2 [of b ?s]
    by auto
  have "subtree_with_both H d (a, x) (b, y) = hash_of H (wrap H a d ?s ?t)"
    using assms(2) by (simp add: hash_of_wrap subtree_with_both_def Let_def)
  also have "wrap H a d ?s ?t = wrap H b d ?s ?t"
    using assms(2) by (rule wrap_cong) (rule common_prefix_len_bit)
  also have "\<dots> = split_node H d (b, y) (a, x)"
    using bits by (simp add: split_node_wrap common_prefix_len_sym [of b a] Let_def)
  finally show ?thesis .
qed

lemma check_neighbor_Some [simp]:
  "check_neighbor a b d = Some u \<longleftrightarrow> b \<noteq> a \<and> d \<le> common_prefix_len a b"
  by (simp add: check_neighbor_def)

section \<open>Completeness\<close>

lemma under_agree:
  assumes "under p a" and "under p b" and "a \<noteq> b"
  shows "length p \<le> common_prefix_len a b"
  by (rule two_under_length(1) [OF assms(3) assms(1,2)])

lemma prove_node_complete:
  assumes "wf_node H p t" and "under p a"
  shows "\<exists>c. slot_hash H a (accounts t a) (length p + length (proof_path H t (length p) a))
           (proof_slot H t (length p) a) = Some c
         \<and> climb H a (length p) (proof_path H t (length p) a) c = hash_of H t"
    and "\<exists>c. slot_hash H a (Some new) (length p + length (proof_path H t (length p) a))
           (proof_slot H t (length p) a) = Some c
         \<and> climb H a (length p) (proof_path H t (length p) a) c
             = hash_of H (node_insert H t (length p) a new)"
    and "length p \<le> 256 \<Longrightarrow> length p + length (proof_path H t (length p) a) \<le> 256"
  using assms
proof (induction t arbitrary: p)
  case Empty
  {
    case 1 show ?case by (simp add: slot_hash_def)
  next
    case 2 show ?case by (simp add: slot_hash_def)
  next
    case 3 then show ?case by simp
  }
next
  case (Leaf b y)
  {
    case 1 then show ?case
      using under_agree [of p a b] by (auto simp: slot_hash_def check_neighbor_def wf_node_def)
  next
    case 2 then show ?case
      using under_agree [of p a b] subtree_with_both_split [of a b "length p" H new y]
      by (auto simp: slot_hash_def check_neighbor_def wf_node_def)
  next
    case 3 then show ?case by simp
  }
next
  case (Branch h l r)
  {
    case 1
    then have h: "hash_of H (Branch h l r) = node_hash H (hash_of H l) (hash_of H r)"
      and sh: "shaped p (Branch h l r)"
      and wf: "wf_node H (p @ [0]) l" "wf_node H (p @ [1]) r" by (auto simp: wf_node_def)
    show ?case
      unfolding accounts_Branch_bit [OF sh] h
      using Branch.IH(1) [of "p @ [0]"] Branch.IH(4) [of "p @ [1]"] 1(2) wf by auto
  next
    case 2
    then have "wf_node H (p @ [0]) l" "wf_node H (p @ [1]) r" by (auto simp: wf_node_def)
    then show ?case
      using Branch.IH(2) [of "p @ [0]"] Branch.IH(5) [of "p @ [1]"] 2(2)
      by auto
  next
    case 3
    then have "wf_node H (p @ [0]) l" "wf_node H (p @ [1]) r" and "length p < 256"
      by (auto simp: wf_node_def intro: branch_depth_bound [of p h l r])
    then show ?case
      using Branch.IH(3) [of "p @ [0]"] Branch.IH(6) [of "p @ [1]"] 3(3)
      by auto
  }
qed

text \<open>An address the tree holds has its own leaf at the end of its path.\<close>

lemma proof_slot_held:
  "shaped p t \<Longrightarrow> accounts t a = Some x \<Longrightarrow> proof_slot H t (length p) a = Own"
proof (induction t arbitrary: p)
  case (Branch h l r)
  have "accounts (if bit_at a (length p) = 0 then l else r) a = Some x"
    using Branch.prems(2) accounts_Branch_bit [OF Branch.prems(1), of a] by (simp split: if_splits)
  moreover have "shaped (p @ [0]) l" "shaped (p @ [1]) r" using Branch.prems(1) by auto
  ultimately show ?case
    using Branch.IH(1) [of "p @ [0]"] Branch.IH(2) [of "p @ [1]"] by auto
qed (auto split: if_splits)

lemma tree_proof_complete:
  assumes "wf_tree H t"
  shows root_from_tree_proof: "root_from_proof H a (tree_accounts t a) (tree_proof H t a) = Some (root H t)"
    and root_after_write:
      "root_from_proof H a (Some new) (tree_proof H t a) = Some (root H (update H t a (Some new)))"
    and tree_proof_depth: "length (siblings (tree_proof H t a)) \<le> 256"
  using prove_node_complete [of H "[]" "tree_root t" a] assms
  by (auto simp: wf_tree_def root_from_proof_climb tree_accounts_def root_def update_def not_less)

text \<open>An account that is there gets an inclusion proof.\<close>

lemma tree_proof_own:
  assumes wf: "wf_tree H t" and held: "tree_accounts t a = Some acc"
  shows "slot (tree_proof H t a) = Own" and "from_parts (siblings (tree_proof H t a)) Own = tree_proof H t a"
proof -
  show own: "slot (tree_proof H t a) = Own"
    using wf held proof_slot_held [of "[]" "tree_root t" a acc H]
    by (simp add: wf_tree_def wf_node_def tree_accounts_def)
  then show "from_parts (siblings (tree_proof H t a)) Own = tree_proof H t a"
    by (simp add: from_parts_def del: tree_proof_parts)
qed

section \<open>Roots bind trees\<close>

text \<open>Every string hashed to compute the root of a tree, and to check one proof.\<close>

fun tree_preimages :: "hash_fn \<Rightarrow> node \<Rightarrow> byte list list" where
  "tree_preimages H Empty = []"
| "tree_preimages H (Leaf a x) = [leaf_preimage a x]"
| "tree_preimages H (Branch _ l r) =
     node_preimage (hash_of H l) (hash_of H r) # tree_preimages H l @ tree_preimages H r"

fun climb_preimages :: "hash_fn \<Rightarrow> address \<Rightarrow> nat \<Rightarrow> bytes32 list \<Rightarrow> bytes32 \<Rightarrow> byte list list" where
  "climb_preimages H a d [] c = []"
| "climb_preimages H a d (s # ss) c =
     (if bit_at a d = 0 then node_preimage (climb H a (Suc d) ss c) s
      else node_preimage s (climb H a (Suc d) ss c)) # climb_preimages H a (Suc d) ss c"

fun slot_preimages :: "hash_fn \<Rightarrow> address \<Rightarrow> account option \<Rightarrow> nat \<Rightarrow> slot \<Rightarrow> byte list list" where
  "slot_preimages H a None d Own = []"
| "slot_preimages H a (Some x) d Own = [leaf_preimage a x]"
| "slot_preimages H a None d (Neighbor b y) = [leaf_preimage b y]"
| "slot_preimages H a (Some x) d (Neighbor b y) =
     (if b = a then [] else tree_preimages H (split_node H d (b, y) (a, x)))"

definition proof_preimages ::
  "hash_fn \<Rightarrow> address \<Rightarrow> account option \<Rightarrow> merkle_proof \<Rightarrow> byte list list" where
  "proof_preimages H a x p =
     slot_preimages H a x (length (siblings p)) (slot p)
     @ (case slot_hash H a x (length (siblings p)) (slot p) of
          None \<Rightarrow> [] | Some c \<Rightarrow> climb_preimages H a 0 (siblings p) c)"

lemma leaf_preimage_inject [simp]: "leaf_preimage a x = leaf_preimage b y \<longleftrightarrow> a = b \<and> x = y"
  by (simp add: leaf_preimage_def)

lemma node_preimage_inject [simp]: "node_preimage a b = node_preimage c d \<longleftrightarrow> a = c \<and> b = d"
  by (simp add: node_preimage_def)

lemma leaf_node_preimage [simp]:
  "leaf_preimage a x \<noteq> node_preimage l r" "node_preimage l r \<noteq> leaf_preimage a x"
  by (simp_all add: leaf_preimage_def node_preimage_def ascii_def of_char_Char)

text \<open>
  Two trees with current hashes and the same root are the same tree, short of a collision.
\<close>

lemma hash_of_inject:
  "hashed H t \<Longrightarrow> hashed H u \<Longrightarrow> collision_free H (tree_preimages H t @ tree_preimages H u) \<Longrightarrow>
     hash_of H t = hash_of H u \<Longrightarrow> t = u"
proof (induction t arbitrary: u)
  case Empty
  then show ?case
    by (cases u) (auto simp: EMPTY_SUBTREE_def leaf_hash_def node_hash_def dest: collision_free_zero)
next
  case (Leaf a x)
  then show ?case
    by (cases u) (auto simp: EMPTY_SUBTREE_def leaf_hash_def node_hash_def
        dest: collision_free_zero collision_freeD)
next
  case (Branch h l r)
  show ?case
  proof (cases u)
    case Empty
    with Branch.prems show ?thesis
      by (auto simp: EMPTY_SUBTREE_def node_hash_def dest: collision_free_zero)
  next
    case (Leaf a x)
    with Branch.prems show ?thesis
      by (auto simp: leaf_hash_def node_hash_def dest: collision_freeD)
  next
    case u: (Branch h' l' r')
    with Branch.prems have "hash_of H l = hash_of H l'" and "hash_of H r = hash_of H r'"
      by (auto simp: node_hash_def dest: collision_freeD)
    moreover have "collision_free H (tree_preimages H l @ tree_preimages H l')"
      and "collision_free H (tree_preimages H r @ tree_preimages H r')"
      using Branch.prems(3) by (auto simp: u elim: collision_free_mono)
    ultimately have "l = l'" and "r = r'"
      using Branch.prems(1,2) by (auto simp: u intro!: Branch.IH)
    with Branch.prems(1,2) u show ?thesis by simp
  qed
qed

section \<open>Soundness\<close>

lemma slot_sound:
  assumes wf: "wf_node H p t" and a: "under p a" and p: "length p \<le> 256"
    and c: "slot_hash H a x (length p) s = Some (hash_of H t)"
    and cf: "collision_free H (tree_preimages H t @ slot_preimages H a x (length p) s)"
  shows "accounts t a = x
    \<and> slot_hash H a (Some new) (length p) s = Some (hash_of H (node_insert H t (length p) a new))"
proof (cases s)
  case Own
  define u where "u = (case x of None \<Rightarrow> Empty | Some x \<Rightarrow> Leaf a x)"
  have "hash_of H t = hash_of H u" and "hashed H u" and "tree_preimages H u = slot_preimages H a x (length p) s"
    using c Own by (auto simp: u_def slot_hash_def split: option.splits)
  with wf cf have "t = u" by (auto simp: wf_node_def intro: hash_of_inject)
  then show ?thesis by (auto simp: u_def Own slot_hash_def split: option.splits)
next
  case (Neighbor b y)
  have ne: "b \<noteq> a" and le: "length p \<le> common_prefix_len a b"
    using c Neighbor by (auto simp: slot_hash_def split: option.splits bind_splits)
  have b: "under p b"
    using a le common_prefix_len_bit [of _ a b] unfolding under_def by (metis less_le_trans)
  have both: "slot_hash H a (Some z) (length p) s = Some (hash_of H (split_node H (length p) (b, y) (a, z)))" for z
    using ne le subtree_with_both_split [of a b "length p" H z y]
    by (simp add: Neighbor slot_hash_def check_neighbor_def)
  show ?thesis
  proof (cases x)
    case None
    then have "hash_of H t = hash_of H (Leaf b y)"
      using c ne le by (simp add: Neighbor slot_hash_def check_neighbor_def)
    then have "t = Leaf b y"
      using wf cf None by (intro hash_of_inject [of H]) (simp_all add: wf_node_def Neighbor)
    with ne None both show ?thesis by simp
  next
    case (Some z)
    note sp = split_node_facts [OF ne b a, of H y]
    have "t = split_node H (length p) (b, y) (a, z)"
      using wf cf c both [of z] sp(1) [of z] ne
      by (intro hash_of_inject [of H]) (simp_all add: wf_node_def Neighbor Some)
    with sp have t: "accounts t = [b \<mapsto> y, a \<mapsto> z]" by simp
    have "node_insert H t (length p) a new = split_node H (length p) (b, y) (a, new)"
      using node_insert_facts [OF wf a, of new] sp [of new] t
      by (intro wf_node_canonical [of H p]) auto
    with t both Some show ?thesis by simp
  qed
qed

text \<open>Whoever climbs to the root of a branch has its two sides in hand.\<close>

lemma climb_to_branch:
  assumes wf: "wf_node H p t" and top: "climb H a (length p) (s # ss) c = hash_of H t"
    and cf: "collision_free H (tree_preimages H t @ climb_preimages H a (length p) (s # ss) c)"
  obtains h l r where "t = Branch h l r" and "wf_node H (p @ [0]) l" and "wf_node H (p @ [1]) r"
    and "if bit_at a (length p) = 0 then climb H a (Suc (length p)) ss c = hash_of H l \<and> s = hash_of H r
         else climb H a (Suc (length p)) ss c = hash_of H r \<and> s = hash_of H l"
proof -
  let ?rest = "climb H a (Suc (length p)) ss c"
  let ?string = "if bit_at a (length p) = 0 then node_preimage ?rest s else node_preimage s ?rest"
  have top: "H ?string = hash_of H t" using top by (simp add: node_hash_def split: if_splits)
  have "t \<noteq> Empty" using top collision_free_zero [OF cf] by (auto simp: EMPTY_SUBTREE_def)
  moreover have "t \<noteq> Leaf b y" for b y
  proof
    assume "t = Leaf b y"
    with top have "?string = leaf_preimage b y"
      by (intro collision_freeD [OF cf]) (auto simp: leaf_hash_def)
    then show False by (simp split: if_splits)
  qed
  ultimately obtain h l r where t: "t = Branch h l r" by (cases t) auto
  then have "?string = node_preimage (hash_of H l) (hash_of H r)"
    using top wf by (intro collision_freeD [OF cf]) (auto simp: node_hash_def wf_node_def)
  with that [OF t] wf show ?thesis by (auto simp: t wf_node_def split: if_splits)
qed

lemma climb_sound:
  assumes "wf_node H p t" and "under p a" and "length p + length ss \<le> 256"
    and "slot_hash H a x (length p + length ss) s = Some c"
    and "climb H a (length p) ss c = hash_of H t"
    and "collision_free H (tree_preimages H t @ slot_preimages H a x (length p + length ss) s
           @ climb_preimages H a (length p) ss c)"
  shows "accounts t a = x
    \<and> (\<exists>c'. slot_hash H a (Some new) (length p + length ss) s = Some c'
           \<and> climb H a (length p) ss c' = hash_of H (node_insert H t (length p) a new))"
  using assms
proof (induction ss arbitrary: p t)
  case Nil
  then show ?case using slot_sound [of H p t a x s new] by simp
next
  case (Cons s0 ss)
  let ?b = "bit_at a (length p)"
  have "collision_free H (tree_preimages H t @ climb_preimages H a (length p) (s0 # ss) c)"
    by (rule collision_free_mono [OF Cons.prems(6)]) auto
  from climb_to_branch [OF Cons.prems(1,5) this] obtain h l r where t: "t = Branch h l r"
    and wf: "wf_node H (p @ [0]) l" "wf_node H (p @ [1]) r"
    and sides: "if ?b = 0 then climb H a (Suc (length p)) ss c = hash_of H l \<and> s0 = hash_of H r
         else climb H a (Suc (length p)) ss c = hash_of H r \<and> s0 = hash_of H l" .
  have hash: "hash_of H t = node_hash H (hash_of H l) (hash_of H r)" and sh: "shaped p t"
    using Cons.prems(1) by (auto simp: t wf_node_def)
  have acc: "accounts t a = (if ?b = 0 then accounts l a else accounts r a)"
    unfolding t by (rule accounts_Branch_bit [OF sh [unfolded t]])
  show ?case
  proof (cases "?b = 0")
    case True
    have "collision_free H (tree_preimages H l @ slot_preimages H a x (length (p @ [0]) + length ss) s
           @ climb_preimages H a (length (p @ [0])) ss c)"
      using Cons.prems(6) True by (rule_tac collision_free_mono) (auto simp: t)
    with Cons.IH [of "p @ [0]" l] Cons.prems wf sides hash True acc show ?thesis
      by (auto simp: t)
  next
    case False
    have "collision_free H (tree_preimages H r @ slot_preimages H a x (length (p @ [1]) + length ss) s
           @ climb_preimages H a (length (p @ [1])) ss c)"
      using Cons.prems(6) False by (rule_tac collision_free_mono) (auto simp: t)
    with Cons.IH [of "p @ [1]" r] Cons.prems wf sides hash False acc show ?thesis
      by (auto simp: t)
  qed
qed

lemma root_from_proof_sound:
  assumes "wf_tree H t"
    and "collision_free H (tree_preimages H (tree_root t) @ proof_preimages H a x p)"
    and "root_from_proof H a x p = Some (root H t)"
  shows "tree_accounts t a = x"
    and "root_from_proof H a (Some new) p = Some (root H (update H t a (Some new)))"
proof -
  from assms(3) obtain c where len: "length (siblings p) \<le> 256"
    and c: "slot_hash H a x (length (siblings p)) (slot p) = Some c"
    and top: "climb H a 0 (siblings p) c = root H t"
    by (auto simp: root_from_proof_climb split: if_splits)
  have "accounts (tree_root t) a = x \<and> (\<exists>c'. slot_hash H a (Some new) (length (siblings p)) (slot p) = Some c'
      \<and> climb H a 0 (siblings p) c' = hash_of H (node_insert H (tree_root t) 0 a new))"
    using climb_sound [of H "[]" "tree_root t" a "siblings p" x "slot p" c new] assms(1,2) len c top
    by (simp add: wf_tree_def proof_preimages_def root_def)
  with len show "tree_accounts t a = x"
    and "root_from_proof H a (Some new) p = Some (root H (update H t a (Some new)))"
    by (auto simp: tree_accounts_def root_from_proof_climb root_def update_def)
qed

end
