(* ===== verification/State_Commitment.thy ===== *)
theory State_Commitment
  imports Merkle_Proofs
begin

text \<open>
  The interface between the replay and the tree: a state committed to by one word, written one
  slot at a time, with proofs that show a slot's value and the word after a write. \<open>Replay_Sound\<close>
  and \<open>Ledger\<close> use the tree only through the laws stated here, and the tree of \<open>Merkle\<close> is
  shown to keep them.
\<close>

section \<open>The interface\<close>

text \<open>
  \<open>implied a x p\<close> is the word \<open>p\<close> gives for a state that holds \<open>x\<close> at \<open>a\<close>. An event is one
  visit of a slot: the address, the value claimed for it, the proof, and what is written.
\<close>

locale state_commitment =
  fixes inv :: "'s \<Rightarrow> bool"
    and contents :: "'s \<Rightarrow> 'k \<Rightarrow> 'v option"
    and commit :: "'s \<Rightarrow> 'c"
    and put :: "'s \<Rightarrow> 'k \<Rightarrow> 'v \<Rightarrow> 's"
    and prove :: "'s \<Rightarrow> 'k \<Rightarrow> 'p"
    and implied :: "'k \<Rightarrow> 'v option \<Rightarrow> 'p \<Rightarrow> 'c option"
  assumes inv_put: "inv s \<Longrightarrow> inv (put s a v)"
    and contents_put: "inv s \<Longrightarrow> contents (put s a v) = (contents s)(a \<mapsto> v)"
    and implied_read: "inv s \<Longrightarrow> implied a (contents s a) (prove s a) = Some (commit s)"
    and implied_write: "inv s \<Longrightarrow> implied a (Some v) (prove s a) = Some (commit (put s a v))"
    and canonical: "inv s \<Longrightarrow> inv t \<Longrightarrow> contents s = contents t \<Longrightarrow> commit s = commit t"
begin

definition write_slot :: "'s \<Rightarrow> 'k \<Rightarrow> 'v option \<Rightarrow> 's" where
  "write_slot s a v = (case v of None \<Rightarrow> s | Some v \<Rightarrow> put s a v)"

definition write_map :: "('k \<Rightarrow> 'v option) \<Rightarrow> 'k \<Rightarrow> 'v option \<Rightarrow> 'k \<Rightarrow> 'v option" where
  "write_map m a v = (case v of None \<Rightarrow> m | Some v \<Rightarrow> m(a \<mapsto> v))"

fun run :: "'c \<Rightarrow> ('k \<times> 'v option \<times> 'p \<times> 'v option) list \<Rightarrow> 'c option" where
  "run c [] = Some c"
| "run c ((a, x, p, v) # es) =
     (if implied a x p = Some c
      then (case v of None \<Rightarrow> run c es | Some v \<Rightarrow> Option.bind (implied a (Some v) p) (\<lambda>c. run c es))
      else None)"

fun matches :: "('k \<Rightarrow> 'v option) \<Rightarrow> ('k \<times> 'v option \<times> 'p \<times> 'v option) list \<Rightarrow> bool" where
  "matches m [] = True"
| "matches m ((a, x, p, v) # es) = (m a = x \<and> matches (write_map m a v) es)"

fun apply_events :: "('k \<Rightarrow> 'v option) \<Rightarrow> ('k \<times> 'v option \<times> 'p \<times> 'v option) list \<Rightarrow> 'k \<Rightarrow> 'v option" where
  "apply_events m [] = m"
| "apply_events m ((a, x, p, v) # es) = apply_events (write_map m a v) es"

fun track :: "'s \<Rightarrow> ('k \<times> 'v option \<times> 'p \<times> 'v option) list \<Rightarrow> 's" where
  "track s [] = s"
| "track s ((a, x, p, v) # es) = track (write_slot s a v) es"

lemma write_facts:
  assumes "inv s"
  shows inv_write: "inv (write_slot s a v)"
    and contents_write: "contents (write_slot s a v) = write_map (contents s) a v"
  using assms by (simp_all add: write_slot_def write_map_def inv_put contents_put split: option.splits)

lemma run_append:
  "run c (es @ fs) = Option.bind (run c es) (\<lambda>c. run c fs)"
  by (induction c es rule: run.induct) (auto split: option.splits bind_splits)

lemma track_append [simp]: "track s (es @ fs) = track (track s es) fs"
  by (induction s es rule: track.induct) auto

lemma apply_events_append [simp]: "apply_events m (es @ fs) = apply_events (apply_events m es) fs"
  by (induction m es rule: apply_events.induct) auto

lemma matches_append [simp]: "matches m (es @ fs) \<longleftrightarrow> matches m es \<and> matches (apply_events m es) fs"
  by (induction m es rule: matches.induct) auto

lemma track_facts:
  assumes "inv s"
  shows inv_track: "inv (track s es)"
    and contents_track: "contents (track s es) = apply_events (contents s) es"
  using assms by (induction s es rule: track.induct) (simp_all add: write_facts)

text \<open>Events whose claims and proofs are read off the state itself are accepted.\<close>

fun honest :: "'s \<Rightarrow> ('k \<times> 'v option \<times> 'p \<times> 'v option) list \<Rightarrow> bool" where
  "honest s [] = True"
| "honest s ((a, x, p, v) # es) = (x = contents s a \<and> p = prove s a \<and> honest (write_slot s a v) es)"

lemma honest_append [simp]: "honest s (es @ fs) \<longleftrightarrow> honest s es \<and> honest (track s es) fs"
  by (induction s es rule: honest.induct) auto

lemma run_honest:
  "inv s \<Longrightarrow> honest s es \<Longrightarrow> run (commit s) es = Some (commit (track s es))"
  by (induction s es rule: honest.induct)
     (auto simp: implied_read implied_write inv_put write_slot_def split: option.splits)

lemma matches_honest: "inv s \<Longrightarrow> honest s es \<Longrightarrow> matches (contents s) es"
  by (induction s es rule: honest.induct) (auto simp: write_facts)

end

text \<open>
  The converse needs the events to be short of a collision, which \<open>safe\<close> stands for: then what
  a proof shows is what the state holds, and the word it gives for a write is the written state's.
\<close>

locale sound_commitment = state_commitment inv contents commit put prove implied
  for inv :: "'s \<Rightarrow> bool"
    and contents :: "'s \<Rightarrow> 'k \<Rightarrow> 'v option"
    and commit :: "'s \<Rightarrow> 'c"
    and put :: "'s \<Rightarrow> 'k \<Rightarrow> 'v \<Rightarrow> 's"
    and prove :: "'s \<Rightarrow> 'k \<Rightarrow> 'p"
    and implied :: "'k \<Rightarrow> 'v option \<Rightarrow> 'p \<Rightarrow> 'c option" +
  fixes safe :: "'s \<Rightarrow> 'k \<Rightarrow> 'v option \<Rightarrow> 'p \<Rightarrow> bool"
  assumes sound_read: "inv s \<Longrightarrow> safe s a x p \<Longrightarrow> implied a x p = Some (commit s) \<Longrightarrow> contents s a = x"
    and sound_write: "inv s \<Longrightarrow> safe s a x p \<Longrightarrow> implied a x p = Some (commit s) \<Longrightarrow>
      implied a (Some v) p = Some (commit (put s a v))"
begin

fun all_safe :: "'s \<Rightarrow> ('k \<times> 'v option \<times> 'p \<times> 'v option) list \<Rightarrow> bool" where
  "all_safe s [] = True"
| "all_safe s ((a, x, p, v) # es) = (safe s a x p \<and> all_safe (write_slot s a v) es)"

lemma all_safe_append [simp]: "all_safe s (es @ fs) \<longleftrightarrow> all_safe s es \<and> all_safe (track s es) fs"
  by (induction s es rule: all_safe.induct) auto

lemma run_sound:
  "inv s \<Longrightarrow> all_safe s es \<Longrightarrow> run (commit s) es = Some c \<Longrightarrow>
     matches (contents s) es \<and> c = commit (track s es)"
proof (induction s es rule: all_safe.induct)
  case (2 s a x p v es)
  then have read: "implied a x p = Some (commit s)" and safe: "safe s a x p"
    by (auto split: if_splits)
  have "run (commit (write_slot s a v)) es = Some c"
    using 2(4) read sound_write [OF 2(2) safe read]
    by (auto simp: write_slot_def split: option.splits)
  with 2 sound_read [OF 2(2) safe read] show ?case by (simp add: write_facts)
qed simp

end

section \<open>The Merkle tree keeps the interface\<close>

definition event_safe :: "hash_fn \<Rightarrow> sparse_merkle_tree \<Rightarrow> address \<Rightarrow> account option \<Rightarrow> merkle_proof \<Rightarrow> bool" where
  "event_safe H t a x p \<longleftrightarrow>
     collision_free H (tree_preimages H (tree_root t) @ proof_preimages H a x p)"

interpretation merkle: sound_commitment "wf_tree H" tree_accounts "root H"
  "\<lambda>t a v. update H t a (Some v)" "tree_proof H" "root_from_proof H" "event_safe H" for H
proof unfold_locales
  fix s t assume "wf_tree H s" "wf_tree H t" "tree_accounts s = tree_accounts t"
  then show "root H s = root H t" using wf_tree_canonical [of H s t] by simp
qed (auto simp: event_safe_def root_from_tree_proof root_after_write dest: root_from_proof_sound)

type_synonym slot_event = "address \<times> account option \<times> merkle_proof \<times> account option"

text \<open>Every string hashed while a list of events is checked, with the tree followed along.\<close>

fun event_preimages :: "hash_fn \<Rightarrow> sparse_merkle_tree \<Rightarrow> slot_event list \<Rightarrow> byte list list" where
  "event_preimages H t [] = []"
| "event_preimages H t ((a, x, p, v) # es) =
     tree_preimages H (tree_root t) @ proof_preimages H a x p
     @ event_preimages H (case v of None \<Rightarrow> t | Some v \<Rightarrow> update H t a (Some v)) es"

lemma all_safe_event_preimages:
  "collision_free H (event_preimages H t es) \<Longrightarrow> merkle.all_safe H t es"
proof (induction H t es rule: event_preimages.induct)
  case (2 H t a x p v es)
  have "event_safe H t a x p" unfolding event_safe_def
    by (rule collision_free_mono [OF "2.prems"]) auto
  moreover have "collision_free H
      (event_preimages H (case v of None \<Rightarrow> t | Some v \<Rightarrow> update H t a (Some v)) es)"
    by (rule collision_free_mono [OF "2.prems"]) auto
  then have "merkle.all_safe H (merkle.write_slot H t a v) es"
    unfolding merkle.write_slot_def by (rule "2.IH")
  ultimately show ?case by simp
qed simp

end
