(* ===== verification/Merkle_Bounds.thy ===== *)
theory Merkle_Bounds
  imports Merkle_Proofs
begin

text \<open>
  The walks of \<^verbatim>\<open>merkle.rs\<close> with the index check Rust performs written out: \<open>address[depth / 8]\<close>
  panics past the last byte, which is \<open>None\<close> here. \<open>Merkle\<close> leaves the check out; the lemmas show
  that it never fires on a tree the operations build, and on no proof at all when one is checked.
\<close>

section \<open>The checked walks\<close>

definition bit_at_checked :: "address \<Rightarrow> nat \<Rightarrow> nat option" where
  "bit_at_checked address depth = (if depth div 8 < 32 then Some (bit_at address depth) else None)"

text \<open>A loop whose body reads one bit of \<open>address\<close> per level.\<close>

primrec levels_checked :: "address \<Rightarrow> (nat \<Rightarrow> nat \<Rightarrow> 'a \<Rightarrow> 'a) \<Rightarrow> nat list \<Rightarrow> 'a \<Rightarrow> 'a option" where
  "levels_checked address step [] x = Some x"
| "levels_checked address step (level # levels) x =
     Option.bind (bit_at_checked address level) (\<lambda>b. levels_checked address step levels (step level b x))"

definition split_checked ::
  "hash_fn \<Rightarrow> nat \<Rightarrow> address \<times> account \<Rightarrow> address \<times> account \<Rightarrow> node option" where
  "split_checked H depth a b =
     (let split_depth = common_prefix_len (fst a) (fst b);
          a_leaf = Leaf (fst a) (snd a);
          b_leaf = Leaf (fst b) (snd b) in
      Option.bind (bit_at_checked (fst a) split_depth) (\<lambda>bit.
      levels_checked (fst a) (\<lambda>level bit node. if bit = 0 then branch H node Empty else branch H Empty node)
        (rev [depth..<split_depth])
        (if bit = 0 then branch H a_leaf b_leaf else branch H b_leaf a_leaf)))"

fun insert_checked :: "hash_fn \<Rightarrow> node \<Rightarrow> nat \<Rightarrow> address \<Rightarrow> account \<Rightarrow> node option" where
  "insert_checked H Empty depth address acc = Some (Leaf address acc)"
| "insert_checked H (Leaf held held_acc) depth address acc =
     (if held = address then Some (Leaf held acc)
      else split_checked H depth (held, held_acc) (address, acc))"
| "insert_checked H (Branch h left right) depth address acc =
     Option.bind (bit_at_checked address depth) (\<lambda>bit.
     Option.bind (insert_checked H (if bit = 0 then left else right) (depth + 1) address acc) (\<lambda>child.
     Some (rehash H (if bit = 0 then Branch h child right else Branch h left child))))"

fun remove_checked :: "hash_fn \<Rightarrow> node \<Rightarrow> nat \<Rightarrow> address \<Rightarrow> node option" where
  "remove_checked H Empty depth address = Some Empty"
| "remove_checked H (Leaf held acc) depth address = Some (if held = address then Empty else Leaf held acc)"
| "remove_checked H (Branch h left right) depth address =
     Option.bind (bit_at_checked address depth) (\<lambda>bit.
     Option.bind (remove_checked H (if bit = 0 then left else right) (depth + 1) address) (\<lambda>child.
     Some (collapse (rehash H (if bit = 0 then Branch h child right else Branch h left child)))))"

fun prove_checked ::
  "hash_fn \<Rightarrow> node \<Rightarrow> nat \<Rightarrow> address \<Rightarrow> bytes32 list \<Rightarrow> (bytes32 list \<times> slot) option" where
  "prove_checked H Empty depth address sibs = Some (sibs, Own)"
| "prove_checked H (Leaf held acc) depth address sibs =
     Some (sibs, if held = address then Own else Neighbor held acc)"
| "prove_checked H (Branch h left right) depth address sibs =
     Option.bind (bit_at_checked address depth) (\<lambda>taken.
     prove_checked H (if taken = 0 then left else right) (depth + 1) address
       (sibs @ [hash_of H (if taken = 0 then right else left)]))"

definition update_checked ::
  "hash_fn \<Rightarrow> sparse_merkle_tree \<Rightarrow> address \<Rightarrow> account option \<Rightarrow> sparse_merkle_tree option" where
  "update_checked H t address acc =
     map_option (\<lambda>n. t\<lparr>tree_root := n\<rparr>)
       (case acc of Some acc \<Rightarrow> insert_checked H (tree_root t) 0 address acc
        | None \<Rightarrow> remove_checked H (tree_root t) 0 address)"

definition proof_checked :: "hash_fn \<Rightarrow> sparse_merkle_tree \<Rightarrow> address \<Rightarrow> merkle_proof option" where
  "proof_checked H t address =
     map_option (\<lambda>(sibs, s). \<lparr>siblings = sibs, slot = s\<rparr>) (prove_checked H (tree_root t) 0 address [])"

definition subtree_with_both_checked ::
  "hash_fn \<Rightarrow> nat \<Rightarrow> address \<times> account \<Rightarrow> address \<times> account \<Rightarrow> bytes32 option" where
  "subtree_with_both_checked H depth new held =
     (let split_depth = common_prefix_len (fst new) (fst held);
          own = leaf_hash H (fst new) (snd new);
          other = leaf_hash H (fst held) (snd held) in
      Option.bind (bit_at_checked (fst new) split_depth) (\<lambda>bit.
      levels_checked (fst new)
        (\<lambda>level bit current. if bit = 0 then node_hash H current EMPTY_SUBTREE else node_hash H EMPTY_SUBTREE current)
        (rev [depth..<split_depth])
        (if bit = 0 then node_hash H own other else node_hash H other own)))"

text \<open>The outer option is the index check, the inner one the source's own.\<close>

definition slot_hash_checked ::
  "hash_fn \<Rightarrow> address \<Rightarrow> account option \<Rightarrow> nat \<Rightarrow> slot \<Rightarrow> bytes32 option option" where
  "slot_hash_checked H address acc depth s =
     (case (s, acc) of
        (Neighbor neighbor held, Some acc) \<Rightarrow>
          (case check_neighbor address neighbor depth of None \<Rightarrow> Some None
           | Some _ \<Rightarrow> map_option Some (subtree_with_both_checked H depth (address, acc) (neighbor, held)))
      | _ \<Rightarrow> Some (slot_hash H address acc depth s))"

definition root_from_proof_checked ::
  "hash_fn \<Rightarrow> address \<Rightarrow> account option \<Rightarrow> merkle_proof \<Rightarrow> bytes32 option option" where
  "root_from_proof_checked H address acc p =
     (let depth = length (siblings p) in
      if depth > DEPTH then Some None
      else Option.bind (slot_hash_checked H address acc depth (slot p)) (\<lambda>start.
        case start of None \<Rightarrow> Some None
        | Some current \<Rightarrow> map_option Some
            (levels_checked address
              (\<lambda>level bit current. if bit = 0 then node_hash H current (siblings p ! level)
                 else node_hash H (siblings p ! level) current)
              (rev [0..<depth]) current)))"

section \<open>No walk leaves the address\<close>

lemma bit_at_checked_Some [simp]: "depth < 256 \<Longrightarrow> bit_at_checked address depth = Some (bit_at address depth)"
  by (simp add: bit_at_checked_def div_less_iff_less_mult)

lemma levels_checked_foldl:
  "(\<And>level. level \<in> set levels \<Longrightarrow> level < 256) \<Longrightarrow>
     levels_checked address step levels x = Some (foldl (\<lambda>x level. step level (bit_at address level) x) x levels)"
  by (induction levels arbitrary: x) simp_all

lemma levels_checked_down:
  "s \<le> 256 \<Longrightarrow> levels_checked address step (rev [d..<s]) x
     = Some (foldl (\<lambda>x level. step level (bit_at address level) x) x (rev [d..<s]))"
  by (rule levels_checked_foldl) simp

lemma split_checked_eq:
  assumes "fst a \<noteq> fst b"
  shows "split_checked H depth a b = Some (split_node H depth a b)"
  using common_prefix_len_less [OF assms]
  by (simp add: split_checked_def split_node_def Let_def levels_checked_down less_imp_le)

lemma insert_checked_eq:
  "shaped p t \<Longrightarrow> insert_checked H t (length p) a acc = Some (node_insert H t (length p) a acc)"
proof (induction t arbitrary: p)
  case (Branch h l r)
  from Branch.prems Branch.IH(1) [of "p @ [0]"] Branch.IH(2) [of "p @ [1]"] show ?case
    by (simp add: branch_depth_bound [OF Branch.prems])
qed (simp_all add: split_checked_eq)

lemma remove_checked_eq:
  "shaped p t \<Longrightarrow> remove_checked H t (length p) a = Some (node_remove H t (length p) a)"
proof (induction t arbitrary: p)
  case (Branch h l r)
  from Branch.prems Branch.IH(1) [of "p @ [0]"] Branch.IH(2) [of "p @ [1]"] show ?case
    by (simp add: branch_depth_bound [OF Branch.prems])
qed simp_all

lemma prove_checked_eq:
  "shaped p t \<Longrightarrow> prove_checked H t (length p) a sibs = Some (prove_node H t (length p) a sibs)"
proof (induction t arbitrary: p sibs)
  case (Branch h l r)
  from Branch.prems Branch.IH(1) [of "p @ [0]"] Branch.IH(2) [of "p @ [1]"] show ?case
    by (simp add: branch_depth_bound [OF Branch.prems])
qed simp_all

lemma slot_hash_checked_eq: "slot_hash_checked H a acc depth s = Some (slot_hash H a acc depth s)"
proof -
  have "subtree_with_both_checked H depth (a, x) (b, y) = Some (subtree_with_both H depth (a, x) (b, y))"
    if "a \<noteq> b" for b x y
    using common_prefix_len_less [OF that]
    by (simp add: subtree_with_both_checked_def subtree_with_both_def Let_def levels_checked_down less_imp_le)
  then show ?thesis
    by (auto simp: slot_hash_checked_def slot_hash_def check_neighbor_def split: slot.splits option.splits)
qed

lemma root_from_proof_checked_eq: "root_from_proof_checked H a acc p = Some (root_from_proof H a acc p)"
  by (cases "slot_hash H a acc (length (siblings p)) (slot p)")
     (simp_all add: root_from_proof_checked_def root_from_proof_def slot_hash_checked_eq
        levels_checked_down DEPTH_def Let_def)

lemma update_checked_eq: "wf_tree H t \<Longrightarrow> update_checked H t a x = Some (update H t a x)"
  using insert_checked_eq [of "[]" "tree_root t"] remove_checked_eq [of "[]" "tree_root t"]
  by (auto simp: update_checked_def update_def wf_tree_def wf_node_def split: option.splits)

lemma proof_checked_eq: "wf_tree H t \<Longrightarrow> proof_checked H t a = Some (tree_proof H t a)"
  using prove_checked_eq [of "[]" "tree_root t"]
  by (simp add: proof_checked_def tree_proof_def wf_tree_def wf_node_def split: prod.splits)

end
