(* ===== verification/Merkle_Properties.thy ===== *)
theory Merkle_Properties
  imports Toy State_Commitment Merkle_Bounds
begin

text \<open>
  What the sparse Merkle tree promises the rest of the program, stated over the operations of
  \<^verbatim>\<open>merkle.rs\<close>, each with a worked instance.
\<close>

section \<open>Examples\<close>

definition ex_acc1 :: account where "ex_acc1 = account_new 1 500 (addr 0)"
definition ex_acc2 :: account where "ex_acc2 = account_new 0 90 (addr 200)"

definition ex_tree :: sparse_merkle_tree where
  "ex_tree = update toy_hash (update toy_hash tree_new (addr 0) (Some ex_acc1)) (addr 200) (Some ex_acc2)"

lemma wf_ex_tree: "wf_tree toy_hash ex_tree"
  by (simp add: ex_tree_def wf_tree_update)

lemma addr_distinct: "addr 0 \<noteq> addr 200" "addr 0 \<noteq> addr 100" "addr 100 \<noteq> addr 200"
  by code_simp+

lemma ex_tree_accounts: "tree_accounts ex_tree = [addr 0 \<mapsto> ex_acc1, addr 200 \<mapsto> ex_acc2]"
  by (simp add: ex_tree_def wf_tree_update)

section \<open>Properties\<close>

text \<open>A write puts the account at its address, a removal clears it, no other address is
  touched, and the tree stays well-formed: every cached hash current, no branch over fewer than
  two accounts, every account on its own path.\<close>

theorem update_contents:
  assumes "wf_tree H t"
  shows "wf_tree H (update H t a x) \<and> tree_accounts (update H t a x) = (tree_accounts t)(a := x)"
  using assms by (simp add: wf_tree_update)

lemma update_contents_witness:
  "wf_tree toy_hash (update toy_hash ex_tree (addr 0) None)
     \<and> tree_accounts (update toy_hash ex_tree (addr 0) None) = (tree_accounts ex_tree)(addr 0 := None)"
  by (rule update_contents [OF wf_ex_tree])

text \<open>C20: The tree is a function of the accounts it holds: two histories of writes and removals,
  in any order and with any detours, that leave the same accounts leave the same tree, and so the
  same root.\<close>

theorem update_order_independent:
  assumes "foldl (\<lambda>m (a, x). m(a := x)) Map.empty us = foldl (\<lambda>m (a, x). m(a := x)) Map.empty vs"
  shows "foldl (\<lambda>t (a, x). update H t a x) tree_new us = foldl (\<lambda>t (a, x). update H t a x) tree_new vs"
proof -
  have run: "wf_tree H (foldl (\<lambda>t (a, x). update H t a x) t ws)
      \<and> tree_accounts (foldl (\<lambda>t (a, x). update H t a x) t ws)
        = foldl (\<lambda>m (a, x). m(a := x)) (tree_accounts t) ws" if "wf_tree H t" for t ws
    using that by (induction ws arbitrary: t) (simp_all add: wf_tree_update split: prod.split)
  from run [of tree_new us] run [of tree_new vs] assms show ?thesis
    by (intro wf_tree_canonical [of H]) simp_all
qed

lemma update_order_independent_witness:
  "foldl (\<lambda>t (a, x). update toy_hash t a x) tree_new
      [(addr 0, Some ex_acc1), (addr 100, Some ex_acc1), (addr 200, Some ex_acc2), (addr 100, None)]
    = foldl (\<lambda>t (a, x). update toy_hash t a x) tree_new
      [(addr 200, Some ex_acc2), (addr 0, Some ex_acc1)]"
  by (rule update_order_independent)
     (use addr_distinct in \<open>auto simp: fun_eq_iff fun_upd_def\<close>)

text \<open>C27: Completeness of proofs: the proof the tree hands out for any address, present or
  absent, verifies against the root for what the tree holds there, gives the root of the tree
  after a write of that slot, and is at most 256 siblings deep.\<close>

theorem proof_complete:
  assumes "wf_tree H t"
  shows "verify_proof H (root H t) a (tree_accounts t a) (tree_proof H t a)
    \<and> root_from_proof H a (Some new) (tree_proof H t a) = Some (root H (update H t a (Some new)))
    \<and> proof_depth (tree_proof H t a) \<le> DEPTH"
  using root_from_tree_proof [OF assms, of a] root_after_write [OF assms, of a new] tree_proof_depth [OF assms, of a]
  by (simp add: verify_proof_def proof_depth_def DEPTH_def)

lemma proof_complete_witness:
  "verify_proof toy_hash (root toy_hash ex_tree) (addr 100) None (tree_proof toy_hash ex_tree (addr 100))
    \<and> root_from_proof toy_hash (addr 100) (Some ex_acc2) (tree_proof toy_hash ex_tree (addr 100))
        = Some (root toy_hash (update toy_hash ex_tree (addr 100) (Some ex_acc2)))
    \<and> proof_depth (tree_proof toy_hash ex_tree (addr 100)) \<le> DEPTH"
  using proof_complete [OF wf_ex_tree, of "addr 100" ex_acc2] addr_distinct ex_tree_accounts by simp

text \<open>C12: Soundness of proofs, inclusion and non-inclusion alike: short of a collision among the
  strings the tree and the check hash, a proof that verifies against a tree's root shows exactly
  what the tree holds at the address, whoever made the proof, and the root it gives for a write is
  the root of the tree after that write.\<close>

theorem proof_sound:
  assumes "wf_tree H t"
    and "collision_free H (tree_preimages H (tree_root t) @ proof_preimages H a x p)"
    and "verify_proof H (root H t) a x p"
  shows "tree_accounts t a = x
    \<and> root_from_proof H a (Some new) p = Some (root H (update H t a (Some new)))"
  using root_from_proof_sound [OF assms(1,2)] assms(3) by (simp add: verify_proof_def)

lemma proof_sound_witness:
  "tree_accounts ex_tree (addr 100) = None
    \<and> root_from_proof toy_hash (addr 100) (Some ex_acc2) (tree_proof toy_hash ex_tree (addr 100))
        = Some (root toy_hash (update toy_hash ex_tree (addr 100) (Some ex_acc2)))"
proof (rule proof_sound [OF wf_ex_tree])
  show "collision_free toy_hash (tree_preimages toy_hash (tree_root ex_tree)
      @ proof_preimages toy_hash (addr 100) None (tree_proof toy_hash ex_tree (addr 100)))"
    by code_simp
  show "verify_proof toy_hash (root toy_hash ex_tree) (addr 100) None (tree_proof toy_hash ex_tree (addr 100))"
    by code_simp
qed

text \<open>C29: A root commits to the whole account map: two well-formed trees with the same root hold
  the same accounts, short of a collision between the strings hashed in the two.\<close>

theorem root_binds_accounts:
  assumes "wf_tree H t" and "wf_tree H u"
    and "collision_free H (tree_preimages H (tree_root t) @ tree_preimages H (tree_root u))"
    and "root H t = root H u"
  shows "tree_accounts t = tree_accounts u"
  using hash_of_inject [of H "tree_root t" "tree_root u"] assms
  by (simp add: wf_tree_def wf_node_def root_def tree_accounts_def)

lemma root_binds_accounts_witness:
  "tree_accounts ex_tree = tree_accounts (update toy_hash ex_tree (addr 0) (Some ex_acc1))"
proof (rule root_binds_accounts)
  show "wf_tree toy_hash ex_tree" "wf_tree toy_hash (update toy_hash ex_tree (addr 0) (Some ex_acc1))"
    using wf_ex_tree by (auto intro: wf_tree_update)
  show "collision_free toy_hash (tree_preimages toy_hash (tree_root ex_tree)
      @ tree_preimages toy_hash (tree_root (update toy_hash ex_tree (addr 0) (Some ex_acc1))))"
    by code_simp
  show "root toy_hash ex_tree = root toy_hash (update toy_hash ex_tree (addr 0) (Some ex_acc1))"
    by code_simp
qed

text \<open>C37: No walk reads past an address: with the index check of \<open>address[depth / 8]\<close> in place, every
  write, removal and proof on a tree the operations build returns, and returns what the unchecked
  walk does; and hashing up a proof returns for every proof whatsoever, so no witness in a sidecar
  can make the guest panic there.\<close>

theorem tree_walks_stay_in_range:
  "root_from_proof_checked H a acc p = Some (root_from_proof H a acc p)
   \<and> (wf_tree H t \<longrightarrow> update_checked H t a acc = Some (update H t a acc)
       \<and> proof_checked H t a = Some (tree_proof H t a))"
  by (simp add: root_from_proof_checked_eq update_checked_eq proof_checked_eq)

lemma tree_walks_stay_in_range_witness:
  "update_checked toy_hash ex_tree (addr 0) None = Some (update toy_hash ex_tree (addr 0) None)
   \<and> proof_checked toy_hash ex_tree (addr 100) = Some (tree_proof toy_hash ex_tree (addr 100))"
  using tree_walks_stay_in_range [of _ _ _ _ ex_tree] wf_ex_tree by blast

end
