(* ===== verification/Codec.thy ===== *)
theory Codec
  imports Accounts
begin

text \<open>
  The readers and writers of \<^verbatim>\<open>crates/payment-rollup/src/codec.rs\<close>: the cursor, varints,
  counted byte strings and the error type. A reader takes the bytes that are left and returns a
  value with the bytes left after it. \<open>usize\<close> is 64 bits wide, as on the host and on the
  riscv64 guest.
\<close>

section \<open>Errors and the cursor\<close>

datatype decode_error =
    UnsupportedVersion byte
  | UnexpectedEnd
  | TrailingBytes
  | MalformedVarint
  | ImplausibleLength
  | UnknownTransactionKind byte
  | UnknownScheme "byte list"
  | UnknownSlotKind byte
  | UnknownPresenceTag byte
  | UnknownAddressRef u64
  | ProofTooDeep nat
  | DecodeLengthMismatch nat nat

type_synonym 'a reader = "byte list \<Rightarrow> decode_error + 'a \<times> byte list"

text \<open>Reading \<open>r\<close> and going on with its value, \<open>?\<close> on a failure.\<close>

definition read_then :: "'a reader \<Rightarrow> ('a \<Rightarrow> 'b reader) \<Rightarrow> 'b reader" where
  "read_then r f bs = and_then (r bs) (\<lambda>(x, rest). f x rest)"

definition read_return :: "'a \<Rightarrow> 'a reader" where
  "read_return x bs = Inr (x, bs)"

definition read_fail :: "decode_error \<Rightarrow> 'a reader" where
  "read_fail e bs = Inl e"

definition reader_take :: "nat \<Rightarrow> byte list reader" where
  "reader_take len bs = (if length bs < len then Inl UnexpectedEnd else Inr (take len bs, drop len bs))"

definition reader_byte :: "byte reader" where
  "reader_byte = read_then (reader_take 1) (\<lambda>b. read_return (b ! 0))"

definition reader_array32 :: "bytes32 reader" where
  "reader_array32 = read_then (reader_take 32) (\<lambda>b. read_return (b32 b))"

text \<open>The loop of \<open>Reader::varint\<close>, from the \<open>value\<close> and \<open>shift\<close> accumulated so far.\<close>

fun varint_loop :: "u64 \<Rightarrow> nat \<Rightarrow> u64 reader" where
  "varint_loop value shift [] = Inl UnexpectedEnd"
| "varint_loop value shift (b # bs) =
     (let payload = ucast (b AND 0x7f) in
      if shift \<ge> 64 \<or> payload > drop_bit shift (- 1) then Inl MalformedVarint
      else
        let value = value OR push_bit shift payload in
        if b AND 0x80 = 0 then Inr (value, bs) else varint_loop value (shift + 7) bs)"

definition reader_varint :: "u64 reader" where
  "reader_varint = varint_loop 0 0"

definition expect_version :: "byte \<Rightarrow> unit reader" where
  "expect_version expected =
     read_then reader_byte (\<lambda>version.
       if version = expected then read_return () else read_fail (UnsupportedVersion version))"

definition usize_checked_mul :: "nat \<Rightarrow> nat \<Rightarrow> nat option" where
  "usize_checked_mul a b = (if int a * int b < 2 ^ 64 then Some (a * b) else None)"

lemma usize_checked_mul_nat: "usize_checked_mul a b = (if a * b < 2 ^ 64 then Some (a * b) else None)"
proof -
  have "int a * int b < 2 ^ 64 \<longleftrightarrow> int (a * b) < int (2 ^ 64)" by simp
  then have "int a * int b < 2 ^ 64 \<longleftrightarrow> a * b < 2 ^ 64" by (simp only: of_nat_less_iff)
  then show ?thesis by (simp add: usize_checked_mul_def)
qed

definition reader_count :: "nat \<Rightarrow> nat reader" where
  "reader_count stride =
     read_then reader_varint (\<lambda>v rest.
       let count = unat v in
       if (case usize_checked_mul count stride of None \<Rightarrow> True | Some needed \<Rightarrow> needed > length rest)
       then Inl ImplausibleLength else Inr (count, rest))"

definition reader_bytes :: "byte list reader" where
  "reader_bytes = read_then (reader_count 1) reader_take"

definition reader_account :: "account reader" where
  "reader_account = read_then (reader_take ENCODED_ACCOUNT_SIZE) (\<lambda>b. read_return (decode_account b))"

definition reader_finish :: "byte list \<Rightarrow> decode_error + unit" where
  "reader_finish bs = (if bs = [] then Inr () else Inl TrailingBytes)"

text \<open>A \<open>for _ in 0..n\<close> loop that reads and pushes.\<close>

primrec read_times :: "nat \<Rightarrow> 'a reader \<Rightarrow> 'a list reader" where
  "read_times 0 r = read_return []"
| "read_times (Suc n) r = read_then r (\<lambda>x. read_then (read_times n r) (\<lambda>xs. read_return (x # xs)))"

section \<open>Writers\<close>

lemma unat_drop_bit_7: "unat (drop_bit 7 (x :: u64)) = unat x div 128"
  by (simp only: unat_drop_bit_eq) (simp add: drop_bit_eq_div)

function put_varint :: "u64 \<Rightarrow> byte list" where
  "put_varint value =
     (let b = ucast (value AND 0x7f); value' = drop_bit 7 value in
      if value' = 0 then [b] else (b OR 0x80) # put_varint value')"
  by pat_completeness auto

termination
  by (relation "measure unat") (auto simp: unat_drop_bit_7 unat_eq_0 [symmetric] simp del: unat_eq_0)

declare put_varint.simps [simp del]

definition put_bytes :: "byte list \<Rightarrow> byte list" where
  "put_bytes bs = put_varint (of_nat (length bs)) @ bs"

section \<open>Varints\<close>

lemma read_then_Inr_iff [result_simps]:
  "read_then r f bs = Inr y \<longleftrightarrow> (\<exists>x rest. r bs = Inr (x, rest) \<and> f x rest = Inr y)"
  by (auto simp: read_then_def and_then_Inr_iff)

lemma read_then_Inr [simp]: "r bs = Inr (x, rest) \<Longrightarrow> read_then r f bs = f x rest"
  by (simp add: read_then_def)

lemma read_return_simp [simp]: "read_return x bs = Inr (x, bs)"
  by (simp add: read_return_def)

lemma read_fail_simp [simp]: "read_fail e bs = Inl e"
  by (simp add: read_fail_def)

text \<open>The simplifier reads the bits of a word literal off the integer literal.\<close>

lemma bit_7f: "bit (0x7f :: int) n \<longleftrightarrow> n < 7"
proof -
  have m: "(0x7f :: int) = mask 7" by (simp add: mask_eq_exp_minus_1)
  show ?thesis unfolding m by (simp add: bit_mask_iff)
qed

lemma bit_80: "bit (0x80 :: int) n \<longleftrightarrow> n = 7"
proof -
  have e: "(0x80 :: int) = 2 ^ 7" by simp
  show ?thesis unfolding e bit_exp_iff by auto
qed

lemma varint_byte_facts:
  fixes x :: u64
  shows "(ucast (((ucast (x AND 0x7f) :: byte) OR 0x80) AND 0x7f) :: u64) = x AND 0x7f"
    and "(ucast ((ucast (x AND 0x7f) :: byte) AND 0x7f) :: u64) = x AND 0x7f"
    and "((ucast (x AND 0x7f) :: byte) OR 0x80) AND 0x80 \<noteq> 0"
    and "(ucast (x AND 0x7f) :: byte) AND 0x80 = 0"
proof -
  show "(ucast (((ucast (x AND 0x7f) :: byte) OR 0x80) AND 0x7f) :: u64) = x AND 0x7f"
    and "(ucast ((ucast (x AND 0x7f) :: byte) AND 0x7f) :: u64) = x AND 0x7f"
    and "(ucast (x AND 0x7f) :: byte) AND 0x80 = 0"
    by (rule bit_word_eqI; auto simp: bit_unsigned_iff bit_and_iff bit_or_iff bit_7f bit_80)+
  have "bit (((ucast (x AND 0x7f) :: byte) OR 0x80) AND 0x80) 7"
    by (simp add: bit_and_iff bit_or_iff bit_80)
  then show "((ucast (x AND 0x7f) :: byte) OR 0x80) AND 0x80 \<noteq> 0" by (metis bit_0_eq bot_apply bot_bool_def)
qed

lemma low_high_split:
  fixes x :: u64
  shows "push_bit s (x AND 0x7f) OR push_bit (s + 7) (drop_bit 7 x) = push_bit s x"
proof (rule bit_word_eqI)
  fix n assume n: "n < LENGTH(64)"
  show "bit (push_bit s (x AND 0x7f) OR push_bit (s + 7) (drop_bit 7 x)) n = bit (push_bit s x) n"
  proof (cases "s + 7 \<le> n")
    case True
    then have "7 + (n - (s + 7)) = n - s" by simp
    with True n show ?thesis
      by (auto simp: bit_or_iff bit_push_bit_iff bit_and_iff bit_drop_bit_eq bit_7f)
  next
    case False
    then have "s \<le> n \<Longrightarrow> n - s < 7" and "s \<le> n \<Longrightarrow> n - s < 64" by simp_all
    with False n show ?thesis
      by (auto simp: bit_or_iff bit_push_bit_iff bit_and_iff bit_7f)
  qed
qed

lemma payload_fits:
  fixes x :: u64
  assumes "s < 64" and "unat x < 2 ^ (64 - s)"
  shows "\<not> (x AND 0x7f) > drop_bit s (- 1)"
proof -
  have "unat (drop_bit s (- 1 :: u64)) = 2 ^ (64 - s) - 1"
    by (simp only: unat_drop_bit_eq unsigned_minus_1_eq_mask drop_bit_mask_eq) (simp add: mask_eq_exp_minus_1)
  moreover have "unat (x AND 0x7f) \<le> unat x"
    by (simp add: word_and_le2 word_le_nat_alt [symmetric])
  ultimately show ?thesis using assms(2) by (simp add: word_less_nat_alt)
qed

lemma varint_loop_put:
  "s < 64 \<Longrightarrow> unat x < 2 ^ (64 - s) \<Longrightarrow>
     varint_loop v s (put_varint x @ rest) = Inr (v OR push_bit s x, rest)"
proof (induction x arbitrary: v s rule: put_varint.induct)
  case (1 x)
  note fits = payload_fits [OF "1.prems"]
  show ?case
  proof (cases "drop_bit 7 x = 0")
    case True
    then have "push_bit s (x AND 0x7f) = push_bit s x"
      using low_high_split [of s x] by simp
    with True fits "1.prems" show ?thesis
      by (simp add: put_varint.simps [of x] varint_byte_facts Let_def not_less)
  next
    case False
    then have "128 \<le> unat x"
      using unat_drop_bit_7 [of x] by (metis div_less not_le unat_eq_0)
    with "1.prems"(2) have "(2::nat) ^ 7 < 2 ^ (64 - s)" by simp
    then have "7 < 64 - s" by (rule power_less_imp_less_exp [rotated]) simp
    then have s: "s + 7 < 64" and exp: "64 - s = 7 + (64 - (s + 7))" by simp_all
    have "unat (drop_bit 7 x) < 2 ^ (64 - (s + 7))"
      using "1.prems"(2) unfolding exp power_add
      by (simp add: unat_drop_bit_7 less_mult_imp_div_less mult.commute)
    with 1(1) [OF refl refl False s] False fits "1.prems" low_high_split [of s x] show ?thesis
      by (simp add: put_varint.simps [of x] varint_byte_facts Let_def not_less or.assoc)
  qed
qed

lemma reader_varint_put [simp]: "reader_varint (put_varint x @ rest) = Inr (x, rest)"
  using varint_loop_put [of 0 x 0 rest] by (simp add: reader_varint_def)

lemma put_varint_small: "unat x < 128 \<Longrightarrow> put_varint x = [ucast x]"
proof -
  assume small: "unat x < 128"
  then have "drop_bit 7 x = 0" using unat_drop_bit_7 [of x] by (simp add: unat_eq_0 [symmetric])
  moreover have "x AND 0x7f = x"
  proof (rule bit_word_eqI)
    fix n assume n: "n < LENGTH(64)"
    have "\<not> bit x n" if "7 \<le> n"
    proof
      assume "bit x n"
      then have "bit (drop_bit 7 x) (n - 7)" using that by (simp add: bit_drop_bit_eq)
      with \<open>drop_bit 7 x = 0\<close> show False by simp
    qed
    with n show "bit (x AND 0x7f) n = bit x n" by (cases "n < 7") (auto simp: bit_and_iff bit_7f)
  qed
  ultimately show ?thesis by (simp add: put_varint.simps [of x])
qed

lemma length_put_varint_bounds:
  "0 < length (put_varint x)" "unat x < 2 ^ (7 * Suc k) \<Longrightarrow> length (put_varint x) \<le> Suc k"
proof (induction x arbitrary: k rule: put_varint.induct)
  case (1 x)
  { case 1 show ?case by (simp add: put_varint.simps [of x] Let_def) }
  { case 2
    show ?case
    proof (cases k)
      case 0
      with 2 have "unat x < 128" by simp
      then show ?thesis using 0 by (simp add: put_varint_small)
    next
      case (Suc j)
      have "unat x < 2 ^ (7 * Suc j) * 128" using 2 Suc by (simp add: power_add)
      then have "unat (drop_bit 7 x) < 2 ^ (7 * Suc j)"
        unfolding unat_drop_bit_7 by (rule less_mult_imp_div_less)
      then show ?thesis
        using "1.IH"(2) [OF refl refl, of j] Suc by (simp add: put_varint.simps [of x] Let_def)
    qed }
qed

lemma length_put_varint: "1 \<le> length (put_varint x)" "length (put_varint x) \<le> 10"
proof -
  show "1 \<le> length (put_varint x)" using length_put_varint_bounds(1) [of x] by (simp add: Suc_le_eq)
  have "unat x < 2 ^ (7 * Suc 9)" using unat_u64_bound [of x] by (rule less_trans) simp
  then show "length (put_varint x) \<le> 10" using length_put_varint_bounds(2) [of x 9] by simp
qed

section \<open>Formats\<close>

text \<open>
  What every field of the wire format promises its enclosing decoder: reading back what was
  written, whatever follows, and taking at least the \<open>stride\<close> bytes that the plausibility check
  of \<open>Reader::count\<close> assumes of it.
\<close>

locale byte_format =
  fixes put :: "'a \<Rightarrow> byte list"
    and get :: "'a reader"
    and ok :: "'a \<Rightarrow> bool"
    and stride :: nat
  assumes get_put: "ok x \<Longrightarrow> get (put x @ rest) = Inr (x, rest)"
    and put_stride: "ok x \<Longrightarrow> stride \<le> length (put x)"
    and stride_pos: "0 < stride"
begin

lemma put_prefix_free: "ok x \<Longrightarrow> ok y \<Longrightarrow> put x @ xs = put y @ ys \<Longrightarrow> x = y \<and> xs = ys"
  by (metis get_put prod.inject sum.inject(2))

lemma get_times: "list_all ok xs \<Longrightarrow> read_times (length xs) get (concat (map put xs) @ rest) = Inr (xs, rest)"
  by (induction xs) (simp_all add: get_put)

lemma puts_stride: "list_all ok xs \<Longrightarrow> length xs * stride \<le> length (concat (map put xs))"
proof (induction xs)
  case (Cons x xs)
  then have "stride \<le> length (put x)" and "length xs * stride \<le> length (concat (map put xs))"
    by (simp_all add: put_stride)
  then show ?case by simp
qed simp

lemma puts_count: "list_all ok xs \<Longrightarrow> length xs \<le> length (concat (map put xs))"
proof -
  assume "list_all ok xs"
  moreover have "length xs \<le> length xs * stride" using stride_pos by simp
  ultimately show ?thesis using puts_stride [of xs] by linarith
qed

end

lemma reader_count_put:
  assumes "n * stride \<le> length rest" and "0 < stride" and "n * stride < 2 ^ 64"
  shows "reader_count stride (put_varint (of_nat n) @ rest) = Inr (n, rest)"
proof -
  have "n \<le> n * stride" using assms(2) by simp
  with assms(3) have "n < 2 ^ 64" by linarith
  then have "unat (of_nat n :: u64) = n" by (simp add: unat_of_nat)
  with assms show ?thesis by (simp add: reader_count_def usize_checked_mul_nat)
qed

lemma reader_take_append: "length bs = n \<Longrightarrow> reader_take n (bs @ rest) = Inr (bs, rest)"
  by (simp add: reader_take_def)

lemma reader_byte_Cons [simp]: "reader_byte (b # rest) = Inr (b, rest)"
  by (simp add: reader_byte_def reader_take_def read_then_def)

lemma reader_byte_Nil [simp]: "reader_byte [] = Inl UnexpectedEnd"
  by (simp add: reader_byte_def reader_take_def read_then_def)

lemma reader_array32_put [simp]: "reader_array32 (bytes_of a @ rest) = Inr (a, rest)"
  by (simp add: reader_array32_def reader_take_append)

lemma reader_account_put [simp]: "reader_account (encode_account a @ rest) = Inr (a, rest)"
  by (simp add: reader_account_def reader_take_append ENCODED_ACCOUNT_SIZE_def)

lemma reader_bytes_put:
  assumes "length bs < 2 ^ 64"
  shows "reader_bytes (put_bytes bs @ rest) = Inr (bs, rest)"
  using reader_count_put [of "length bs" 1 "bs @ rest"] assms
  by (simp add: reader_bytes_def put_bytes_def reader_take_append)

lemma length_put_bytes: "1 \<le> length (put_bytes bs)"
  using length_put_varint(1) [of "of_nat (length bs)"] by (simp add: put_bytes_def)

lemma read_times_length: "read_times n r bs = Inr (xs, rest) \<Longrightarrow> length xs = n"
  by (induction n arbitrary: bs xs rest) (auto simp: result_simps)

lemma reader_bytes_length: "reader_bytes bs = Inr (x, rest) \<Longrightarrow> length x < 2 ^ 64"
  by (auto simp: reader_bytes_def reader_count_def reader_take_def Let_def result_simps split: if_splits)

interpretation varint: byte_format put_varint reader_varint "\<lambda>_. True" 1
  by unfold_locales (simp_all add: length_put_varint(1) [simplified])

interpretation array32: byte_format bytes_of reader_array32 "\<lambda>_. True" 32
  by unfold_locales simp_all

interpretation bytes_format: byte_format put_bytes reader_bytes "\<lambda>bs. length bs < 2 ^ 64" 1
  by unfold_locales (simp_all add: reader_bytes_put length_put_bytes [simplified])

interpretation account_format: byte_format encode_account reader_account "\<lambda>_. True" 48
  by unfold_locales simp_all

text \<open>Counts are bounded by what is left, so nothing a decoder reserves exceeds its input.\<close>

lemma reader_count_bound:
  "reader_count stride bs = Inr (n, rest) \<Longrightarrow> n * stride \<le> length rest"
  by (auto simp: reader_count_def result_simps usize_checked_mul_nat Let_def split: if_splits)

lemma varint_loop_suffix:
  "varint_loop v s bs = Inr (x, rest) \<Longrightarrow> length rest < length bs"
  by (induction v s bs rule: varint_loop.induct)
     (auto simp: Let_def split: if_splits dest: less_SucI)

end
