(* ===== verification/Chains.thy ===== *)
theory Chains
  imports Transactions
begin

text \<open>
  The hash chains of \<^verbatim>\<open>crates/payment-rollup/src/lib.rs\<close>: the L1 inbox chain, the
  withdrawal chain with its payout links, and the chunked batch commitment. What the three have
  in common is stated once, in the locales \<open>hash_chain\<close> and \<open>anchored_chain\<close>: a chain value
  pins the items folded into it, short of a collision.
\<close>

section \<open>Chains in general\<close>

text \<open>
  \<open>step c x\<close> is the string hashed to extend chain value \<open>c\<close> by item \<open>x\<close>; the one law a chain
  needs is that the string determines both.
\<close>

locale hash_chain =
  fixes step :: "bytes32 \<Rightarrow> 'a \<Rightarrow> byte list"
  assumes step_inject: "step c x = step d y \<longleftrightarrow> c = d \<and> x = y"
begin

fun fold_chain :: "hash_fn \<Rightarrow> bytes32 \<Rightarrow> 'a list \<Rightarrow> bytes32" where
  "fold_chain H c [] = c"
| "fold_chain H c (x # xs) = fold_chain H (H (step c x)) xs"

fun preimages :: "hash_fn \<Rightarrow> bytes32 \<Rightarrow> 'a list \<Rightarrow> byte list list" where
  "preimages H c [] = []"
| "preimages H c (x # xs) = step c x # preimages H (H (step c x)) xs"

lemma fold_chain_append [simp]: "fold_chain H c (xs @ ys) = fold_chain H (fold_chain H c xs) ys"
  by (induction xs arbitrary: c) simp_all

lemma preimages_append [simp]:
  "preimages H c (xs @ ys) = preimages H c xs @ preimages H (fold_chain H c xs) ys"
  by (induction xs arbitrary: c) simp_all

lemma fold_chain_foldl: "fold_chain H c xs = foldl (\<lambda>c x. H (step c x)) c xs"
  by (induction xs arbitrary: c) simp_all

text \<open>
  Two folds that end in the same value started from the same value and took the same items,
  when neither start is itself the digest of a step.
\<close>

lemma chain_pins:
  assumes "collision_free H (preimages H u xs @ preimages H v ys)"
    and "\<And>p. p \<in> set (preimages H u xs @ preimages H v ys) \<Longrightarrow> H p \<noteq> u \<and> H p \<noteq> v"
    and "fold_chain H u xs = fold_chain H v ys"
  shows "u = v \<and> xs = ys"
  using assms
proof (induction xs arbitrary: ys rule: rev_induct)
  case Nil
  then show ?case by (cases ys rule: rev_cases) auto
next
  case (snoc x xs)
  show ?case
  proof (cases ys rule: rev_cases)
    case Nil
    with snoc.prems(2,3) show ?thesis by simp
  next
    case ys: (snoc zs z)
    have "step (fold_chain H u xs) x = step (fold_chain H v zs) z"
      using snoc.prems(3) by (intro collision_freeD [OF snoc.prems(1)]) (simp_all add: ys)
    moreover have "collision_free H (preimages H u xs @ preimages H v zs)"
      using snoc.prems(1) by (rule collision_free_mono) (auto simp: ys)
    ultimately show ?thesis
      using snoc.IH [of zs] snoc.prems(2) by (auto simp: ys step_inject)
  qed
qed

text \<open>
  From the all-zero genesis value, and with a shared, already settled history: what was folded
  after the history is pinned too.
\<close>

lemma chain_pins_genesis:
  assumes "collision_free H (preimages H zero32 xs @ preimages H zero32 ys)"
    and "fold_chain H zero32 xs = fold_chain H zero32 ys"
  shows "xs = ys"
  using chain_pins [of H zero32 xs zero32 ys] collision_free_zero [OF assms(1)] assms by blast

lemma chain_pins_suffix:
  assumes "collision_free H (preimages H zero32 (h @ xs) @ preimages H zero32 (h @ ys))"
    and "fold_chain H (fold_chain H zero32 h) xs = fold_chain H (fold_chain H zero32 h) ys"
  shows "xs = ys"
  using chain_pins_genesis [of H "h @ xs" "h @ ys"] assms by simp

end

text \<open>Chains that start from a tagged digest rather than from zero.\<close>

locale anchored_chain = hash_chain step
  for step :: "bytes32 \<Rightarrow> 'a \<Rightarrow> byte list" +
  fixes anchor :: "'d \<Rightarrow> byte list"
  assumes anchor_inject: "anchor d = anchor e \<longleftrightarrow> d = e"
    and anchor_not_step: "anchor d \<noteq> step c x"
begin

lemma anchored_pins:
  assumes "collision_free H
      (anchor d # preimages H (H (anchor d)) xs @ anchor e # preimages H (H (anchor e)) ys)"
      (is "collision_free H ?all")
    and "fold_chain H (H (anchor d)) xs = fold_chain H (H (anchor e)) ys"
  shows "d = e \<and> xs = ys"
proof -
  have step: "\<exists>c x. p = step c x" if "p \<in> set (preimages H c zs)" for p c zs
    using that by (induction zs arbitrary: c) auto
  have "H p \<noteq> H (anchor d) \<and> H p \<noteq> H (anchor e)"
    if "p \<in> set (preimages H (H (anchor d)) xs @ preimages H (H (anchor e)) ys)" for p
    using that collision_freeD [OF assms(1), of p "anchor d"]
      collision_freeD [OF assms(1), of p "anchor e"] anchor_not_step
    by (auto dest!: step) metis+
  moreover have "collision_free H (preimages H (H (anchor d)) xs @ preimages H (H (anchor e)) ys)"
    using assms(1) by (rule collision_free_mono) auto
  ultimately have "H (anchor d) = H (anchor e) \<and> xs = ys"
    using assms(2) by (intro chain_pins)
  moreover from this have "anchor d = anchor e"
    by (intro collision_freeD [OF assms(1)]) auto
  ultimately show ?thesis by (simp add: anchor_inject)
qed

end

section \<open>The inbox chain\<close>

definition INBOX_CHAIN_GENESIS :: bytes32 where
  "INBOX_CHAIN_GENESIS = zero32"

definition accumulate_deposit :: "hash_fn \<Rightarrow> bytes32 \<Rightarrow> address \<Rightarrow> u64 \<Rightarrow> bytes32" where
  "accumulate_deposit H chain receiver amt =
     H (ascii ''INBOXD'' @ bytes_of chain @ bytes_of receiver @ to_be_bytes amt)"

definition accumulate_request :: "hash_fn \<Rightarrow> bytes32 \<Rightarrow> address \<Rightarrow> l1_address \<Rightarrow> bytes32" where
  "accumulate_request H chain address recipient =
     H (ascii ''INBOXW'' @ bytes_of chain @ bytes_of address @ bytes_of recipient)"

text \<open>The two kinds of L1 item, as the host hands them to the contract.\<close>

datatype inbox_item =
    InboxDeposit address u64
  | InboxForcedWithdrawal address l1_address

fun inbox_step :: "bytes32 \<Rightarrow> inbox_item \<Rightarrow> byte list" where
  "inbox_step chain (InboxDeposit receiver amt) =
     ascii ''INBOXD'' @ bytes_of chain @ bytes_of receiver @ to_be_bytes amt"
| "inbox_step chain (InboxForcedWithdrawal address recipient) =
     ascii ''INBOXW'' @ bytes_of chain @ bytes_of address @ bytes_of recipient"

lemma inbox_step_inject: "inbox_step c x = inbox_step d y \<longleftrightarrow> c = d \<and> x = y"
  by (cases x; cases y) (auto simp: ascii_def of_char_Char)

interpretation inbox: hash_chain inbox_step
  by unfold_locales (rule inbox_step_inject)

lemma accumulate_inbox:
  "accumulate_deposit H c r a = H (inbox_step c (InboxDeposit r a))"
  "accumulate_request H c a' l = H (inbox_step c (InboxForcedWithdrawal a' l))"
  by (simp_all add: accumulate_deposit_def accumulate_request_def)

text \<open>The strings hashed along an inbox chain, for evaluation.\<close>

definition inbox_preimages :: "hash_fn \<Rightarrow> bytes32 \<Rightarrow> inbox_item list \<Rightarrow> byte list list" where
  "inbox_preimages = inbox.preimages"

lemma inbox_preimages_simps [simp, code]:
  "inbox_preimages H c [] = []"
  "inbox_preimages H c (x # xs) = inbox_step c x # inbox_preimages H (H (inbox_step c x)) xs"
  by (simp_all add: inbox_preimages_def)

definition inbox_fold :: "hash_fn \<Rightarrow> bytes32 \<Rightarrow> inbox_item list \<Rightarrow> bytes32" where
  "inbox_fold = inbox.fold_chain"

lemma inbox_fold_simps [simp, code]:
  "inbox_fold H c [] = c"
  "inbox_fold H c (x # xs) = inbox_fold H (H (inbox_step c x)) xs"
  by (simp_all add: inbox_fold_def)

section \<open>The withdrawal chain\<close>

definition withdrawal_chain_terminal :: "hash_fn \<Rightarrow> deployment_domain \<Rightarrow> bytes32" where
  "withdrawal_chain_terminal H domain = H (ascii ''WEND'' @ bytes_of domain)"

definition accumulate_withdrawal :: "hash_fn \<Rightarrow> bytes32 \<Rightarrow> l1_address \<Rightarrow> u64 \<Rightarrow> bytes32" where
  "accumulate_withdrawal H tail recipient amt =
     H (ascii ''WPAY'' @ bytes_of tail @ bytes_of recipient @ to_be_bytes amt)"

definition withdrawal_chain ::
  "hash_fn \<Rightarrow> deployment_domain \<Rightarrow> (l1_address \<times> u64) list \<Rightarrow> bytes32" where
  "withdrawal_chain H domain payouts =
     foldl (\<lambda>tail (recipient, amt). accumulate_withdrawal H tail recipient amt)
       (withdrawal_chain_terminal H domain) (rev payouts)"

record withdrawal_link =
  link_recipient :: l1_address
  link_amount :: u64
  link_tail :: bytes32

text \<open>The loop of \<open>withdrawal_links\<close>: the links pushed so far and the running tail.\<close>

definition push_link ::
  "hash_fn \<Rightarrow> withdrawal_link list \<times> bytes32 \<Rightarrow> l1_address \<times> u64 \<Rightarrow> withdrawal_link list \<times> bytes32" where
  "push_link H s p =
     (let (links, tail) = s; (recipient, amt) = p in
      (links @ [\<lparr>link_recipient = recipient, link_amount = amt, link_tail = tail\<rparr>],
       accumulate_withdrawal H tail recipient amt))"

definition withdrawal_links ::
  "hash_fn \<Rightarrow> deployment_domain \<Rightarrow> (l1_address \<times> u64) list \<Rightarrow> withdrawal_link list" where
  "withdrawal_links H domain payouts =
     rev (fst (foldl (push_link H) ([], withdrawal_chain_terminal H domain) (rev payouts)))"

text \<open>
  What the contract does with a link, as the documentation of \<open>WithdrawalLink\<close> describes it:
  recompute the step over the three fields, compare with the head it holds, and hold the tail
  from then on. This is the specification the links are checked against, not code of the crate.
\<close>

fun pay_links :: "hash_fn \<Rightarrow> bytes32 \<Rightarrow> withdrawal_link list \<Rightarrow> bytes32 option" where
  "pay_links H head [] = Some head"
| "pay_links H head (l # ls) =
     (if accumulate_withdrawal H (link_tail l) (link_recipient l) (link_amount l) = head
      then pay_links H (link_tail l) ls else None)"

definition link_payout :: "withdrawal_link \<Rightarrow> l1_address \<times> u64" where
  "link_payout l = (link_recipient l, link_amount l)"

definition payout_step :: "bytes32 \<Rightarrow> l1_address \<times> u64 \<Rightarrow> byte list" where
  "payout_step tail p =
     ascii ''WPAY'' @ bytes_of tail @ bytes_of (fst p) @ to_be_bytes (snd p)"

definition payout_anchor :: "deployment_domain \<Rightarrow> byte list" where
  "payout_anchor domain = ascii ''WEND'' @ bytes_of domain"

interpretation payout_chain: anchored_chain payout_step payout_anchor
  by unfold_locales
     (auto simp: payout_step_def payout_anchor_def ascii_def of_char_Char prod_eq_iff)

lemma withdrawal_chain_fold:
  "withdrawal_chain H domain ps = payout_chain.fold_chain H (H (payout_anchor domain)) (rev ps)"
  by (simp add: withdrawal_chain_def payout_chain.fold_chain_foldl accumulate_withdrawal_def
      payout_step_def payout_anchor_def withdrawal_chain_terminal_def case_prod_unfold)

lemma withdrawal_chain_Nil [simp]: "withdrawal_chain H domain [] = withdrawal_chain_terminal H domain"
  by (simp add: withdrawal_chain_def)

lemma withdrawal_chain_Cons [simp]:
  "withdrawal_chain H domain ((r, a) # ps) =
     accumulate_withdrawal H (withdrawal_chain H domain ps) r a"
  by (simp add: withdrawal_chain_def)

definition payout_preimages ::
  "hash_fn \<Rightarrow> deployment_domain \<Rightarrow> (l1_address \<times> u64) list \<Rightarrow> byte list list" where
  "payout_preimages H domain ps =
     payout_anchor domain # payout_chain.preimages H (H (payout_anchor domain)) (rev ps)"

lemma withdrawal_chain_pins:
  assumes "collision_free H (payout_preimages H d ps @ payout_preimages H e qs)"
    and "withdrawal_chain H d ps = withdrawal_chain H e qs"
  shows "d = e \<and> ps = qs"
  using payout_chain.anchored_pins [of H d "rev ps" e "rev qs"] assms
  by (auto simp: payout_preimages_def withdrawal_chain_fold)

text \<open>The loop of \<open>withdrawal_links\<close> as a recursion on the payouts from the front.\<close>

lemma push_link_tail:
  "snd (foldl (push_link H) ([], withdrawal_chain_terminal H domain) (rev ps)) =
     withdrawal_chain H domain ps"
  by (induction ps) (auto simp: push_link_def split_beta)

lemma withdrawal_links_Nil [simp]: "withdrawal_links H domain [] = []"
  by (simp add: withdrawal_links_def)

lemma withdrawal_links_Cons [simp]:
  "withdrawal_links H domain ((r, a) # ps) =
     \<lparr>link_recipient = r, link_amount = a, link_tail = withdrawal_chain H domain ps\<rparr>
       # withdrawal_links H domain ps"
  by (simp add: withdrawal_links_def push_link_def split_beta push_link_tail)

lemma map_link_payout_links [simp]: "map link_payout (withdrawal_links H domain ps) = ps"
  by (induction ps) (auto simp: link_payout_def)

lemma pay_withdrawal_links:
  "pay_links H (withdrawal_chain H domain ps) (withdrawal_links H domain ps)
     = Some (withdrawal_chain_terminal H domain)"
  by (induction ps) auto

lemma pay_links_fold:
  "pay_links H head ls = Some t \<Longrightarrow>
     payout_chain.fold_chain H t (rev (map link_payout ls)) = head"
  by (induction ls arbitrary: head)
     (auto simp: accumulate_withdrawal_def payout_step_def link_payout_def split: if_splits)

lemma pay_links_only:
  assumes "pay_links H (withdrawal_chain H domain ps) ls = Some (withdrawal_chain_terminal H domain)"
    and "collision_free H (payout_preimages H domain ps @ payout_preimages H domain (map link_payout ls))"
  shows "map link_payout ls = ps"
proof -
  have "withdrawal_chain H domain (map link_payout ls) = withdrawal_chain H domain ps"
    using pay_links_fold [OF assms(1)]
    by (simp add: withdrawal_chain_fold withdrawal_chain_terminal_def payout_anchor_def)
  with withdrawal_chain_pins [OF assms(2)] show ?thesis by simp
qed

end
