(* ===== verification/Commitment.thy ===== *)
theory Commitment
  imports Chains
begin

text \<open>
  How a batch's bytes are cut into chunks, committed, and laid out in the public values of a
  proof: \<open>CHUNK_SIZE\<close> to \<open>public_values\<close> of \<^verbatim>\<open>crates/payment-rollup/src/lib.rs\<close>.
\<close>

section \<open>Chunks\<close>

definition MAX_APP_ARG :: nat where
  "MAX_APP_ARG = 4096"

definition ABI_LENGTH_PREFIX :: nat where
  "ABI_LENGTH_PREFIX = 2"

definition CHUNK_SIZE :: nat where
  "CHUNK_SIZE = MAX_APP_ARG - ABI_LENGTH_PREFIX"

definition AVM_MAX_BYTE_SLICE :: nat where
  "AVM_MAX_BYTE_SLICE = 4096"

text \<open>\<open>usize::div_ceil\<close> and \<open>slice::chunks\<close>.\<close>

definition div_ceil :: "nat \<Rightarrow> nat \<Rightarrow> nat" where
  "div_ceil a b = a div b + (if a mod b > 0 then 1 else 0)"

definition chunk_count :: "nat \<Rightarrow> nat" where
  "chunk_count batch_len = div_ceil batch_len CHUNK_SIZE"

function chunks :: "nat \<Rightarrow> 'a list \<Rightarrow> 'a list list" where
  "chunks n xs = (if xs = [] \<or> n = 0 then [] else take n xs # chunks n (drop n xs))"
  by pat_completeness auto
termination by (relation "measure (\<lambda>(n, xs). length xs)") auto

declare chunks.simps [simp del]

lemma chunks_Nil [simp]: "chunks n [] = []"
  by (simp add: chunks.simps)

lemma chunks_step: "xs \<noteq> [] \<Longrightarrow> 0 < n \<Longrightarrow> chunks n xs = take n xs # chunks n (drop n xs)"
  by (subst chunks.simps) simp

definition chunk_accumulator_seed :: "hash_fn \<Rightarrow> deployment_domain \<Rightarrow> nat \<Rightarrow> bytes32" where
  "chunk_accumulator_seed H domain batch_len =
     H (ascii ''BATCH'' @ bytes_of domain @ to_be_bytes (of_nat batch_len :: u64))"

text \<open>
  \<open>chunk_digest\<close> opens with a \<open>debug_assert!\<close> on the length, which the release build leaves
  out; \<open>chunks_bound\<close> shows it holds at the only call.
\<close>

definition chunk_digest :: "hash_fn \<Rightarrow> byte list \<Rightarrow> bytes32" where
  "chunk_digest H chunk = H chunk"

definition accumulate_chunk :: "hash_fn \<Rightarrow> bytes32 \<Rightarrow> bytes32 \<Rightarrow> bytes32" where
  "accumulate_chunk H accumulator digest =
     H (ascii ''CHUNK'' @ bytes_of accumulator @ bytes_of digest)"

definition batch_commitment :: "hash_fn \<Rightarrow> deployment_domain \<Rightarrow> byte list \<Rightarrow> bytes32" where
  "batch_commitment H domain batch_bytes =
     foldl (\<lambda>accumulator chunk. accumulate_chunk H accumulator (chunk_digest H chunk))
       (chunk_accumulator_seed H domain (length batch_bytes)) (chunks CHUNK_SIZE batch_bytes)"

section \<open>Public values\<close>

definition PUBLIC_VALUES_SIZE :: nat where
  "PUBLIC_VALUES_SIZE = 32 * 6"

definition public_values ::
  "hash_fn \<Rightarrow> deployment_domain \<Rightarrow> bytes32 \<Rightarrow> bytes32 \<Rightarrow> byte list \<Rightarrow> bytes32 \<Rightarrow> bytes32 \<Rightarrow> bytes32
     \<Rightarrow> byte list" where
  "public_values H domain old_root new_root batch_bytes old_inbox new_inbox wchain =
     (let buf = replicate PUBLIC_VALUES_SIZE 0;
          buf = copy_at 0 (bytes_of old_root) buf;
          buf = copy_at 32 (bytes_of new_root) buf;
          buf = copy_at 64 (bytes_of (batch_commitment H domain batch_bytes)) buf;
          buf = copy_at 96 (bytes_of old_inbox) buf;
          buf = copy_at 128 (bytes_of new_inbox) buf;
          buf = copy_at 160 (bytes_of wchain) buf
      in buf)"

section \<open>Facts about chunks\<close>

lemma CHUNK_SIZE_eq [simp]: "CHUNK_SIZE = 4094"
  by (simp add: CHUNK_SIZE_def MAX_APP_ARG_def ABI_LENGTH_PREFIX_def)

lemma concat_chunks [simp]: "0 < n \<Longrightarrow> concat (chunks n xs) = xs"
  by (induction n xs rule: chunks.induct) (subst chunks.simps, simp)

lemma chunks_bound: "c \<in> set (chunks n xs) \<Longrightarrow> 0 < length c \<and> length c \<le> n"
proof (induction n xs rule: chunks.induct)
  case (1 n xs)
  then have ne: "\<not> (xs = [] \<or> n = 0)" by (metis chunks.simps empty_iff list.set(1))
  then have "chunks n xs = take n xs # chunks n (drop n xs)" by (simp add: chunks_step)
  with "1.prems" consider "c = take n xs" | "c \<in> set (chunks n (drop n xs))" by auto
  then show ?case
    using ne "1.IH" [OF ne] by cases auto
qed

lemma div_ceil_step: "0 < b \<Longrightarrow> b \<le> a \<Longrightarrow> div_ceil a b = Suc (div_ceil (a - b) b)"
  by (simp add: div_ceil_def le_div_geq le_mod_geq)

lemma div_ceil_small: "0 < a \<Longrightarrow> a \<le> b \<Longrightarrow> div_ceil a b = 1"
  by (cases "a = b") (simp_all add: div_ceil_def)

lemma length_chunks: "0 < n \<Longrightarrow> length (chunks n xs) = div_ceil (length xs) n"
proof (induction n xs rule: chunks.induct)
  case (1 n xs)
  show ?case
  proof (cases "xs = []")
    case True then show ?thesis by (simp add: div_ceil_def)
  next
    case False
    with 1 have "length (chunks n xs) = Suc (div_ceil (length xs - n) n)"
      by (simp add: chunks_step)
    with False 1(2) show ?thesis
      using div_ceil_step [of n "length xs"] div_ceil_small [of "length xs" n]
      by (cases "n \<le> length xs") (simp_all add: div_ceil_def)
  qed
qed

text \<open>The cut is canonical: every chunk is full but the last, whose size the length fixes.\<close>

fun canonical_cut :: "nat \<Rightarrow> nat \<Rightarrow> 'a list list \<Rightarrow> bool" where
  "canonical_cut n left [] \<longleftrightarrow> left = 0"
| "canonical_cut n left (c # cs) \<longleftrightarrow>
     0 < left \<and> length c = min n left \<and> canonical_cut n (left - length c) cs"

lemma canonical_cut_chunks: "0 < n \<Longrightarrow> canonical_cut n (length xs) (chunks n xs)"
proof (induction n xs rule: chunks.induct)
  case (1 n xs)
  show ?case
  proof (cases "xs = []")
    case False
    with "1.IH" "1.prems" have "canonical_cut n (length (drop n xs)) (chunks n (drop n xs))" by blast
    moreover have "length xs - min n (length xs) = length (drop n xs)" by (simp add: min_def)
    ultimately show ?thesis
      using False by (simp only: chunks_step [OF False "1.prems"] canonical_cut.simps length_take
        min.commute) simp
  qed simp
qed

lemma canonical_cut_unique:
  "0 < n \<Longrightarrow> canonical_cut n left cs \<Longrightarrow> left = length (concat cs) \<and> cs = chunks n (concat cs)"
proof (induction n left cs rule: canonical_cut.induct)
  case (2 n left c cs)
  then have len: "length c = min n left" and pos: "0 < left" and left: "left - length c = length (concat cs)"
    and cs: "cs = chunks n (concat cs)" by auto
  have "chunks n (concat (c # cs)) = c # cs"
  proof (cases "n \<le> left")
    case True
    with len 2(2) have "c \<noteq> []" and "length c = n" by auto
    with cs 2(2) show ?thesis by (simp add: chunks_step)
  next
    case False
    with len left have "concat cs = []" by simp
    moreover from this cs have "cs = []" by (metis chunks_Nil)
    moreover have "c \<noteq> []" and "length c \<le> n" using len pos 2(2) by auto
    ultimately show ?thesis using 2(2) by (simp add: chunks_step)
  qed
  moreover have "left = length (concat (c # cs))" using len left by simp
  ultimately show ?case by simp
qed simp

section \<open>The commitment as an anchored chain\<close>

definition chunk_step :: "bytes32 \<Rightarrow> bytes32 \<Rightarrow> byte list" where
  "chunk_step accumulator digest = ascii ''CHUNK'' @ bytes_of accumulator @ bytes_of digest"

definition chunk_anchor :: "deployment_domain \<times> u64 \<Rightarrow> byte list" where
  "chunk_anchor d = ascii ''BATCH'' @ bytes_of (fst d) @ to_be_bytes (snd d)"

interpretation chunk_chain: anchored_chain chunk_step chunk_anchor
  by unfold_locales
     (auto simp: chunk_step_def chunk_anchor_def ascii_def of_char_Char prod_eq_iff)

definition commitment_preimages :: "hash_fn \<Rightarrow> deployment_domain \<Rightarrow> byte list \<Rightarrow> byte list list" where
  "commitment_preimages H domain bs =
     chunk_anchor (domain, of_nat (length bs))
       # chunk_chain.preimages H (H (chunk_anchor (domain, of_nat (length bs))))
           (map H (chunks CHUNK_SIZE bs))
       @ chunks CHUNK_SIZE bs"

lemma foldl_map: "foldl f a (map g xs) = foldl (\<lambda>a x. f a (g x)) a xs"
  by (induction xs arbitrary: a) simp_all

lemma batch_commitment_fold:
  "batch_commitment H domain bs =
     chunk_chain.fold_chain H (H (chunk_anchor (domain, of_nat (length bs))))
       (map H (chunks CHUNK_SIZE bs))"
  by (simp add: batch_commitment_def chunk_chain.fold_chain_foldl foldl_map accumulate_chunk_def
      chunk_step_def chunk_digest_def chunk_accumulator_seed_def chunk_anchor_def)

lemma collision_free_map:
  "collision_free H (xs @ ys) \<Longrightarrow> map H xs = map H ys \<Longrightarrow> xs = ys"
proof (induction xs arbitrary: ys)
  case (Cons x xs)
  then obtain y zs where ys: "ys = y # zs" "H x = H y" "map H xs = map H zs" by (cases ys) auto
  with Cons.prems(1) have "x = y" by (intro collision_freeD [OF Cons.prems(1)]) auto
  moreover have "collision_free H (xs @ zs)"
    using Cons.prems(1) by (rule collision_free_mono) (auto simp: ys)
  ultimately show ?case using Cons.IH ys by simp
qed simp

lemma batch_commitment_pins:
  assumes cf: "collision_free H (commitment_preimages H d bs @ commitment_preimages H e cs)"
    and eq: "batch_commitment H d bs = batch_commitment H e cs"
  shows "d = e \<and> bs = cs"
proof -
  have *: "(d, of_nat (length bs) :: u64) = (e, of_nat (length cs))
      \<and> map H (chunks CHUNK_SIZE bs) = map H (chunks CHUNK_SIZE cs)"
  proof (rule chunk_chain.anchored_pins)
    show "collision_free H
        (chunk_anchor (d, of_nat (length bs))
          # chunk_chain.preimages H (H (chunk_anchor (d, of_nat (length bs)))) (map H (chunks CHUNK_SIZE bs))
          @ chunk_anchor (e, of_nat (length cs))
          # chunk_chain.preimages H (H (chunk_anchor (e, of_nat (length cs)))) (map H (chunks CHUNK_SIZE cs)))"
      by (rule collision_free_mono [OF cf]) (auto simp: commitment_preimages_def)
  qed (use eq in \<open>simp add: batch_commitment_fold\<close>)
  moreover have "collision_free H (chunks CHUNK_SIZE bs @ chunks CHUNK_SIZE cs)"
    by (rule collision_free_mono [OF cf]) (auto simp: commitment_preimages_def)
  ultimately have "chunks CHUNK_SIZE bs = chunks CHUNK_SIZE cs"
    by (intro collision_free_map) auto
  then have "concat (chunks CHUNK_SIZE bs) = concat (chunks CHUNK_SIZE cs)" by simp
  with * show ?thesis by (simp del: CHUNK_SIZE_eq add: CHUNK_SIZE_eq [THEN ssubst, of "(<) 0"])
qed

text \<open>
  The contract's side of the commitment, as the documentation of \<open>chunk_accumulator_seed\<close> and
  \<open>batch_commitment\<close> describes it: told the length first, handed one chunk at a time, each of
  the size the length fixes, one hash of the chunk and one of the accumulator per chunk.
\<close>

fun post_chunks :: "hash_fn \<Rightarrow> nat \<Rightarrow> bytes32 \<Rightarrow> byte list list \<Rightarrow> bytes32 option" where
  "post_chunks H left accumulator [] = (if left = 0 then Some accumulator else None)"
| "post_chunks H left accumulator (c # cs) =
     (if 0 < left \<and> length c = min CHUNK_SIZE left
      then post_chunks H (left - length c) (accumulate_chunk H accumulator (chunk_digest H c)) cs
      else None)"

lemma post_chunks_iff:
  "post_chunks H left accumulator cs = Some r \<longleftrightarrow>
     canonical_cut CHUNK_SIZE left cs \<and>
     r = foldl (\<lambda>acc c. accumulate_chunk H acc (chunk_digest H c)) accumulator cs"
  by (induction cs arbitrary: left accumulator) (auto simp del: CHUNK_SIZE_eq)

lemma post_chunks_commitment:
  "post_chunks H len (chunk_accumulator_seed H domain len) cs = Some r \<longleftrightarrow>
     len = length (concat cs) \<and> cs = chunks CHUNK_SIZE (concat cs)
     \<and> r = batch_commitment H domain (concat cs)"
proof -
  have "canonical_cut CHUNK_SIZE len cs \<longleftrightarrow> len = length (concat cs) \<and> cs = chunks CHUNK_SIZE (concat cs)"
    using canonical_cut_unique [of CHUNK_SIZE len cs] canonical_cut_chunks [of CHUNK_SIZE "concat cs"]
    by auto
  then show ?thesis
    unfolding post_chunks_iff batch_commitment_def by (metis (no_types, lifting))
qed

lemma public_values_eq:
  "public_values H domain old_root new_root bs old_inbox new_inbox wchain =
     bytes_of old_root @ bytes_of new_root @ bytes_of (batch_commitment H domain bs)
       @ bytes_of old_inbox @ bytes_of new_inbox @ bytes_of wchain"
proof -
  let ?fields = "[bytes_of old_root, bytes_of new_root, bytes_of (batch_commitment H domain bs),
    bytes_of old_inbox, bytes_of new_inbox, bytes_of wchain]"
  have "public_values H domain old_root new_root bs old_inbox new_inbox wchain = write_fields 192 ?fields"
    by (simp add: public_values_def PUBLIC_VALUES_SIZE_def write_fields_def write_field_def Let_def)
  then show ?thesis by (subst (asm) write_fields_eq) simp_all
qed

lemma length_public_values [simp]:
  "length (public_values H domain old_root new_root bs old_inbox new_inbox wchain) = 192"
  by (simp add: public_values_eq)

end
