(* ===== verification/Replay.thy ===== *)
theory Replay
  imports Merkle Commitment
begin

text \<open>
  Replaying a batch against its witnesses: the sidecar types, \<open>debit\<close>, \<open>credit\<close>,
  \<open>verify_batch\<close>, \<open>withdrawal_payouts\<close> and \<open>verify_block\<close> of
  \<^verbatim>\<open>crates/payment-rollup/src/lib.rs\<close>. Nothing here sees an account map: the replay
  knows a running root and what the witnesses claim.
\<close>

section \<open>Witnesses and blocks\<close>

record leaf_witness =
  old_account :: "account option"
  witness_proof :: merkle_proof

record payment_sidecar =
  payment_sig :: signature
  payment_sender_witness :: leaf_witness
  payment_receiver_witness :: leaf_witness
  payment_fee_sink_witness :: "leaf_witness option"

record deposit_sidecar =
  deposit_receiver_witness :: leaf_witness

record withdrawal_sidecar =
  withdrawal_sig :: signature
  withdrawal_sender_witness :: leaf_witness
  withdrawal_fee_sink_witness :: "leaf_witness option"

record forced_withdrawal_sidecar =
  forced_sender_witness :: leaf_witness

datatype txn_sidecar =
    PaymentEntry payment_sidecar
  | DepositEntry deposit_sidecar
  | WithdrawalEntry withdrawal_sidecar
  | ForcedWithdrawalEntry forced_withdrawal_sidecar

record batch =
  txns :: "transaction list"

definition batch_len :: "batch \<Rightarrow> nat" where
  "batch_len b = length (txns b)"

definition batch_is_empty :: "batch \<Rightarrow> bool" where
  "batch_is_empty b \<longleftrightarrow> txns b = []"

record sidecar =
  entries :: "txn_sidecar list"

definition sidecar_len :: "sidecar \<Rightarrow> nat" where
  "sidecar_len s = length (entries s)"

record block =
  block_domain :: deployment_domain
  block_old_root :: bytes32
  block_new_root :: bytes32
  block_old_inbox_chain :: bytes32
  block_new_inbox_chain :: bytes32
  block_withdrawal_chain :: bytes32
  block_batch :: batch
  block_sidecar :: sidecar

section \<open>Checking and writing one slot\<close>

definition root_with ::
  "primitives \<Rightarrow> address \<Rightarrow> account option \<Rightarrow> merkle_proof \<Rightarrow> verification_error + bytes32" where
  "root_with P address acc prf = ok_or MalformedProof (root_from_proof (sha256 P) address acc prf)"

definition expect_pre_state ::
  "primitives \<Rightarrow> address \<Rightarrow> leaf_witness \<Rightarrow> bytes32 \<Rightarrow> verification_error + unit" where
  "expect_pre_state P address witness rt =
     and_then (root_with P address (old_account witness) (witness_proof witness)) (\<lambda>r.
       if r = rt then Inr () else Inl StaleWitness)"

text \<open>\<open>message\<close> is the closure \<open>bytes_to_sign\<close> of the source.\<close>

definition debit ::
  "primitives \<Rightarrow> address \<Rightarrow> leaf_witness \<Rightarrow> signature \<Rightarrow> u64 \<Rightarrow> u64 \<Rightarrow> bytes32
     \<Rightarrow> (u64 \<Rightarrow> byte list) \<Rightarrow> verification_error + bytes32" where
  "debit P sender_addr witness sig amt fee rt message =
     and_then (expect_pre_state P sender_addr witness rt) (\<lambda>_.
     and_then (ok_or UnknownSender (old_account witness)) (\<lambda>sender.
     and_then (bump_nonce sender) (\<lambda>sender.
     and_then (signature_verify P sig sender (message (nonce sender))) (\<lambda>_.
     and_then (ok_or InsufficientFunds
        (Option.bind (checked_sub (amount sender) amt) (\<lambda>balance. checked_sub balance fee))) (\<lambda>balance.
     root_with P sender_addr (Some (sender\<lparr>amount := balance\<rparr>)) (witness_proof witness))))))"

definition credit ::
  "primitives \<Rightarrow> address \<Rightarrow> leaf_witness \<Rightarrow> u64 \<Rightarrow> bytes32 \<Rightarrow> verification_error + bytes32" where
  "credit P receiver_addr witness amt rt =
     and_then (expect_pre_state P receiver_addr witness rt) (\<lambda>_.
     let receiver = (case old_account witness of None \<Rightarrow> account_empty receiver_addr | Some a \<Rightarrow> a) in
     and_then (ok_or AmountOverflow (checked_add (amount receiver) amt)) (\<lambda>balance.
     root_with P receiver_addr (Some (receiver\<lparr>amount := balance\<rparr>)) (witness_proof witness)))"

text \<open>The match on the fee and the fee-sink witness, which payments and withdrawals share.\<close>

definition credit_fee ::
  "primitives \<Rightarrow> u64 \<Rightarrow> leaf_witness option \<Rightarrow> bytes32 \<Rightarrow> verification_error + bytes32" where
  "credit_fee P fee witness rt =
     (case witness of
        None \<Rightarrow> if fee = 0 then Inr rt else Inl SidecarKindMismatch
      | Some w \<Rightarrow> if fee \<noteq> 0 then credit P FEE_SINK w fee rt else Inl SidecarKindMismatch)"

section \<open>The replay\<close>

text \<open>The three \<open>let mut\<close> variables of \<open>verify_batch\<close>, and one turn of its loop.\<close>

record replay_state =
  running_root :: bytes32
  running_inbox :: bytes32
  running_payouts :: "(l1_address \<times> u64) list"

definition verify_payment ::
  "primitives \<Rightarrow> deployment_domain \<Rightarrow> payment \<Rightarrow> payment_sidecar \<Rightarrow> replay_state
     \<Rightarrow> verification_error + replay_state" where
  "verify_payment P domain p entry st =
     (let fee = header_fee (payment_header p) in
      and_then (debit P (header_sender (payment_header p)) (payment_sender_witness entry)
         (payment_sig entry) (payment_amount p) fee (running_root st) (payment_bytes_to_sign p domain)) (\<lambda>rt.
      and_then (credit P (payment_receiver p) (payment_receiver_witness entry) (payment_amount p) rt) (\<lambda>rt.
      and_then (credit_fee P fee (payment_fee_sink_witness entry) rt) (\<lambda>rt.
      Inr (st\<lparr>running_root := rt\<rparr>)))))"

definition verify_deposit ::
  "primitives \<Rightarrow> deposit \<Rightarrow> deposit_sidecar \<Rightarrow> replay_state \<Rightarrow> verification_error + replay_state" where
  "verify_deposit P d entry st =
     and_then (credit P (deposit_receiver d) (deposit_receiver_witness entry) (deposit_amount d)
        (running_root st)) (\<lambda>rt.
     Inr (st\<lparr>running_root := rt,
             running_inbox := accumulate_deposit (sha256 P) (running_inbox st) (deposit_receiver d)
               (deposit_amount d)\<rparr>))"

definition verify_withdrawal ::
  "primitives \<Rightarrow> deployment_domain \<Rightarrow> withdrawal \<Rightarrow> withdrawal_sidecar \<Rightarrow> replay_state
     \<Rightarrow> verification_error + replay_state" where
  "verify_withdrawal P domain w entry st =
     (let fee = header_fee (withdrawal_header w) in
      if withdrawal_amount w < MIN_WITHDRAWAL then Inl WithdrawalTooSmall
      else
        and_then (debit P (header_sender (withdrawal_header w)) (withdrawal_sender_witness entry)
           (withdrawal_sig entry) (withdrawal_amount w) fee (running_root st)
           (withdrawal_bytes_to_sign w domain)) (\<lambda>rt.
        and_then (credit_fee P fee (withdrawal_fee_sink_witness entry) rt) (\<lambda>rt.
        Inr (st\<lparr>running_root := rt,
                running_payouts := running_payouts st @ [(withdrawal_recipient w, withdrawal_amount w)]\<rparr>))))"

definition verify_forced ::
  "primitives \<Rightarrow> forced_withdrawal \<Rightarrow> forced_withdrawal_sidecar \<Rightarrow> replay_state
     \<Rightarrow> verification_error + replay_state" where
  "verify_forced P f entry st =
     (let address = header_sender (forced_header f); recipient = forced_recipient f;
          witness = forced_sender_witness entry in
      and_then (expect_pre_state P address witness (running_root st)) (\<lambda>_.
      let balance = (case old_account witness of None \<Rightarrow> 0 | Some a \<Rightarrow> amount a) in
      and_then
        (if balance \<ge> MIN_WITHDRAWAL then
           and_then (ok_or UnknownSender (old_account witness)) (\<lambda>acc.
           and_then (bump_nonce (acc\<lparr>amount := 0\<rparr>)) (\<lambda>acc.
           and_then (root_with P address (Some acc) (witness_proof witness)) (\<lambda>rt.
           Inr (st\<lparr>running_root := rt,
                   running_payouts := running_payouts st @ [(recipient, balance)]\<rparr>))))
         else Inr st) (\<lambda>st.
      Inr (st\<lparr>running_inbox := accumulate_request (sha256 P) (running_inbox st) address recipient\<rparr>))))"

fun verify_txn ::
  "primitives \<Rightarrow> deployment_domain \<Rightarrow> transaction \<times> txn_sidecar \<Rightarrow> replay_state
     \<Rightarrow> verification_error + replay_state" where
  "verify_txn P domain (Payment p, PaymentEntry e) st = verify_payment P domain p e st"
| "verify_txn P domain (Deposit d, DepositEntry e) st = verify_deposit P d e st"
| "verify_txn P domain (Withdrawal w, WithdrawalEntry e) st = verify_withdrawal P domain w e st"
| "verify_txn P domain (ForcedWithdrawal f, ForcedWithdrawalEntry e) st = verify_forced P f e st"
| "verify_txn P domain _ st = Inl SidecarKindMismatch"

primrec verify_txns ::
  "primitives \<Rightarrow> deployment_domain \<Rightarrow> (transaction \<times> txn_sidecar) list \<Rightarrow> replay_state
     \<Rightarrow> verification_error + replay_state" where
  "verify_txns P domain [] st = Inr st"
| "verify_txns P domain (x # xs) st =
     and_then (verify_txn P domain x st) (\<lambda>st. verify_txns P domain xs st)"

definition verify_batch ::
  "primitives \<Rightarrow> deployment_domain \<Rightarrow> bytes32 \<Rightarrow> bytes32 \<Rightarrow> batch \<Rightarrow> sidecar
     \<Rightarrow> verification_error + bytes32 \<times> bytes32 \<times> bytes32" where
  "verify_batch P domain old_root inbox_anchor b s =
     (if length (txns b) \<noteq> length (entries s) then Inl SidecarLengthMismatch
      else and_then
        (verify_txns P domain (zip (txns b) (entries s))
           \<lparr>running_root = old_root, running_inbox = inbox_anchor, running_payouts = []\<rparr>) (\<lambda>st.
        Inr (running_root st, running_inbox st,
             withdrawal_chain (sha256 P) domain (running_payouts st))))"

fun txn_payout :: "transaction \<times> txn_sidecar \<Rightarrow> (l1_address \<times> u64) option" where
  "txn_payout (Withdrawal w, _) = Some (withdrawal_recipient w, withdrawal_amount w)"
| "txn_payout (ForcedWithdrawal f, ForcedWithdrawalEntry e) =
     (let balance = (case old_account (forced_sender_witness e) of None \<Rightarrow> 0 | Some a \<Rightarrow> amount a)
      in if balance \<ge> MIN_WITHDRAWAL then Some (forced_recipient f, balance) else None)"
| "txn_payout _ = None"

definition withdrawal_payouts :: "batch \<Rightarrow> sidecar \<Rightarrow> (l1_address \<times> u64) list" where
  "withdrawal_payouts b s = List.map_filter txn_payout (zip (txns b) (entries s))"

definition verify_block :: "primitives \<Rightarrow> block \<Rightarrow> verification_error + unit" where
  "verify_block P blk =
     and_then (verify_batch P (block_domain blk) (block_old_root blk) (block_old_inbox_chain blk)
        (block_batch blk) (block_sidecar blk)) (\<lambda>(rt, inbox_chain, wchain).
     if rt = block_new_root blk \<and> inbox_chain = block_new_inbox_chain blk
        \<and> wchain = block_withdrawal_chain blk
     then Inr () else Inl RootMismatch)"

section \<open>What the replay reports besides roots\<close>

text \<open>The payouts a replay queues are the ones \<open>withdrawal_payouts\<close> reads back out.\<close>

lemma verify_txn_payouts:
  "verify_txn P domain x st = Inr st' \<Longrightarrow>
     running_payouts st' = running_payouts st @ List.map_filter txn_payout [x]"
  by (induction P domain x st rule: verify_txn.induct)
     (auto simp: verify_payment_def verify_deposit_def verify_withdrawal_def verify_forced_def
        Let_def result_simps map_filter_def split: if_splits)

lemma verify_txns_payouts:
  "verify_txns P domain xs st = Inr st' \<Longrightarrow>
     running_payouts st' = running_payouts st @ List.map_filter txn_payout xs"
proof (induction xs arbitrary: st)
  case (Cons x xs)
  then obtain st1 where "verify_txn P domain x st = Inr st1" "verify_txns P domain xs st1 = Inr st'"
    by (auto simp: result_simps)
  with Cons.IH [of st1] verify_txn_payouts [of P domain x st st1] show ?case
    by (auto simp: map_filter_def split: if_splits)
qed (simp add: map_filter_def)

text \<open>The L1 items a batch consumes, in order; \<open>txn_inbox_item\<close> is \<open>None\<close> for the others.\<close>

fun txn_inbox_item :: "transaction \<Rightarrow> inbox_item option" where
  "txn_inbox_item (Deposit d) = Some (InboxDeposit (deposit_receiver d) (deposit_amount d))"
| "txn_inbox_item (ForcedWithdrawal f) =
     Some (InboxForcedWithdrawal (header_sender (forced_header f)) (forced_recipient f))"
| "txn_inbox_item _ = None"

definition batch_inbox_items :: "batch \<Rightarrow> inbox_item list" where
  "batch_inbox_items b = List.map_filter txn_inbox_item (txns b)"

lemma verify_txn_inbox:
  "verify_txn P domain x st = Inr st' \<Longrightarrow>
     running_inbox st' = inbox.fold_chain (sha256 P) (running_inbox st) (List.map_filter txn_inbox_item [fst x])"
  by (induction P domain x st rule: verify_txn.induct)
     (auto simp: verify_payment_def verify_deposit_def verify_withdrawal_def verify_forced_def
        Let_def result_simps map_filter_def accumulate_inbox split: if_splits)

lemma verify_txns_inbox:
  "verify_txns P domain xs st = Inr st' \<Longrightarrow>
     running_inbox st' = inbox.fold_chain (sha256 P) (running_inbox st) (List.map_filter txn_inbox_item (map fst xs))"
proof (induction xs arbitrary: st)
  case (Cons x xs)
  then obtain st1 where "verify_txn P domain x st = Inr st1" "verify_txns P domain xs st1 = Inr st'"
    by (auto simp: result_simps)
  with Cons.IH [of st1] verify_txn_inbox [of P domain x st st1] show ?case
    by (auto simp: map_filter_def split: if_splits)
qed (simp add: map_filter_def)

lemma verify_batch_outputs:
  assumes "verify_batch P domain old_root anchor b s = Inr (rt, inbox_chain, wchain)"
  shows "inbox_chain = inbox.fold_chain (sha256 P) anchor (batch_inbox_items b)"
    and "wchain = withdrawal_chain (sha256 P) domain (withdrawal_payouts b s)"
proof -
  from assms obtain st where len: "length (txns b) = length (entries s)"
    and st: "verify_txns P domain (zip (txns b) (entries s))
      \<lparr>running_root = old_root, running_inbox = anchor, running_payouts = []\<rparr> = Inr st"
    and "inbox_chain = running_inbox st"
    and "wchain = withdrawal_chain (sha256 P) domain (running_payouts st)"
    by (auto simp: verify_batch_def result_simps split: if_splits)
  with verify_txns_inbox [OF st] verify_txns_payouts [OF st]
  show "inbox_chain = inbox.fold_chain (sha256 P) anchor (batch_inbox_items b)"
    and "wchain = withdrawal_chain (sha256 P) domain (withdrawal_payouts b s)"
    by (simp_all add: batch_inbox_items_def withdrawal_payouts_def)
qed

end
