(* ===== verification/Batch_Codec.thy ===== *)
theory Batch_Codec
  imports Codec Replay
begin

text \<open>
  The published half on the wire: the address dictionary, \<open>Batch::encode\<close> and
  \<open>Batch::decode\<close> of \<^verbatim>\<open>crates/payment-rollup/src/codec.rs\<close>.
\<close>

definition BATCH_VERSION :: byte where "BATCH_VERSION = 1"

definition KIND_PAYMENT :: byte where "KIND_PAYMENT = 0"
definition KIND_DEPOSIT :: byte where "KIND_DEPOSIT = 1"
definition KIND_WITHDRAWAL :: byte where "KIND_WITHDRAWAL = 2"
definition KIND_FORCED_WITHDRAWAL :: byte where "KIND_FORCED_WITHDRAWAL = 3"

definition MIN_ENCODED_TXN_SIZE :: nat where
  "MIN_ENCODED_TXN_SIZE = 1 + 1 + 1"

section \<open>The address dictionary\<close>

text \<open>
  The encoder's \<open>HashMap\<close> of positions, of which only \<open>get\<close>, \<open>insert\<close> of an absent key and
  \<open>len\<close> are used, is an association list. \<open>dictionary_put\<close> returns the bytes it appends.
\<close>

type_synonym dictionary = "(address \<times> u64) list"

definition dictionary_put :: "dictionary \<Rightarrow> address \<Rightarrow> byte list \<times> dictionary" where
  "dictionary_put d a =
     (case map_of d a of
        Some position \<Rightarrow> (put_varint position, d)
      | None \<Rightarrow> (0 # bytes_of a, (a, of_nat (length d) + 1) # d))"

definition dictionary_take :: "address list \<Rightarrow> (address \<times> address list) reader" where
  "dictionary_take seen =
     read_then reader_varint (\<lambda>reference.
       if reference = 0 then read_then reader_array32 (\<lambda>a. read_return (a, seen @ [a]))
       else let index = unat (reference - 1) in
            if index < length seen then read_return (seen ! index, seen)
            else read_fail (UnknownAddressRef reference))"

section \<open>Encoding\<close>

fun encode_txn :: "dictionary \<Rightarrow> transaction \<Rightarrow> byte list \<times> dictionary" where
  "encode_txn d (Payment p) =
     (let (sndr, d) = dictionary_put d (header_sender (payment_header p));
          (rcv, d) = dictionary_put d (payment_receiver p)
      in (KIND_PAYMENT # sndr @ put_varint (header_fee (payment_header p)) @ rcv
            @ put_varint (payment_amount p), d))"
| "encode_txn d (Deposit dep) =
     (let (rcv, d) = dictionary_put d (deposit_receiver dep)
      in (KIND_DEPOSIT # rcv @ put_varint (deposit_amount dep), d))"
| "encode_txn d (Withdrawal w) =
     (let (sndr, d) = dictionary_put d (header_sender (withdrawal_header w))
      in (KIND_WITHDRAWAL # sndr @ put_varint (header_fee (withdrawal_header w))
            @ bytes_of (withdrawal_recipient w) @ put_varint (withdrawal_amount w), d))"
| "encode_txn d (ForcedWithdrawal f) =
     (let (a, d) = dictionary_put d (header_sender (forced_header f))
      in (KIND_FORCED_WITHDRAWAL # a @ bytes_of (forced_recipient f), d))"

primrec encode_txns :: "dictionary \<Rightarrow> transaction list \<Rightarrow> byte list" where
  "encode_txns d [] = []"
| "encode_txns d (t # ts) = (let (bs, d) = encode_txn d t in bs @ encode_txns d ts)"

definition batch_encode :: "batch \<Rightarrow> byte list" where
  "batch_encode b =
     BATCH_VERSION # put_varint (of_nat (length (txns b))) @ encode_txns [] (txns b)"

section \<open>Decoding\<close>

definition decode_txn :: "address list \<Rightarrow> (transaction \<times> address list) reader" where
  "decode_txn seen =
     read_then reader_byte (\<lambda>kind.
       if kind = KIND_PAYMENT then
         read_then (dictionary_take seen) (\<lambda>(sndr, seen).
         read_then reader_varint (\<lambda>fee.
         read_then (dictionary_take seen) (\<lambda>(rcv, seen).
         read_then reader_varint (\<lambda>amt.
         read_return (Payment \<lparr>payment_header = \<lparr>header_sender = sndr, header_fee = fee\<rparr>,
           payment_receiver = rcv, payment_amount = amt\<rparr>, seen)))))
       else if kind = KIND_DEPOSIT then
         read_then (dictionary_take seen) (\<lambda>(rcv, seen).
         read_then reader_varint (\<lambda>amt.
         read_return (Deposit (deposit_new rcv amt), seen)))
       else if kind = KIND_WITHDRAWAL then
         read_then (dictionary_take seen) (\<lambda>(sndr, seen).
         read_then reader_varint (\<lambda>fee.
         read_then reader_array32 (\<lambda>recipient.
         read_then reader_varint (\<lambda>amt.
         read_return (Withdrawal (withdrawal_new sndr recipient amt fee), seen)))))
       else if kind = KIND_FORCED_WITHDRAWAL then
         read_then (dictionary_take seen) (\<lambda>(a, seen).
         read_then reader_array32 (\<lambda>recipient.
         read_return (ForcedWithdrawal (forced_withdrawal_new a recipient), seen)))
       else read_fail (UnknownTransactionKind kind))"

primrec decode_txns :: "nat \<Rightarrow> address list \<Rightarrow> transaction list reader" where
  "decode_txns 0 seen = read_return []"
| "decode_txns (Suc n) seen =
     read_then (decode_txn seen) (\<lambda>(t, seen).
     read_then (decode_txns n seen) (\<lambda>ts. read_return (t # ts)))"

definition batch_decode :: "byte list \<Rightarrow> decode_error + batch" where
  "batch_decode bs =
     and_then
       (read_then (expect_version BATCH_VERSION) (\<lambda>_.
        read_then (reader_count MIN_ENCODED_TXN_SIZE) (\<lambda>count.
        decode_txns count [])) bs) (\<lambda>(ts, rest).
     and_then (reader_finish rest) (\<lambda>_. Inr \<lparr>txns = ts\<rparr>))"

section \<open>Round trip\<close>

text \<open>The two sides of the dictionary agree: a position is one more than the index it names.\<close>

definition dictionary_rel :: "dictionary \<Rightarrow> address list \<Rightarrow> bool" where
  "dictionary_rel d seen \<longleftrightarrow>
     length d = length seen \<and>
     (\<forall>a p. map_of d a = Some p \<longrightarrow> (\<exists>i<length seen. seen ! i = a \<and> p = of_nat i + 1))"

lemma dictionary_rel_Nil [simp]: "dictionary_rel [] []"
  by (simp add: dictionary_rel_def)

lemma dictionary_put_length:
  "dictionary_put d a = (bs, d') \<Longrightarrow> 1 \<le> length bs \<and> length d' \<le> length d + length bs"
  using length_put_varint(1) by (auto simp: dictionary_put_def split: option.splits)

lemma dictionary_put_mono: "dictionary_put d a = (bs, d') \<Longrightarrow> length d \<le> length d'"
  by (auto simp: dictionary_put_def split: option.splits)

lemma dictionary_take_put:
  assumes rel: "dictionary_rel d seen" and put: "dictionary_put d a = (bs, d')"
    and bound: "length d + length bs < 2 ^ 64"
  shows "\<exists>seen'. dictionary_take seen (bs @ rest) = Inr ((a, seen'), rest) \<and> dictionary_rel d' seen'"
proof (cases "map_of d a")
  case None
  have zero: "reader_varint (0 # xs) = Inr (0, xs)" for xs
    by (simp add: reader_varint_def)
  have "bs = 0 # bytes_of a" and d': "d' = (a, of_nat (length d) + 1) # d"
    using put None by (simp_all add: dictionary_put_def)
  then have "dictionary_take seen (bs @ rest) = Inr ((a, seen @ [a]), rest)"
    by (simp add: dictionary_take_def zero)
  moreover have "dictionary_rel d' (seen @ [a])"
    using rel by (fastforce simp: dictionary_rel_def d' nth_append)
  ultimately show ?thesis by blast
next
  case (Some p)
  then obtain i where i: "i < length seen" "seen ! i = a" "p = of_nat i + 1"
    using rel by (auto simp: dictionary_rel_def)
  have "i + 1 < 2 ^ 64" using i(1) rel bound put Some
    length_put_varint(1) [of p] by (auto simp: dictionary_rel_def dictionary_put_def)
  then have "unat (of_nat i :: u64) = i" and "unat p = i + 1"
    using i(3) by (simp_all add: unat_of_nat unat_word_ariths)
  then have "p \<noteq> 0" and "unat (p - 1) = i" using i(3) by (auto simp: unat_eq_0 [symmetric])
  moreover have "bs = put_varint p" and "d' = d" using Some put by (simp_all add: dictionary_put_def)
  ultimately have "dictionary_take seen (bs @ rest) = Inr ((a, seen), rest)"
    using i(1,2) by (simp add: dictionary_take_def Let_def)
  with rel \<open>d' = d\<close> show ?thesis by blast
qed

lemma encode_txn_length:
  assumes "encode_txn d t = (bs, d')"
  shows "3 \<le> length bs \<and> length d' \<le> length d + length bs"
proof (cases t)
  case (Payment p)
  with assms length_put_varint(1) [of "header_fee (payment_header p)"]
    length_put_varint(1) [of "payment_amount p"] show ?thesis
    by (auto simp: Let_def split: prod.splits dest!: dictionary_put_length)
next
  case (Deposit dep)
  with assms length_put_varint(1) [of "deposit_amount dep"] show ?thesis
    by (auto simp: Let_def split: prod.splits dest!: dictionary_put_length)
next
  case (Withdrawal w)
  with assms show ?thesis by (auto simp: Let_def split: prod.splits dest!: dictionary_put_length)
next
  case (ForcedWithdrawal f)
  with assms show ?thesis by (auto simp: Let_def split: prod.splits dest!: dictionary_put_length)
qed

lemma kinds [simp]:
  "KIND_DEPOSIT \<noteq> KIND_PAYMENT" "KIND_WITHDRAWAL \<noteq> KIND_PAYMENT" "KIND_FORCED_WITHDRAWAL \<noteq> KIND_PAYMENT"
  "KIND_WITHDRAWAL \<noteq> KIND_DEPOSIT" "KIND_FORCED_WITHDRAWAL \<noteq> KIND_DEPOSIT"
  "KIND_FORCED_WITHDRAWAL \<noteq> KIND_WITHDRAWAL"
  by (simp_all add: KIND_PAYMENT_def KIND_DEPOSIT_def KIND_WITHDRAWAL_def KIND_FORCED_WITHDRAWAL_def)

lemma decode_encode_txn:
  assumes rel: "dictionary_rel d seen" and enc: "encode_txn d t = (bs, d')" and wf: "wf_transaction t"
    and bound: "length d + length bs < 2 ^ 64"
  shows "\<exists>seen'. decode_txn seen (bs @ rest) = Inr ((t, seen'), rest) \<and> dictionary_rel d' seen'"
proof (cases t)
  case (Payment p)
  obtain s d1 r where s: "dictionary_put d (header_sender (payment_header p)) = (s, d1)"
    and r: "dictionary_put d1 (payment_receiver p) = (r, d')"
    and bs: "bs = KIND_PAYMENT # s @ put_varint (header_fee (payment_header p)) @ r @ put_varint (payment_amount p)"
    using enc by (auto simp: Payment Let_def split: prod.splits)
  have "length d1 + length r < 2 ^ 64" "length d + length s < 2 ^ 64"
    using dictionary_put_length [OF s] bound by (simp_all add: bs)
  from dictionary_take_put [OF rel s this(2), of "put_varint (header_fee (payment_header p)) @ r @ put_varint (payment_amount p) @ rest"]
  obtain seen1 where 1: "dictionary_take seen (s @ put_varint (header_fee (payment_header p)) @ r @ put_varint (payment_amount p) @ rest)
      = Inr ((header_sender (payment_header p), seen1), put_varint (header_fee (payment_header p)) @ r @ put_varint (payment_amount p) @ rest)"
    "dictionary_rel d1 seen1" by blast
  from dictionary_take_put [OF 1(2) r \<open>length d1 + length r < 2 ^ 64\<close>, of "put_varint (payment_amount p) @ rest"]
  show ?thesis using 1(1) by (auto simp: decode_txn_def bs Payment)
next
  case (Deposit dep)
  obtain r where r: "dictionary_put d (deposit_receiver dep) = (r, d')"
    and bs: "bs = KIND_DEPOSIT # r @ put_varint (deposit_amount dep)"
    using enc by (auto simp: Deposit Let_def split: prod.splits)
  have "length d + length r < 2 ^ 64" using bound by (simp add: bs)
  from dictionary_take_put [OF rel r this, of "put_varint (deposit_amount dep) @ rest"] wf
  show ?thesis by (auto simp: decode_txn_def bs Deposit wf_deposit_iff [of dep])
next
  case (Withdrawal w)
  obtain s where s: "dictionary_put d (header_sender (withdrawal_header w)) = (s, d')"
    and bs: "bs = KIND_WITHDRAWAL # s @ put_varint (header_fee (withdrawal_header w))
      @ bytes_of (withdrawal_recipient w) @ put_varint (withdrawal_amount w)"
    using enc by (auto simp: Withdrawal Let_def split: prod.splits)
  have "length d + length s < 2 ^ 64" using bound by (simp add: bs)
  from dictionary_take_put [OF rel s this, of "put_varint (header_fee (withdrawal_header w))
      @ bytes_of (withdrawal_recipient w) @ put_varint (withdrawal_amount w) @ rest"]
  show ?thesis by (auto simp: decode_txn_def bs Withdrawal withdrawal_new_def)
next
  case (ForcedWithdrawal f)
  obtain s where s: "dictionary_put d (header_sender (forced_header f)) = (s, d')"
    and bs: "bs = KIND_FORCED_WITHDRAWAL # s @ bytes_of (forced_recipient f)"
    using enc by (auto simp: ForcedWithdrawal Let_def split: prod.splits)
  have "length d + length s < 2 ^ 64" using bound by (simp add: bs)
  from dictionary_take_put [OF rel s this, of "bytes_of (forced_recipient f) @ rest"] wf
  show ?thesis
    by (auto simp: decode_txn_def bs ForcedWithdrawal wf_forced_iff [of f] forced_address_def)
qed

lemma encode_txns_length: "3 * length ts \<le> length (encode_txns d ts)"
proof (induction ts arbitrary: d)
  case (Cons t ts)
  obtain bs d' where "encode_txn d t = (bs, d')" by fastforce
  with encode_txn_length [OF this] Cons.IH [of d'] show ?case by simp
qed simp

lemma decode_encode_txns:
  "dictionary_rel d seen \<Longrightarrow> list_all wf_transaction ts \<Longrightarrow> length d + length (encode_txns d ts) < 2 ^ 64 \<Longrightarrow>
     decode_txns (length ts) seen (encode_txns d ts @ rest) = Inr (ts, rest)"
proof (induction ts arbitrary: d seen)
  case (Cons t ts)
  obtain bs d' where enc: "encode_txn d t = (bs, d')" by fastforce
  have "length d + length bs < 2 ^ 64" and rest: "length d' + length (encode_txns d' ts) < 2 ^ 64"
    using Cons.prems(3) encode_txn_length [OF enc] by (simp_all add: enc)
  with decode_encode_txn [OF Cons.prems(1) enc, of "encode_txns d' ts @ rest"] Cons.prems(2)
  obtain seen' where "decode_txn seen (bs @ encode_txns d' ts @ rest) = Inr ((t, seen'), encode_txns d' ts @ rest)"
    "dictionary_rel d' seen'" by auto
  with Cons.IH [OF this(2) _ rest] Cons.prems(2) show ?case by (simp add: enc)
qed simp

lemma batch_decode_encode:
  assumes "list_all wf_transaction (txns b)" and "length (batch_encode b) < 2 ^ 64"
  shows "batch_decode (batch_encode b) = Inr b"
proof -
  let ?body = "encode_txns [] (txns b)"
  have "length ?body < 2 ^ 64" using assms(2) by (simp add: batch_encode_def)
  moreover from this have "reader_count MIN_ENCODED_TXN_SIZE (put_varint (of_nat (length (txns b))) @ ?body)
      = Inr (length (txns b), ?body)"
    using encode_txns_length [of "txns b" "[]"] by (intro reader_count_put) (simp_all add: MIN_ENCODED_TXN_SIZE_def mult.commute)
  moreover have "expect_version BATCH_VERSION (BATCH_VERSION # xs) = Inr ((), xs)" for xs
    by (simp add: expect_version_def)
  ultimately show ?thesis
    using decode_encode_txns [of "[]" "[]" "txns b" "[]"] assms(1)
    by (simp add: batch_decode_def batch_encode_def reader_finish_def)
qed

section \<open>What a decoder can return\<close>

lemma decode_txn_wf: "decode_txn seen bs = Inr ((t, seen'), rest) \<Longrightarrow> wf_transaction t"
  by (auto simp: decode_txn_def result_simps split: if_splits prod.splits)

lemma decode_txns_wf: "decode_txns n seen bs = Inr (ts, rest) \<Longrightarrow> list_all wf_transaction ts \<and> length ts = n"
proof (induction n arbitrary: seen bs ts)
  case (Suc n)
  then obtain t seen1 rest1 ts' where "decode_txn seen bs = Inr ((t, seen1), rest1)"
    "decode_txns n seen1 rest1 = Inr (ts', rest)" "ts = t # ts'"
    by (auto simp: read_then_Inr_iff)
  with Suc.IH decode_txn_wf show ?case by auto
qed simp

lemma reader_byte_Inr: "reader_byte bs = Inr (b, rest) \<Longrightarrow> bs = b # rest"
  by (cases bs) simp_all

lemma expect_version_Inr: "expect_version v bs = Inr (u, rest) \<longleftrightarrow> bs = v # rest"
  by (auto simp: expect_version_def result_simps split: if_splits dest!: reader_byte_Inr)

lemma batch_decode_wf:
  assumes "batch_decode bs = Inr b"
  shows "list_all wf_transaction (txns b)" and "3 * length (txns b) + 2 \<le> length bs"
proof -
  from assms obtain rest1 count rest2 ts rest where 1: "bs = BATCH_VERSION # rest1"
    and 2: "reader_count MIN_ENCODED_TXN_SIZE rest1 = Inr (count, rest2)"
    and 3: "decode_txns count [] rest2 = Inr (ts, rest)" and b: "b = \<lparr>txns = ts\<rparr>"
    by (auto simp: batch_decode_def result_simps expect_version_Inr)
  show "list_all wf_transaction (txns b)" using decode_txns_wf [OF 3] by (simp add: b)
  have "length rest2 < length rest1"
    using 2 by (auto simp: reader_count_def reader_varint_def result_simps Let_def split: if_splits
        dest: varint_loop_suffix)
  with reader_count_bound [OF 2] decode_txns_wf [OF 3] show "3 * length (txns b) + 2 \<le> length bs"
    by (simp add: 1 b MIN_ENCODED_TXN_SIZE_def)
qed

end
