(* ===== verification/Sidecar_Codec.thy ===== *)
theory Sidecar_Codec
  imports Batch_Codec
begin

text \<open>
  The private half on the wire: witnesses, signatures, \<open>Sidecar::encode\<close> and
  \<open>Sidecar::decode\<close> of \<^verbatim>\<open>crates/payment-rollup/src/codec.rs\<close>. Entries carry no kind tag;
  the decoder is handed the batch and reads each entry in the shape its transaction calls for.
\<close>

definition SIDECAR_VERSION :: byte where "SIDECAR_VERSION = 1"

definition ABSENT :: byte where "ABSENT = 0"
definition PRESENT :: byte where "PRESENT = 1"
definition SLOT_OWN :: byte where "SLOT_OWN = 0"
definition SLOT_NEIGHBOR :: byte where "SLOT_NEIGHBOR = 1"

definition MIN_ENCODED_WITNESS_SIZE :: nat where
  "MIN_ENCODED_WITNESS_SIZE = 1 + 1 + 1"

definition MIN_ENCODED_ENTRY_SIZE :: nat where
  "MIN_ENCODED_ENTRY_SIZE = MIN_ENCODED_WITNESS_SIZE"

section \<open>Witnesses and signatures\<close>

definition put_witness :: "leaf_witness \<Rightarrow> byte list" where
  "put_witness w =
     (case old_account w of None \<Rightarrow> [ABSENT] | Some acc \<Rightarrow> PRESENT # encode_account acc)
     @ put_varint (of_nat (length (siblings (witness_proof w))))
     @ concat (map bytes_of (siblings (witness_proof w)))
     @ (case slot (witness_proof w) of
          Own \<Rightarrow> [SLOT_OWN]
        | Neighbor a acc \<Rightarrow> SLOT_NEIGHBOR # bytes_of a @ encode_account acc)"

definition take_optional_account :: "account option reader" where
  "take_optional_account =
     read_then reader_byte (\<lambda>tag.
       if tag = ABSENT then read_return None
       else if tag = PRESENT then read_then reader_account (\<lambda>acc. read_return (Some acc))
       else read_fail (UnknownPresenceTag tag))"

definition put_signature :: "signature \<Rightarrow> byte list" where
  "put_signature s = scheme_identifier (sig_scheme s) @ put_bytes (sig_pub_key s) @ put_bytes (sig_bytes s)"

definition take_signature :: "signature reader" where
  "take_signature =
     read_then (reader_take SCHEME_SIZE) (\<lambda>ident.
       case from_identifier ident of
         None \<Rightarrow> read_fail (UnknownScheme ident)
       | Some s \<Rightarrow>
           read_then reader_bytes (\<lambda>pub_key.
           read_then reader_bytes (\<lambda>sig.
           read_return \<lparr>sig_scheme = s, sig_pub_key = pub_key, sig_bytes = sig\<rparr>)))"

definition take_slot :: "slot reader" where
  "take_slot =
     read_then reader_byte (\<lambda>kind.
       if kind = SLOT_OWN then read_return Own
       else if kind = SLOT_NEIGHBOR then
         read_then reader_array32 (\<lambda>a. read_then reader_account (\<lambda>acc. read_return (Neighbor a acc)))
       else read_fail (UnknownSlotKind kind))"

definition take_witness :: "leaf_witness reader" where
  "take_witness =
     read_then take_optional_account (\<lambda>old.
     read_then (reader_count 32) (\<lambda>depth.
     if depth > DEPTH then read_fail (ProofTooDeep depth)
     else read_then (read_times depth reader_array32) (\<lambda>sibs.
     read_then take_slot (\<lambda>s.
     read_return \<lparr>old_account = old, witness_proof = from_parts sibs s\<rparr>))))"

section \<open>Entries\<close>

definition put_optional_witness :: "leaf_witness option \<Rightarrow> byte list" where
  "put_optional_witness w = (case w of None \<Rightarrow> [] | Some w \<Rightarrow> put_witness w)"

fun encode_entry :: "txn_sidecar \<Rightarrow> byte list" where
  "encode_entry (PaymentEntry e) =
     put_signature (payment_sig e) @ put_witness (payment_sender_witness e)
     @ put_witness (payment_receiver_witness e) @ put_optional_witness (payment_fee_sink_witness e)"
| "encode_entry (DepositEntry e) = put_witness (deposit_receiver_witness e)"
| "encode_entry (WithdrawalEntry e) =
     put_signature (withdrawal_sig e) @ put_witness (withdrawal_sender_witness e)
     @ put_optional_witness (withdrawal_fee_sink_witness e)"
| "encode_entry (ForcedWithdrawalEntry e) = put_witness (forced_sender_witness e)"

definition sidecar_encode :: "sidecar \<Rightarrow> byte list" where
  "sidecar_encode s =
     SIDECAR_VERSION # put_varint (of_nat (length (entries s))) @ concat (map encode_entry (entries s))"

text \<open>\<open>(fee != 0).then(|| take_witness(&mut reader)).transpose()?\<close>.\<close>

definition take_fee_witness :: "u64 \<Rightarrow> leaf_witness option reader" where
  "take_fee_witness fee =
     (if fee \<noteq> 0 then read_then take_witness (\<lambda>w. read_return (Some w)) else read_return None)"

fun decode_entry :: "transaction \<Rightarrow> txn_sidecar reader" where
  "decode_entry (Payment p) =
     read_then take_signature (\<lambda>sig.
     read_then take_witness (\<lambda>sw.
     read_then take_witness (\<lambda>rw.
     read_then (take_fee_witness (header_fee (payment_header p))) (\<lambda>fw.
     read_return (PaymentEntry \<lparr>payment_sig = sig, payment_sender_witness = sw,
       payment_receiver_witness = rw, payment_fee_sink_witness = fw\<rparr>)))))"
| "decode_entry (Deposit _) =
     read_then take_witness (\<lambda>rw. read_return (DepositEntry \<lparr>deposit_receiver_witness = rw\<rparr>))"
| "decode_entry (Withdrawal w) =
     read_then take_signature (\<lambda>sig.
     read_then take_witness (\<lambda>sw.
     read_then (take_fee_witness (header_fee (withdrawal_header w))) (\<lambda>fw.
     read_return (WithdrawalEntry \<lparr>withdrawal_sig = sig, withdrawal_sender_witness = sw,
       withdrawal_fee_sink_witness = fw\<rparr>))))"
| "decode_entry (ForcedWithdrawal _) =
     read_then take_witness (\<lambda>sw. read_return (ForcedWithdrawalEntry \<lparr>forced_sender_witness = sw\<rparr>))"

primrec decode_entries :: "transaction list \<Rightarrow> txn_sidecar list reader" where
  "decode_entries [] = read_return []"
| "decode_entries (t # ts) =
     read_then (decode_entry t) (\<lambda>e. read_then (decode_entries ts) (\<lambda>es. read_return (e # es)))"

definition sidecar_decode :: "byte list \<Rightarrow> batch \<Rightarrow> decode_error + sidecar" where
  "sidecar_decode bs b =
     (let expected = batch_len b in
      and_then
        (read_then (expect_version SIDECAR_VERSION) (\<lambda>_.
         read_then (reader_count MIN_ENCODED_ENTRY_SIZE) (\<lambda>found.
         if found \<noteq> expected then read_fail (DecodeLengthMismatch expected found)
         else decode_entries (txns b))) bs) (\<lambda>(es, rest).
      and_then (reader_finish rest) (\<lambda>_. Inr \<lparr>entries = es\<rparr>)))"

section \<open>Round trip\<close>

text \<open>What a witness and a signature have to be for their encoding to be read back.\<close>

definition witness_ok :: "leaf_witness \<Rightarrow> bool" where
  "witness_ok w \<longleftrightarrow> length (siblings (witness_proof w)) \<le> DEPTH"

definition signature_ok :: "signature \<Rightarrow> bool" where
  "signature_ok s \<longleftrightarrow> length (sig_pub_key s) < 2 ^ 64 \<and> length (sig_bytes s) < 2 ^ 64"

lemma tags [simp]: "PRESENT \<noteq> ABSENT" "SLOT_NEIGHBOR \<noteq> SLOT_OWN"
  by (simp_all add: PRESENT_def ABSENT_def SLOT_NEIGHBOR_def SLOT_OWN_def)

lemma take_slot_put:
  "take_slot ((case s of Own \<Rightarrow> [SLOT_OWN] | Neighbor a acc \<Rightarrow> SLOT_NEIGHBOR # bytes_of a @ encode_account acc) @ rest)
     = Inr (s, rest)"
  by (cases s) (simp_all add: take_slot_def)

lemma take_optional_account_put:
  "take_optional_account ((case x of None \<Rightarrow> [ABSENT] | Some acc \<Rightarrow> PRESENT # encode_account acc) @ rest)
     = Inr (x, rest)"
  by (cases x) (simp_all add: take_optional_account_def)

lemma take_put_witness:
  assumes "witness_ok w"
  shows "take_witness (put_witness w @ rest) = Inr (w, rest)"
proof -
  let ?sibs = "siblings (witness_proof w)"
  let ?slot = "case slot (witness_proof w) of Own \<Rightarrow> [SLOT_OWN]
    | Neighbor a acc \<Rightarrow> SLOT_NEIGHBOR # bytes_of a @ encode_account acc"
  have len: "length ?sibs \<le> 256" using assms by (simp add: witness_ok_def DEPTH_def)
  have "reader_count 32 (put_varint (of_nat (length ?sibs)) @ concat (map bytes_of ?sibs) @ ?slot @ rest)
      = Inr (length ?sibs, concat (map bytes_of ?sibs) @ ?slot @ rest)"
    using len array32.puts_stride [of ?sibs] by (intro reader_count_put) (simp_all add: list_all_iff)
  moreover have "read_times (length ?sibs) reader_array32 (concat (map bytes_of ?sibs) @ ?slot @ rest)
      = Inr (?sibs, ?slot @ rest)"
    by (rule array32.get_times) (simp add: list_all_iff)
  ultimately show ?thesis
    using len take_optional_account_put [of "old_account w"] take_slot_put [of "slot (witness_proof w)" rest]
    by (cases w; cases "witness_proof w") (simp add: take_witness_def put_witness_def DEPTH_def from_parts_def)
qed

lemma put_witness_size: "3 \<le> length (put_witness w)"
proof -
  have "1 \<le> length (case old_account w of None \<Rightarrow> [ABSENT] | Some acc \<Rightarrow> PRESENT # encode_account acc)"
    and "1 \<le> length (case slot (witness_proof w) of Own \<Rightarrow> [SLOT_OWN]
      | Neighbor a acc \<Rightarrow> SLOT_NEIGHBOR # bytes_of a @ encode_account acc)"
    by (simp_all split: option.splits slot.splits)
  then show ?thesis
    using length_put_varint(1) [of "of_nat (length (siblings (witness_proof w)))"]
    by (simp add: put_witness_def)
qed

interpretation witness_format: byte_format put_witness take_witness witness_ok 3
  by unfold_locales (simp_all add: take_put_witness put_witness_size)

lemma take_put_signature:
  assumes "signature_ok s"
  shows "take_signature (put_signature s @ rest) = Inr (s, rest)"
  using assms reader_take_append [of "scheme_identifier (sig_scheme s)" SCHEME_SIZE]
  by (simp add: take_signature_def put_signature_def signature_ok_def SCHEME_SIZE_def
      bytes_format.get_put del: scheme_identifier.simps)

lemma put_signature_size: "5 \<le> length (put_signature s)"
  using length_put_varint(1) [of "of_nat (length (sig_pub_key s))"]
    length_put_varint(1) [of "of_nat (length (sig_bytes s))"]
  by (simp add: put_signature_def put_bytes_def del: scheme_identifier.simps)

interpretation signature_format: byte_format put_signature take_signature signature_ok 5
  by unfold_locales (simp_all add: take_put_signature put_signature_size)

text \<open>An entry that fits its transaction: the same kind, a fee witness exactly for a fee.\<close>

fun entry_fits :: "transaction \<times> txn_sidecar \<Rightarrow> bool" where
  "entry_fits (Payment p, PaymentEntry e) \<longleftrightarrow>
     signature_ok (payment_sig e) \<and> witness_ok (payment_sender_witness e)
     \<and> witness_ok (payment_receiver_witness e) \<and> pred_option witness_ok (payment_fee_sink_witness e)
     \<and> (header_fee (payment_header p) = 0 \<longleftrightarrow> payment_fee_sink_witness e = None)"
| "entry_fits (Deposit d, DepositEntry e) \<longleftrightarrow> witness_ok (deposit_receiver_witness e)"
| "entry_fits (Withdrawal w, WithdrawalEntry e) \<longleftrightarrow>
     signature_ok (withdrawal_sig e) \<and> witness_ok (withdrawal_sender_witness e)
     \<and> pred_option witness_ok (withdrawal_fee_sink_witness e)
     \<and> (header_fee (withdrawal_header w) = 0 \<longleftrightarrow> withdrawal_fee_sink_witness e = None)"
| "entry_fits (ForcedWithdrawal f, ForcedWithdrawalEntry e) \<longleftrightarrow> witness_ok (forced_sender_witness e)"
| "entry_fits _ \<longleftrightarrow> False"

lemma take_fee_witness_put:
  "pred_option witness_ok w \<Longrightarrow> (fee = 0 \<longleftrightarrow> w = None) \<Longrightarrow>
     take_fee_witness fee (put_optional_witness w @ rest) = Inr (w, rest)"
  by (cases w) (simp_all add: take_fee_witness_def put_optional_witness_def take_put_witness)

lemma decode_encode_entry:
  "entry_fits (t, e) \<Longrightarrow> decode_entry t (encode_entry e @ rest) = Inr (e, rest)"
  by (cases t; cases e)
     (simp_all add: take_put_witness take_put_signature take_fee_witness_put)

lemma encode_entry_size: "3 \<le> length (encode_entry e)"
  using put_witness_size by (cases e) (simp_all add: trans_le_add2 trans_le_add1)

lemma decode_encode_entries:
  "length ts = length es \<Longrightarrow> list_all entry_fits (zip ts es) \<Longrightarrow>
     decode_entries ts (concat (map encode_entry es) @ rest) = Inr (es, rest)"
  by (induction ts es rule: list_induct2) (simp_all add: decode_encode_entry)

lemma entries_size: "length es * 3 \<le> length (concat (map encode_entry es))"
proof (induction es)
  case (Cons e es)
  then show ?case using encode_entry_size [of e] by simp
qed simp

lemma sidecar_decode_encode:
  assumes "length (txns b) = length (entries s)" and "list_all entry_fits (zip (txns b) (entries s))"
    and "length (sidecar_encode s) < 2 ^ 64"
  shows "sidecar_decode (sidecar_encode s) b = Inr s"
proof -
  let ?body = "concat (map encode_entry (entries s))"
  have "length (entries s) * 3 < 2 ^ 64"
    using assms(3) entries_size [of "entries s"] by (simp add: sidecar_encode_def)
  then have "reader_count MIN_ENCODED_ENTRY_SIZE (put_varint (of_nat (length (entries s))) @ ?body)
      = Inr (length (entries s), ?body)"
    using entries_size [of "entries s"]
    by (intro reader_count_put) (simp_all add: MIN_ENCODED_ENTRY_SIZE_def MIN_ENCODED_WITNESS_SIZE_def)
  moreover have "expect_version SIDECAR_VERSION (SIDECAR_VERSION # xs) = Inr ((), xs)" for xs
    by (simp add: expect_version_def)
  ultimately show ?thesis
    using decode_encode_entries [OF assms(1,2), of "[]"] assms(1)
    by (simp add: sidecar_decode_def sidecar_encode_def reader_finish_def batch_len_def)
qed

section \<open>What the decoder can return\<close>

lemma take_witness_ok: "take_witness bs = Inr (w, rest) \<Longrightarrow> witness_ok w"
  by (auto simp: take_witness_def result_simps witness_ok_def from_parts_def not_less
      split: if_splits dest!: read_times_length)

lemma take_signature_ok: "take_signature bs = Inr (s, rest) \<Longrightarrow> signature_ok s"
  by (auto simp: take_signature_def result_simps signature_ok_def split: option.splits
      dest!: reader_bytes_length)

lemma take_fee_witness_ok:
  "take_fee_witness fee bs = Inr (w, rest) \<Longrightarrow> pred_option witness_ok w \<and> (fee = 0 \<longleftrightarrow> w = None)"
  by (auto simp: take_fee_witness_def result_simps split: if_splits dest!: take_witness_ok)

lemma decode_entry_fits: "decode_entry t bs = Inr (e, rest) \<Longrightarrow> entry_fits (t, e)"
  by (cases t)
     (auto simp: result_simps dest!: take_witness_ok take_signature_ok take_fee_witness_ok)

lemma decode_entries_fit:
  "decode_entries ts bs = Inr (es, rest) \<Longrightarrow> length ts = length es \<and> list_all entry_fits (zip ts es)"
proof (induction ts arbitrary: bs es)
  case (Cons t ts)
  then obtain e rest1 es' where "decode_entry t bs = Inr (e, rest1)"
    "decode_entries ts rest1 = Inr (es', rest)" "es = e # es'"
    by (auto simp: read_then_Inr_iff)
  with Cons.IH decode_entry_fits show ?case by auto
qed simp

text \<open>A decoded sidecar lines up with its batch, so the replay never sees a mismatched pair.\<close>

lemma sidecar_decode_fits:
  assumes "sidecar_decode bs b = Inr s"
  shows "length (txns b) = length (entries s)" and "list_all entry_fits (zip (txns b) (entries s))"
  using assms decode_entries_fit
  by (fastforce simp: sidecar_decode_def Let_def result_simps split: if_splits)+

lemma credit_no_mismatch: "credit P a w amt rt \<noteq> Inl SidecarKindMismatch"
  by (auto simp: credit_def expect_pre_state_def root_with_def and_then_Inl_iff ok_or_def Let_def
      split: option.splits if_splits)

lemma signature_verify_no_mismatch: "signature_verify P s acc msg \<noteq> Inl SidecarKindMismatch"
  by (auto simp: signature_verify_def verify_auth_def and_then_Inl_iff split: if_splits
      dest!: crypto_verify_errors)

lemma debit_no_mismatch: "debit P a w sig amt fee rt msg \<noteq> Inl SidecarKindMismatch"
  by (auto simp: debit_def expect_pre_state_def root_with_def and_then_Inl_iff ok_or_def bump_nonce_def
      signature_verify_no_mismatch split: option.splits if_splits)

lemma credit_fee_no_mismatch:
  "(fee = 0 \<longleftrightarrow> w = None) \<Longrightarrow> credit_fee P fee w rt \<noteq> Inl SidecarKindMismatch"
  by (cases w) (auto simp: credit_fee_def credit_no_mismatch)

lemma entry_fits_no_mismatch:
  assumes "entry_fits x"
  shows "verify_txn P domain x st \<noteq> Inl SidecarKindMismatch"
  using assms
  by (induction x rule: entry_fits.induct)
     (auto simp: verify_payment_def verify_deposit_def verify_withdrawal_def verify_forced_def
        and_then_Inl_iff Let_def credit_no_mismatch debit_no_mismatch credit_fee_no_mismatch
        expect_pre_state_def root_with_def ok_or_def bump_nonce_def split: if_splits option.splits)

lemma verify_txns_no_mismatch:
  "list_all entry_fits xs \<Longrightarrow> verify_txns P domain xs st \<noteq> Inl SidecarKindMismatch"
  by (induction xs arbitrary: st) (auto simp: and_then_Inl_iff entry_fits_no_mismatch)

text \<open>The length error is \<open>verify_batch\<close>'s own.\<close>

lemma slot_no_length_mismatch:
  "credit P a w amt rt \<noteq> Inl SidecarLengthMismatch"
  "debit P a w sig amt fee rt msg \<noteq> Inl SidecarLengthMismatch"
  "credit_fee P fee wo rt \<noteq> Inl SidecarLengthMismatch"
proof -
  show c: "credit P a w amt rt \<noteq> Inl SidecarLengthMismatch" for a w amt rt
    by (auto simp: credit_def expect_pre_state_def root_with_def and_then_Inl_iff ok_or_def Let_def
        split: option.splits if_splits)
  have "signature_verify P s acc msg \<noteq> Inl SidecarLengthMismatch" for s acc msg
    by (auto simp: signature_verify_def verify_auth_def and_then_Inl_iff split: if_splits
        dest!: crypto_verify_errors)
  then show "debit P a w sig amt fee rt msg \<noteq> Inl SidecarLengthMismatch"
    by (auto simp: debit_def expect_pre_state_def root_with_def and_then_Inl_iff ok_or_def bump_nonce_def
        split: option.splits if_splits)
  show "credit_fee P fee wo rt \<noteq> Inl SidecarLengthMismatch"
    by (cases wo) (auto simp: credit_fee_def c)
qed

lemma verify_txn_no_length_mismatch: "verify_txn P domain x st \<noteq> Inl SidecarLengthMismatch"
  by (induction P domain x st rule: verify_txn.induct)
     (auto simp: verify_payment_def verify_deposit_def verify_withdrawal_def verify_forced_def
        and_then_Inl_iff Let_def slot_no_length_mismatch
        expect_pre_state_def root_with_def ok_or_def bump_nonce_def split: if_splits option.splits)

lemma verify_txns_no_length_mismatch: "verify_txns P domain xs st \<noteq> Inl SidecarLengthMismatch"
  by (induction xs arbitrary: st) (auto simp: and_then_Inl_iff verify_txn_no_length_mismatch)

end
