(* ===== verification/Wire_Properties.thy ===== *)
theory Wire_Properties
  imports Toy Sidecar_Codec
begin

text \<open>
  What the byte formats, the signed messages and the signature checks promise, each with a
  worked instance: \<^verbatim>\<open>codec.rs\<close>, \<^verbatim>\<open>crypto.rs\<close> and the first part of \<^verbatim>\<open>lib.rs\<close>.
\<close>

section \<open>Examples\<close>

definition ex_payment :: payment where "ex_payment = payment_new (addr 1) (addr 2) 300 10"
definition ex_withdrawal :: withdrawal where "ex_withdrawal = withdrawal_new (addr 2) (addr 9) 100000 0"

definition ex_batch :: batch where
  "ex_batch = \<lparr>txns = [Deposit (deposit_new (addr 1) 200000), Payment ex_payment,
     Withdrawal ex_withdrawal, ForcedWithdrawal (forced_withdrawal_new (addr 1) (addr 9))]\<rparr>"

definition ex_witness :: leaf_witness where
  "ex_witness = \<lparr>old_account = Some (account_new 1 2 (addr 1)),
     witness_proof = \<lparr>siblings = [addr 3, addr 4], slot = Neighbor (addr 5) (account_new 3 4 (addr 5))\<rparr>\<rparr>"

definition ex_signature :: signature where
  "ex_signature = \<lparr>sig_scheme = Ed25519, sig_pub_key = replicate 32 1, sig_bytes = replicate 64 7\<rparr>"

definition ex_sidecar :: sidecar where
  "ex_sidecar = \<lparr>entries = [DepositEntry \<lparr>deposit_receiver_witness = ex_witness\<rparr>,
     PaymentEntry \<lparr>payment_sig = ex_signature, payment_sender_witness = ex_witness,
       payment_receiver_witness = ex_witness, payment_fee_sink_witness = Some ex_witness\<rparr>,
     WithdrawalEntry \<lparr>withdrawal_sig = ex_signature, withdrawal_sender_witness = ex_witness,
       withdrawal_fee_sink_witness = None\<rparr>,
     ForcedWithdrawalEntry \<lparr>forced_sender_witness = ex_witness\<rparr>]\<rparr>"

lemma ex_batch_wf: "list_all wf_transaction (txns ex_batch)"
  by (simp add: ex_batch_def)

lemma ex_batch_size: "length (batch_encode ex_batch) < 2 ^ 64"
proof -
  have "length (batch_encode ex_batch) < 200" by code_simp
  then show ?thesis by simp
qed

lemma ex_sidecar_size: "length (sidecar_encode ex_sidecar) < 2 ^ 64"
  using length_put_varint(2) [of 4] length_put_varint(2) [of 2] length_put_varint(2) [of 32] length_put_varint(2) [of 64]
  by (simp add: sidecar_encode_def ex_sidecar_def put_witness_def put_signature_def put_bytes_def
      put_optional_witness_def ex_witness_def ex_signature_def del: scheme_identifier.simps)

section \<open>Properties of the codec\<close>

text \<open>Varints: reading back what was written gives the number and leaves what followed
  untouched, for every 64-bit value, in one to ten bytes.\<close>

theorem varint_roundtrip:
  "reader_varint (put_varint x @ rest) = Inr (x, rest)
     \<and> 1 \<le> length (put_varint x) \<and> length (put_varint x) \<le> 10"
  using length_put_varint [of x] by simp

text \<open>C24: The published half survives the wire: every batch the program can build decodes from its
  encoding to itself, with the addresses that the encoder replaced by dictionary references, the
  deposit senders and the fees that are not written all restored.\<close>

theorem batch_roundtrip:
  assumes "list_all wf_transaction (txns b)" and "length (batch_encode b) < 2 ^ 64"
  shows "batch_decode (batch_encode b) = Inr b"
  using assms by (rule batch_decode_encode)

lemma batch_roundtrip_witness: "batch_decode (batch_encode ex_batch) = Inr ex_batch"
  by (rule batch_roundtrip [OF ex_batch_wf ex_batch_size])

text \<open>C26: The private half survives the wire, read against its batch: every sidecar whose entries
  fit their transactions decodes from its encoding to itself, although no entry says of what kind
  it is.\<close>

theorem sidecar_roundtrip:
  assumes "length (txns b) = length (entries s)" and "list_all entry_fits (zip (txns b) (entries s))"
    and "length (sidecar_encode s) < 2 ^ 64"
  shows "sidecar_decode (sidecar_encode s) b = Inr s"
  using assms by (rule sidecar_decode_encode)

lemma sidecar_roundtrip_witness: "sidecar_decode (sidecar_encode ex_sidecar) ex_batch = Inr ex_sidecar"
  by (rule sidecar_roundtrip [OF _ _ ex_sidecar_size])
     (simp_all add: ex_batch_def ex_sidecar_def ex_payment_def ex_withdrawal_def witness_ok_def
       signature_ok_def ex_witness_def ex_signature_def DEPTH_def)

text \<open>Whatever bytes decode, every decoded deposit comes from the zero address and pays no fee,
  every forced withdrawal pays no fee, and the number of transactions is at most a third of the
  input: a hostile count cannot make the decoder reserve more than it was given.\<close>

theorem batch_decode_wellformed:
  assumes "batch_decode bs = Inr b"
  shows "(\<forall>d. Deposit d \<in> set (txns b) \<longrightarrow> d = deposit_new (deposit_receiver d) (deposit_amount d))
    \<and> (\<forall>f. ForcedWithdrawal f \<in> set (txns b) \<longrightarrow> header_fee (forced_header f) = 0)
    \<and> 3 * length (txns b) + 2 \<le> length bs"
proof (intro conjI allI impI ballI)
  note wf = batch_decode_wf(1) [OF assms, unfolded list_all_iff]
  show "3 * length (txns b) + 2 \<le> length bs" by (rule batch_decode_wf(2) [OF assms])
  show "d = deposit_new (deposit_receiver d) (deposit_amount d)" if "Deposit d \<in> set (txns b)" for d
    using wf that by (auto simp: wf_deposit_iff)
  show "header_fee (forced_header f) = 0" if "ForcedWithdrawal f \<in> set (txns b)" for f
    using wf that by (auto simp: wf_forced_def)
qed

lemma batch_decode_wellformed_witness:
  "3 * length (txns ex_batch) + 2 \<le> length (batch_encode ex_batch)"
  using batch_decode_wellformed [OF batch_decode_encode [OF ex_batch_wf ex_batch_size]] by blast

text \<open>Nothing may follow the last transaction: a batch encoding with any bytes after it is
  rejected as trailing, so a sequencer cannot smuggle data into the recorded bytes.\<close>

theorem batch_trailing_rejected:
  assumes "list_all wf_transaction (txns b)" and "length (batch_encode b) < 2 ^ 64" and "extra \<noteq> []"
  shows "batch_decode (batch_encode b @ extra) = Inl TrailingBytes"
proof -
  let ?body = "encode_txns [] (txns b)"
  have len: "length ?body < 2 ^ 64" using assms(2) by (simp add: batch_encode_def)
  then have "reader_count MIN_ENCODED_TXN_SIZE (put_varint (of_nat (length (txns b))) @ ?body @ extra)
      = Inr (length (txns b), ?body @ extra)"
    using encode_txns_length [of "txns b" "[]"]
    by (intro reader_count_put) (simp_all add: MIN_ENCODED_TXN_SIZE_def mult.commute)
  moreover have "expect_version BATCH_VERSION (BATCH_VERSION # xs) = Inr ((), xs)" for xs
    by (simp add: expect_version_Inr)
  ultimately show ?thesis
    using decode_encode_txns [of "[]" "[]" "txns b" extra] assms(1,3) len
    by (simp add: batch_decode_def batch_encode_def reader_finish_def)
qed

lemma batch_trailing_rejected_witness: "batch_decode (batch_encode ex_batch @ [0]) = Inl TrailingBytes"
  by (rule batch_trailing_rejected [OF ex_batch_wf ex_batch_size]) simp

text \<open>C33: A sidecar that decodes lines up with its batch: one entry per transaction, each of its
  transaction's kind, a fee-sink witness exactly where there is a fee, no proof deeper than the
  tree. So the replay of a decoded pair never fails for a mismatched pair.\<close>

theorem sidecar_decode_aligned:
  assumes "sidecar_decode bs b = Inr s"
  shows "length (txns b) = length (entries s) \<and> list_all entry_fits (zip (txns b) (entries s))
    \<and> verify_txns P domain (zip (txns b) (entries s)) st \<noteq> Inl SidecarKindMismatch"
  using sidecar_decode_fits [OF assms] verify_txns_no_mismatch by blast

lemma sidecar_decode_aligned_witness:
  "verify_txns toy zero32 (zip (txns ex_batch) (entries ex_sidecar))
     \<lparr>running_root = zero32, running_inbox = zero32, running_payouts = []\<rparr> \<noteq> Inl SidecarKindMismatch"
proof -
  have "sidecar_decode (sidecar_encode ex_sidecar) ex_batch = Inr ex_sidecar"
    by (rule sidecar_decode_encode [OF _ _ ex_sidecar_size])
       (simp_all add: ex_batch_def ex_sidecar_def ex_payment_def ex_withdrawal_def witness_ok_def
         signature_ok_def ex_witness_def ex_signature_def DEPTH_def)
  from sidecar_decode_aligned [OF this] show ?thesis by blast
qed

text \<open>Account states and scheme identifiers survive the wire in both directions: 48 bytes are
  exactly one account state, and three bytes name at most one scheme.\<close>

theorem account_scheme_roundtrip:
  "decode_account (encode_account acc) = acc
     \<and> (length bs = ENCODED_ACCOUNT_SIZE \<longrightarrow> encode_account (decode_account bs) = bs)
     \<and> (from_identifier ident = Some s \<longleftrightarrow> ident = scheme_identifier s)"
  using encode_decode_account [of bs]
  by (simp add: from_identifier_Some_iff ENCODED_ACCOUNT_SIZE_def del: scheme_identifier.simps)

lemma account_scheme_roundtrip_witness:
  "encode_account (decode_account (replicate 48 3)) = replicate 48 3"
  using account_scheme_roundtrip [of _ "replicate 48 3"] by (simp add: ENCODED_ACCOUNT_SIZE_def)

section \<open>Properties of what is signed\<close>

text \<open>C31: A signed message commits to everything it authorizes: two payments, or two withdrawals,
  with the same bytes are the same spend in the same deployment at the same nonce, and no payment's
  bytes are a withdrawal's.\<close>

theorem signed_bytes_commit:
  "(payment_bytes_to_sign p d n = payment_bytes_to_sign q e k \<longleftrightarrow> p = q \<and> d = e \<and> n = k)
   \<and> (withdrawal_bytes_to_sign v d n = withdrawal_bytes_to_sign w e k \<longleftrightarrow> v = w \<and> d = e \<and> n = k)
   \<and> payment_bytes_to_sign p d n \<noteq> withdrawal_bytes_to_sign w e k
   \<and> length (payment_bytes_to_sign p d n) = ENCODED_TX_SIZE"
  by (simp add: payment_bytes_to_sign_inject withdrawal_bytes_to_sign_inject
      payment_withdrawal_bytes_disjoint)
     (simp add: payment_bytes_to_sign_def ENCODED_TX_SIZE_def SIGN_TAG_SIZE_def)

text \<open>An address commits to the scheme and to the whole key: two keys with the same address are
  the same key under the same scheme, short of a collision.\<close>

theorem address_commits_to_key:
  assumes "collision_free H [ascii ''ADDR'' @ scheme_identifier s @ k, ascii ''ADDR'' @ scheme_identifier t @ l]"
    and "address_from_public_key H s k = address_from_public_key H t l"
  shows "s = t \<and> k = l"
proof -
  have "ascii ''ADDR'' @ scheme_identifier s @ k = ascii ''ADDR'' @ scheme_identifier t @ l"
    using assms(2) by (intro collision_freeD [OF assms(1)]) (simp_all add: address_from_public_key_def)
  then show ?thesis by (simp del: scheme_identifier.simps)
qed

lemma address_commits_to_key_witness:
  "Ed25519 = Ed25519 \<and> replicate 32 (1 :: byte) = replicate 32 1"
  by (rule address_commits_to_key [where H = toy_hash]) code_simp+

text \<open>C32: A hybrid signature is accepted exactly when key and signature have the hybrid's sizes and
  both halves accept the same message: the first 32 and 64 bytes as Ed25519, the rest as Falcon.
  Breaking one half alone is not enough.\<close>

theorem hybrid_needs_both_halves:
  "crypto_verify P Falcon1024HybridEd25519 key sig msg = Inr () \<longleftrightarrow>
     length key = 32 + 1793 \<and> 64 + 2 \<le> length sig \<and> length sig \<le> 64 + 1423 \<and>
     crypto_verify P Ed25519 (take 32 key) (take 64 sig) msg = Inr () \<and>
     falcon_det1024_verify_compressed P (drop 64 sig) (drop 32 key) msg = 0"
  unfolding crypto_verify_hybrid_iff crypto_verify_ed25519_iff by (auto simp: min_def)

text \<open>A signature authorizes an account exactly when the hash of its scheme and key is the
  account's authorization address and the scheme's own check accepts the message; a valid
  signature under the wrong account is \<open>InvalidAuthAddress\<close>, whatever else is wrong with it.\<close>

theorem signature_verify_spec:
  "(signature_verify P s acc msg = Inr () \<longleftrightarrow>
      address_from_public_key (sha256 P) (sig_scheme s) (sig_pub_key s) = auth_address acc \<and>
      crypto_verify P (sig_scheme s) (sig_pub_key s) (sig_bytes s) msg = Inr ())
   \<and> (signature_verify P s acc msg = Inl InvalidAuthAddress \<longleftrightarrow>
      address_from_public_key (sha256 P) (sig_scheme s) (sig_pub_key s) \<noteq> auth_address acc)"
  by (auto simp: signature_verify_def verify_auth_def signature_address_def and_then_Inl_iff
      and_then_Inr_iff dest: crypto_verify_errors)

text \<open>The nonce goes up by exactly one, and at the top of its range it is refused instead of
  wrapping to a value that was used before.\<close>

theorem bump_nonce_never_wraps:
  "(bump_nonce acc = Inr acc' \<longleftrightarrow>
      unat (nonce acc') = unat (nonce acc) + 1 \<and> acc' = acc\<lparr>nonce := nonce acc'\<rparr>)
   \<and> (bump_nonce acc = Inl e \<longleftrightarrow> e = InvalidNonce \<and> nonce acc = - 1)"
proof -
  have "bump_nonce acc = Inr acc' \<longleftrightarrow>
      unat (nonce acc') = unat (nonce acc) + 1 \<and> acc' = acc\<lparr>nonce := nonce acc'\<rparr>"
    by (cases acc; cases acc') (auto simp: bump_nonce_def and_then_Inr_iff ok_or_Inr_iff checked_add_Some_iff)
  then show ?thesis by (simp add: bump_nonce_Inl_iff)
qed

end
