(* ===== verification/Chain_Properties.thy ===== *)
theory Chain_Properties
  imports Toy Replay
begin

text \<open>
  What the chains and the batch commitment promise the settlement contract, each with a worked
  instance. A hash chain cannot pin anything if the hash collides, so the theorems ask that the
  strings actually hashed do not.
\<close>

section \<open>The inbox chain\<close>

text \<open>The inbox chain makes a batch consume exactly what L1 accepted. L1 has settled the items
  \<open>h\<close> and accepted \<open>pending\<close> since; a batch anchored at the settled value that reaches the value
  L1 holds consumes \<open>pending\<close>: nothing invented, dropped, reordered or altered.\<close>

theorem inbox_chain_pins_pending:
  assumes "verify_batch P domain old_root anchor b s = Inr (rt, inbox_chain, wchain)"
    and "anchor = inbox.fold_chain (sha256 P) INBOX_CHAIN_GENESIS h"
    and "inbox_chain = inbox.fold_chain (sha256 P) INBOX_CHAIN_GENESIS (h @ pending)"
    and "collision_free (sha256 P) (inbox.preimages (sha256 P) INBOX_CHAIN_GENESIS (h @ batch_inbox_items b)
           @ inbox.preimages (sha256 P) INBOX_CHAIN_GENESIS (h @ pending))"
  shows "batch_inbox_items b = pending"
  using inbox.chain_pins_suffix [of "sha256 P" h "batch_inbox_items b" pending]
    verify_batch_outputs(1) [OF assms(1)] assms(2-4)
  by (simp add: INBOX_CHAIN_GENESIS_def)

definition ex_deposit_entry :: txn_sidecar where
  "ex_deposit_entry = DepositEntry \<lparr>deposit_receiver_witness =
     \<lparr>old_account = None, witness_proof = \<lparr>siblings = [], slot = Own\<rparr>\<rparr>\<rparr>"

definition ex_deposits :: batch where
  "ex_deposits = \<lparr>txns = [Deposit (deposit_new (addr 1) 200)]\<rparr>"

lemma inbox_chain_pins_pending_witness:
  "batch_inbox_items ex_deposits = [InboxDeposit (addr 1) 200]"
proof -
  let ?H = "sha256 toy" and ?h = "[InboxForcedWithdrawal (addr 3) (addr 9)]" and ?p = "[InboxDeposit (addr 1) 200]"
  let ?anchor = "inbox.fold_chain ?H INBOX_CHAIN_GENESIS ?h"
  have empty: "root_from_proof ?H (addr 1) None \<lparr>siblings = [], slot = Own\<rparr> = Some EMPTY_SUBTREE"
    "root_from_proof ?H (addr 1) (Some x) \<lparr>siblings = [], slot = Own\<rparr> = Some (leaf_hash ?H (addr 1) x)" for x
    by (simp_all add: root_from_proof_def slot_hash_def)
  have "verify_batch toy zero32 EMPTY_SUBTREE ?anchor ex_deposits \<lparr>entries = [ex_deposit_entry]\<rparr>
      = Inr (leaf_hash ?H (addr 1) (account_new 0 200 (addr 1)),
             inbox.fold_chain ?H INBOX_CHAIN_GENESIS (?h @ ?p), withdrawal_chain_terminal ?H zero32)"
    by (simp add: verify_batch_def ex_deposits_def ex_deposit_entry_def verify_deposit_def credit_def
        expect_pre_state_def root_with_def empty account_empty_def account_new_def checked_add_unat
        accumulate_inbox Let_def del: toy_simps)
  moreover have "collision_free ?H [inbox_step INBOX_CHAIN_GENESIS (InboxForcedWithdrawal (addr 3) (addr 9)),
      inbox_step (toy_hash (inbox_step INBOX_CHAIN_GENESIS (InboxForcedWithdrawal (addr 3) (addr 9)))) (InboxDeposit (addr 1) 200)]"
    by code_simp
  ultimately show ?thesis
    by (intro inbox_chain_pins_pending [where P = toy and h = ?h and pending = ?p])
       (auto elim!: collision_free_mono simp: ex_deposits_def batch_inbox_items_def map_filter_def)
qed

section \<open>The withdrawal chain\<close>

text \<open>The links handed to L1 pay the batch's payouts, in order, each exactly once: the contract,
  holding the committed chain, accepts them one after the other and ends at the terminal value,
  where the next batch may open.\<close>

theorem withdrawal_links_settle:
  "pay_links H (withdrawal_chain H domain payouts) (withdrawal_links H domain payouts)
     = Some (withdrawal_chain_terminal H domain)
   \<and> map link_payout (withdrawal_links H domain payouts) = payouts"
  by (simp add: pay_withdrawal_links)

text \<open>No other sequence of payouts is accepted: any links that take the contract from the
  committed chain to the terminal value pay precisely the committed payouts in their order, short
  of a collision. A payout cannot be repeated, skipped, redirected or resized.\<close>

theorem withdrawal_links_only:
  assumes "pay_links H (withdrawal_chain H domain payouts) links = Some (withdrawal_chain_terminal H domain)"
    and "collision_free H (payout_preimages H domain payouts @ payout_preimages H domain (map link_payout links))"
  shows "map link_payout links = payouts"
  using assms by (rule pay_links_only)

lemma withdrawal_links_only_witness:
  "map link_payout (withdrawal_links toy_hash zero32 [(addr 1, 100000), (addr 2, 200000)])
     = [(addr 1, 100000), (addr 2, 200000)]"
  by (rule withdrawal_links_only [OF pay_withdrawal_links]) (simp add: payout_preimages_def, code_simp)

text \<open>\<open>withdrawal_payouts\<close> reads out exactly the payouts the replay committed to: for a batch
  that verifies, the chain over its result is the withdrawal chain in the public values. The
  repeated minimum condition cannot drift from the one the replay applies.\<close>

theorem withdrawal_payouts_match_commitment:
  assumes "verify_batch P domain old_root anchor b s = Inr (rt, inbox_chain, wchain)"
  shows "wchain = withdrawal_chain (sha256 P) domain (withdrawal_payouts b s)"
  using assms by (rule verify_batch_outputs(2))

lemma withdrawal_payouts_match_commitment_witness:
  "withdrawal_chain_terminal toy_hash zero32
     = withdrawal_chain (sha256 toy) zero32 (withdrawal_payouts \<lparr>txns = []\<rparr> \<lparr>entries = []\<rparr>)"
  by (rule withdrawal_payouts_match_commitment [where old_root = zero32 and anchor = zero32])
     (simp add: verify_batch_def)

section \<open>The batch commitment\<close>

text \<open>C28: The commitment pins the bytes: two batches with the same commitment are the same bytes in
  the same deployment, short of a collision between the chunks and fold steps hashed, although
  chunk digests carry no tag.\<close>

theorem batch_commitment_binds:
  assumes "collision_free H (commitment_preimages H d bs @ commitment_preimages H e cs)"
    and "batch_commitment H d bs = batch_commitment H e cs"
  shows "d = e \<and> bs = cs"
  using assms by (rule batch_commitment_pins)

lemma batch_commitment_binds_witness: "zero32 = (zero32 :: deployment_domain) \<and> [1, 2] = [1, 2 :: byte]"
proof (rule batch_commitment_binds [where H = toy_hash])
  have chunk: "chunks 4094 [1, 2 :: byte] = [[1, 2]]" by (simp add: chunks_step)
  have "collision_free toy_hash [chunk_anchor (zero32, 2), chunk_step (toy_hash (chunk_anchor (zero32, 2))) (toy_hash [1, 2]), [1, 2]]"
    by code_simp
  then show "collision_free toy_hash (commitment_preimages toy_hash zero32 [1, 2] @ commitment_preimages toy_hash zero32 [1, 2])"
    by (rule collision_free_mono) (simp add: commitment_preimages_def chunk)
qed (rule refl)

text \<open>The contract reaches the guest's commitment and no other: told the length and handed
  chunks of the sizes the length fixes, it accepts a sequence of chunks exactly when they are the
  canonical cut of bytes of that length, and then holds the commitment to those bytes.\<close>

theorem posted_chunks_reach_commitment:
  "post_chunks H len (chunk_accumulator_seed H domain len) cs = Some r \<longleftrightarrow>
     len = length (concat cs) \<and> cs = chunks CHUNK_SIZE (concat cs)
     \<and> r = batch_commitment H domain (concat cs)"
  by (rule post_chunks_commitment)

text \<open>Chunking loses nothing and every chunk fits: the chunks concatenate to the batch, there
  are \<open>chunk_count\<close> of them, and each is between one byte and what one application argument holds
  after the ABI length prefix, and so hashable in one AVM step.\<close>

theorem chunks_fit_transactions:
  "concat (chunks CHUNK_SIZE bs) = bs
   \<and> length (chunks CHUNK_SIZE bs) = chunk_count (length bs)
   \<and> list_all (\<lambda>c. 0 < length c \<and> length c + ABI_LENGTH_PREFIX \<le> MAX_APP_ARG
        \<and> length c \<le> AVM_MAX_BYTE_SLICE) (chunks CHUNK_SIZE bs)"
proof -
  have "0 < length c \<and> length c + ABI_LENGTH_PREFIX \<le> MAX_APP_ARG \<and> length c \<le> AVM_MAX_BYTE_SLICE"
    if "c \<in> set (chunks CHUNK_SIZE bs)" for c
    using chunks_bound [OF that] by (simp add: ABI_LENGTH_PREFIX_def MAX_APP_ARG_def AVM_MAX_BYTE_SLICE_def)
  then show ?thesis by (simp add: length_chunks chunk_count_def list_all_iff)
qed

text \<open>The public values are the six words, in the documented order, at offsets 0, 32, 64, 96, 128
  and 160 of 192 bytes; in particular two runs with the same public values agree on every word.\<close>

theorem public_values_layout:
  "public_values H domain old_root new_root bs old_inbox new_inbox wchain =
     bytes_of old_root @ bytes_of new_root @ bytes_of (batch_commitment H domain bs)
       @ bytes_of old_inbox @ bytes_of new_inbox @ bytes_of wchain
   \<and> length (public_values H domain old_root new_root bs old_inbox new_inbox wchain) = PUBLIC_VALUES_SIZE"
  by (simp add: public_values_eq PUBLIC_VALUES_SIZE_def)

end
