(* ===== verification/State_Spec.thy ===== *)
theory State_Spec
  imports Chains
begin

text \<open>
  What a batch means, on an address-to-account map and with neither tree nor witness: the
  specification both sides are proved against, the replay of \<open>Replay\<close> (which only sees roots)
  and the sequencer's \<open>Ledger\<close> (which only sees its own map and tree). The items a run consumes
  from the inbox and the payouts it owes are lists here; the chains are folds over them.
\<close>

section \<open>The specification\<close>

type_synonym account_map = "address \<rightharpoonup> account"

record rollup =
  spec_accounts :: account_map
  spec_items :: "inbox_item list"
  spec_payouts :: "(l1_address \<times> u64) list"

definition balance_of :: "account option \<Rightarrow> u64" where
  "balance_of x = (case x of None \<Rightarrow> 0 | Some a \<Rightarrow> amount a)"

definition spend ::
  "primitives \<Rightarrow> signature \<Rightarrow> u64 \<Rightarrow> u64 \<Rightarrow> (u64 \<Rightarrow> byte list) \<Rightarrow> account
     \<Rightarrow> verification_error + account" where
  "spend P sig amt fee message acc =
     and_then (bump_nonce acc) (\<lambda>acc.
     and_then (signature_verify P sig acc (message (nonce acc))) (\<lambda>_.
     and_then (ok_or InsufficientFunds
        (Option.bind (checked_sub (amount acc) amt) (\<lambda>balance. checked_sub balance fee))) (\<lambda>balance.
     Inr (acc\<lparr>amount := balance\<rparr>))))"

definition receive :: "address \<Rightarrow> u64 \<Rightarrow> account option \<Rightarrow> verification_error + account" where
  "receive a amt x =
     (let acc = (case x of None \<Rightarrow> account_empty a | Some acc \<Rightarrow> acc) in
      and_then (ok_or AmountOverflow (checked_add (amount acc) amt)) (\<lambda>balance.
      Inr (acc\<lparr>amount := balance\<rparr>)))"

definition spec_debit ::
  "primitives \<Rightarrow> address \<Rightarrow> signature \<Rightarrow> u64 \<Rightarrow> u64 \<Rightarrow> (u64 \<Rightarrow> byte list) \<Rightarrow> account_map
     \<Rightarrow> verification_error + account_map" where
  "spec_debit P a sig amt fee message m =
     and_then (ok_or UnknownSender (m a)) (\<lambda>acc.
     and_then (spend P sig amt fee message acc) (\<lambda>acc. Inr (m(a \<mapsto> acc))))"

definition spec_credit :: "address \<Rightarrow> u64 \<Rightarrow> account_map \<Rightarrow> verification_error + account_map" where
  "spec_credit a amt m = and_then (receive a amt (m a)) (\<lambda>acc. Inr (m(a \<mapsto> acc)))"

definition spec_fee :: "u64 \<Rightarrow> account_map \<Rightarrow> verification_error + account_map" where
  "spec_fee fee m = (if fee = 0 then Inr m else spec_credit FEE_SINK fee m)"

definition spec_empty :: "address \<Rightarrow> account_map \<Rightarrow> verification_error + account_map" where
  "spec_empty a m =
     (if balance_of (m a) \<ge> MIN_WITHDRAWAL
      then and_then (ok_or UnknownSender (m a)) (\<lambda>acc.
           and_then (bump_nonce (acc\<lparr>amount := 0\<rparr>)) (\<lambda>acc. Inr (m(a \<mapsto> acc))))
      else Inr m)"

fun spec_txn ::
  "primitives \<Rightarrow> deployment_domain \<Rightarrow> signed_transaction \<Rightarrow> rollup \<Rightarrow> verification_error + rollup" where
  "spec_txn P domain (SignedPayment p sig) st =
     and_then (spec_debit P (header_sender (payment_header p)) sig (payment_amount p)
        (header_fee (payment_header p)) (payment_bytes_to_sign p domain) (spec_accounts st)) (\<lambda>m.
     and_then (spec_credit (payment_receiver p) (payment_amount p) m) (\<lambda>m.
     and_then (spec_fee (header_fee (payment_header p)) m) (\<lambda>m.
     Inr (st\<lparr>spec_accounts := m\<rparr>))))"
| "spec_txn P domain (SignedDeposit d) st =
     and_then (spec_credit (deposit_receiver d) (deposit_amount d) (spec_accounts st)) (\<lambda>m.
     Inr (st\<lparr>spec_accounts := m,
             spec_items := spec_items st @ [InboxDeposit (deposit_receiver d) (deposit_amount d)]\<rparr>))"
| "spec_txn P domain (SignedWithdrawal w sig) st =
     (if withdrawal_amount w < MIN_WITHDRAWAL then Inl WithdrawalTooSmall
      else
        and_then (spec_debit P (header_sender (withdrawal_header w)) sig (withdrawal_amount w)
           (header_fee (withdrawal_header w)) (withdrawal_bytes_to_sign w domain) (spec_accounts st)) (\<lambda>m.
        and_then (spec_fee (header_fee (withdrawal_header w)) m) (\<lambda>m.
        Inr (st\<lparr>spec_accounts := m,
                spec_payouts := spec_payouts st @ [(withdrawal_recipient w, withdrawal_amount w)]\<rparr>))))"
| "spec_txn P domain (SignedForcedWithdrawal f) st =
     (let a = header_sender (forced_header f); balance = balance_of (spec_accounts st a) in
      and_then (spec_empty a (spec_accounts st)) (\<lambda>m.
      Inr (st\<lparr>spec_accounts := m,
              spec_items := spec_items st @ [InboxForcedWithdrawal a (forced_recipient f)],
              spec_payouts := spec_payouts st @
                (if balance \<ge> MIN_WITHDRAWAL then [(forced_recipient f, balance)] else [])\<rparr>)))"

primrec spec_txns ::
  "primitives \<Rightarrow> deployment_domain \<Rightarrow> signed_transaction list \<Rightarrow> rollup \<Rightarrow> verification_error + rollup" where
  "spec_txns P domain [] st = Inr st"
| "spec_txns P domain (x # xs) st = and_then (spec_txn P domain x st) (\<lambda>st. spec_txns P domain xs st)"

lemma spec_txns_induct [consumes 1, case_names Nil Cons]:
  assumes "spec_txns P domain xs st = Inr st'"
    and "\<And>st. Q [] st st"
    and "\<And>x xs st st1 st2. spec_txn P domain x st = Inr st1 \<Longrightarrow> spec_txns P domain xs st1 = Inr st2 \<Longrightarrow>
      Q xs st1 st2 \<Longrightarrow> Q (x # xs) st st2"
  shows "Q xs st st'"
  using assms(1)
proof (induction xs arbitrary: st)
  case (Cons x xs)
  then show ?case using assms(3) by (auto simp: result_simps)
qed (use assms(2) in simp)

section \<open>Successful steps, one fact per operation\<close>

lemma spend_Inr_iff [result_simps]:
  "spend P sig amt fee message acc = Inr acc' \<longleftrightarrow>
     unat (nonce acc) + 1 < 2 ^ 64 \<and>
     signature_verify P sig (acc\<lparr>nonce := nonce acc + 1\<rparr>) (message (nonce acc + 1)) = Inr () \<and>
     unat amt + unat fee \<le> unat (amount acc) \<and>
     acc' = acc\<lparr>nonce := nonce acc + 1, amount := amount acc - amt - fee\<rparr>"
proof -
  have "(Option.bind (checked_sub (amount acc) amt) (\<lambda>b. checked_sub b fee) = Some c)
      \<longleftrightarrow> unat amt + unat fee \<le> unat (amount acc) \<and> c = amount acc - amt - fee" for c
    by (auto simp: checked_sub_def word_le_nat_alt unat_sub)
  then show ?thesis
    by (auto simp: spend_def result_simps)
qed

lemma receive_Inr_iff [result_simps]:
  "receive a amt x = Inr acc' \<longleftrightarrow>
     (let acc = (case x of None \<Rightarrow> account_empty a | Some acc \<Rightarrow> acc) in
      unat (amount acc) + unat amt < 2 ^ 64 \<and> acc' = acc\<lparr>amount := amount acc + amt\<rparr>)"
  by (auto simp: receive_def checked_add_unat Let_def result_simps split: option.splits if_splits)

lemma spec_debit_Inr_iff [result_simps]:
  "spec_debit P a sig amt fee message m = Inr m' \<longleftrightarrow>
     (\<exists>acc acc'. m a = Some acc \<and> spend P sig amt fee message acc = Inr acc' \<and> m' = m(a \<mapsto> acc'))"
  by (auto simp: spec_debit_def and_then_Inr_iff ok_or_Inr_iff)

lemma spec_credit_Inr_iff [result_simps]:
  "spec_credit a amt m = Inr m' \<longleftrightarrow> (\<exists>acc. receive a amt (m a) = Inr acc \<and> m' = m(a \<mapsto> acc))"
  by (auto simp: spec_credit_def and_then_Inr_iff)

lemma MIN_WITHDRAWAL_pos [simp]: "\<not> MIN_WITHDRAWAL \<le> 0"
  by (simp add: MIN_WITHDRAWAL_def)

lemma spec_empty_Inr_iff [result_simps]:
  "spec_empty a m = Inr m' \<longleftrightarrow>
     (if balance_of (m a) \<ge> MIN_WITHDRAWAL
      then \<exists>acc. m a = Some acc \<and> unat (nonce acc) + 1 < 2 ^ 64
             \<and> m' = m(a \<mapsto> acc\<lparr>amount := 0, nonce := nonce acc + 1\<rparr>)
      else m' = m)"
  by (auto simp: spec_empty_def result_simps)

section \<open>Conservation of value\<close>

definition total :: "account_map \<Rightarrow> nat" where
  "total m = (\<Sum>a\<in>dom m. unat (balance_of (m a)))"

definition deposited :: "inbox_item list \<Rightarrow> nat" where
  "deposited items = sum_list (map (\<lambda>i. case i of InboxDeposit _ amt \<Rightarrow> unat amt | _ \<Rightarrow> 0) items)"

definition paid_out :: "(l1_address \<times> u64) list \<Rightarrow> nat" where
  "paid_out ps = sum_list (map (unat \<circ> snd) ps)"

lemma deposited_append [simp]: "deposited (xs @ ys) = deposited xs + deposited ys"
  by (simp add: deposited_def)

lemma paid_out_append [simp]: "paid_out (xs @ ys) = paid_out xs + paid_out ys"
  by (simp add: paid_out_def)

lemma deposited_simps [simp]:
  "deposited [] = 0"
  "deposited (InboxDeposit r amt # xs) = unat amt + deposited xs"
  "deposited (InboxForcedWithdrawal r l # xs) = deposited xs"
  by (simp_all add: deposited_def)

lemma paid_out_simps [simp]:
  "paid_out [] = 0"
  "paid_out ((r, amt) # xs) = unat amt + paid_out xs"
  by (simp_all add: paid_out_def)

lemma balance_of_simps [simp]: "balance_of None = 0" "balance_of (Some acc) = amount acc"
  by (simp_all add: balance_of_def)

lemma total_update:
  assumes "finite (dom m)"
  shows "total (m(a \<mapsto> x)) + unat (balance_of (m a)) = total m + unat (amount x)"
proof -
  have "total (m(a \<mapsto> x)) = unat (amount x) + (\<Sum>b\<in>dom m - {a}. unat (balance_of (m b)))"
    using assms by (simp add: total_def sum.insert_remove)
  moreover have "total m = unat (balance_of (m a)) + (\<Sum>b\<in>dom m - {a}. unat (balance_of (m b)))"
  proof (cases "a \<in> dom m")
    case True
    then show ?thesis using assms by (simp add: total_def sum.remove)
  next
    case False
    then have "m a = None" and "dom m - {a} = dom m" by auto
    then show ?thesis by (simp add: total_def)
  qed
  ultimately show ?thesis by simp
qed

lemma spec_debit_total:
  assumes "spec_debit P a sig amt fee message m = Inr m'" and "finite (dom m)"
  shows "total m' + unat amt + unat fee = total m" and "finite (dom m')"
proof -
  from assms(1) obtain acc where m: "m a = Some acc" and le: "unat amt + unat fee \<le> unat (amount acc)"
    and m': "m' = m(a \<mapsto> acc\<lparr>nonce := nonce acc + 1, amount := amount acc - amt - fee\<rparr>)"
    by (auto simp: result_simps)
  have "amt \<le> amount acc" and "fee \<le> amount acc - amt"
    using le by (auto simp: word_le_nat_alt unat_sub)
  then have "unat (amount acc - amt - fee) = unat (amount acc) - unat amt - unat fee"
    by (simp add: unat_sub)
  with total_update [OF assms(2), of a "acc\<lparr>nonce := nonce acc + 1, amount := amount acc - amt - fee\<rparr>"]
    m le show "total m' + unat amt + unat fee = total m"
    by (simp add: m')
  show "finite (dom m')" using assms(2) by (simp add: m')
qed

lemma spec_credit_total:
  assumes "spec_credit a amt m = Inr m'" and "finite (dom m)"
  shows "total m' = total m + unat amt" and "finite (dom m')"
proof -
  define acc where "acc = (case m a of None \<Rightarrow> account_empty a | Some acc \<Rightarrow> acc)"
  from assms(1) have lt: "unat (amount acc) + unat amt < 2 ^ 64"
    and m': "m' = m(a \<mapsto> acc\<lparr>amount := amount acc + amt\<rparr>)"
    by (auto simp: result_simps acc_def Let_def)
  have "unat (amount acc + amt) = unat (amount acc) + unat amt"
    using lt by (simp add: unat_word_ariths)
  moreover have "balance_of (m a) = amount acc"
    by (simp add: acc_def account_empty_def account_new_def split: option.splits)
  ultimately show "total m' = total m + unat amt"
    using total_update [OF assms(2), of a "acc\<lparr>amount := amount acc + amt\<rparr>"] by (simp add: m')
  show "finite (dom m')" using assms(2) by (simp add: m')
qed

lemma spec_fee_total:
  assumes "spec_fee fee m = Inr m'" and "finite (dom m)"
  shows "total m' = total m + unat fee" and "finite (dom m')"
  using assms spec_credit_total [of FEE_SINK fee m m'] by (auto simp: spec_fee_def split: if_splits)

lemma spec_empty_total:
  assumes "spec_empty a m = Inr m'" and "finite (dom m)"
  shows "total m' + (if balance_of (m a) \<ge> MIN_WITHDRAWAL then unat (balance_of (m a)) else 0) = total m"
    and "finite (dom m')"
  using assms total_update [OF assms(2), of a "_\<lparr>amount := 0, nonce := _\<rparr>"]
  by (auto simp: result_simps split: if_splits)

text \<open>
  One transaction: what accounts hold, plus what is owed to L1, changes by what was deposited.
\<close>

lemma spec_txn_conserves:
  assumes "spec_txn P domain x st = Inr st'" and fin: "finite (dom (spec_accounts st))"
  shows "total (spec_accounts st') + paid_out (spec_payouts st') + deposited (spec_items st)
     = total (spec_accounts st) + paid_out (spec_payouts st) + deposited (spec_items st')"
    and "finite (dom (spec_accounts st'))"
  using assms
  by (cases x; force simp: and_then_Inr_iff Let_def split: if_splits
      dest: spec_debit_total spec_credit_total spec_fee_total spec_empty_total)+

lemma spec_txns_conserves:
  assumes "spec_txns P domain xs st = Inr st'" and "finite (dom (spec_accounts st))"
  shows "total (spec_accounts st') + paid_out (spec_payouts st') + deposited (spec_items st)
     = total (spec_accounts st) + paid_out (spec_payouts st) + deposited (spec_items st')
     \<and> finite (dom (spec_accounts st'))"
  using assms
proof (induction rule: spec_txns_induct)
  case (Cons x xs st st1 st2)
  from spec_txn_conserves [OF Cons(1,4)] Cons.IH show ?case by simp
qed simp

section \<open>Accounts over time\<close>

text \<open>
  \<open>grows a x y\<close>: how the slot of \<open>a\<close> may change over any run. An account never leaves, keeps the
  key it is bound to and never goes back to a smaller nonce; one that appears is bound to the
  address itself, so nobody chooses the key of an account they bring into existence.
\<close>

definition nonce_of :: "account option \<Rightarrow> nat" where
  "nonce_of x = (case x of None \<Rightarrow> 0 | Some acc \<Rightarrow> unat (nonce acc))"

definition auth_of :: "address \<Rightarrow> account option \<Rightarrow> address" where
  "auth_of a x = (case x of None \<Rightarrow> a | Some acc \<Rightarrow> auth_address acc)"

definition grows :: "address \<Rightarrow> account option \<Rightarrow> account option \<Rightarrow> bool" where
  "grows a x y \<longleftrightarrow> (y = None \<longrightarrow> x = None) \<and> nonce_of x \<le> nonce_of y \<and> auth_of a x = auth_of a y"

lemma nonce_of_simps [simp]: "nonce_of None = 0" "nonce_of (Some acc) = unat (nonce acc)"
  by (simp_all add: nonce_of_def)

lemma auth_of_simps [simp]: "auth_of a None = a" "auth_of a (Some acc) = auth_address acc"
  by (simp_all add: auth_of_def)

lemma grows_refl [simp]: "grows a x x"
  by (simp add: grows_def)

lemma grows_trans: "grows a x y \<Longrightarrow> grows a y z \<Longrightarrow> grows a x z"
  by (auto simp: grows_def)

lemma unat_succ_u64: "unat (n :: u64) + 1 < 2 ^ 64 \<Longrightarrow> unat (n + 1) = unat n + 1"
  by (simp add: unat_word_ariths)

lemma spec_debit_slot:
  assumes "spec_debit P a sig amt fee message m = Inr m'"
  shows "nonce_of (m' a) = nonce_of (m a) + 1" and "grows b (m b) (m' b)" and "b \<noteq> a \<Longrightarrow> m' b = m b"
  using assms by (auto simp: result_simps grows_def unat_succ_u64 split: if_splits)

lemma spec_credit_slot:
  assumes "spec_credit a amt m = Inr m'"
  shows "nonce_of (m' b) = nonce_of (m b)" and "grows b (m b) (m' b)" and "b \<noteq> a \<Longrightarrow> m' b = m b"
  using assms
  by (auto simp: result_simps grows_def Let_def account_empty_def account_new_def split: option.splits)

lemma spec_fee_slot:
  assumes "spec_fee fee m = Inr m'"
  shows "nonce_of (m' b) = nonce_of (m b)" and "grows b (m b) (m' b)"
  using assms by (auto simp: spec_fee_def spec_credit_slot split: if_splits)

lemma spec_empty_slot:
  assumes "spec_empty a m = Inr m'"
  shows "grows b (m b) (m' b)" and "b \<noteq> a \<Longrightarrow> m' b = m b"
  using assms by (auto simp: result_simps grows_def unat_succ_u64 split: if_splits)

lemma spec_txn_grows:
  assumes "spec_txn P domain x st = Inr st'"
  shows "grows b (spec_accounts st b) (spec_accounts st' b)"
  using assms
  by (cases x; force simp: and_then_Inr_iff Let_def split: if_splits
      intro: grows_trans dest: spec_debit_slot(2) [of _ _ _ _ _ _ _ _ b]
        spec_credit_slot(2) [of _ _ _ _ b] spec_fee_slot(2) [of _ _ _ b] spec_empty_slot(1) [of _ _ _ b])

lemma spec_txns_grows:
  assumes "spec_txns P domain xs st = Inr st'"
  shows "grows b (spec_accounts st b) (spec_accounts st' b)"
  using assms by (induction rule: spec_txns_induct) (auto intro: grows_trans spec_txn_grows)

section \<open>What the signatures of a run were checked over\<close>

text \<open>The message a spend's signature has to cover at a given state; deposits and forced
  withdrawals carry none.\<close>

fun spend_message :: "deployment_domain \<Rightarrow> signed_transaction \<Rightarrow> account_map \<Rightarrow> byte list option" where
  "spend_message domain (SignedPayment p _) m =
     map_option (\<lambda>acc. payment_bytes_to_sign p domain (nonce acc + 1)) (m (header_sender (payment_header p)))"
| "spend_message domain (SignedWithdrawal w _) m =
     map_option (\<lambda>acc. withdrawal_bytes_to_sign w domain (nonce acc + 1)) (m (header_sender (withdrawal_header w)))"
| "spend_message domain _ m = None"

primrec run_messages ::
  "primitives \<Rightarrow> deployment_domain \<Rightarrow> signed_transaction list \<Rightarrow> rollup \<Rightarrow> byte list list" where
  "run_messages P domain [] st = []"
| "run_messages P domain (x # xs) st =
     (case spend_message domain x (spec_accounts st) of None \<Rightarrow> [] | Some msg \<Rightarrow> [msg])
     @ (case spec_txn P domain x st of Inl _ \<Rightarrow> [] | Inr st \<Rightarrow> run_messages P domain xs st)"

text \<open>\<open>spends_at a n msg\<close>: the message authorizes a spend of account \<open>a\<close> at nonce \<open>n\<close>.\<close>

definition spends_at :: "address \<Rightarrow> nat \<Rightarrow> byte list \<Rightarrow> bool" where
  "spends_at a n msg \<longleftrightarrow>
     (\<exists>domain tag fee dst amt k. length tag = 3 \<and> unat k = n \<and> msg = bytes_to_sign domain tag a k fee dst amt)"

lemma spends_at_unique: "spends_at a n msg \<Longrightarrow> spends_at b k msg \<Longrightarrow> a = b \<and> n = k"
  by (auto simp: spends_at_def bytes_to_sign_inject)

lemma spends_atI [intro]:
  "spends_at (header_sender (payment_header p)) (unat k) (payment_bytes_to_sign p domain k)"
  "spends_at (header_sender (withdrawal_header w)) (unat k) (withdrawal_bytes_to_sign w domain k)"
  unfolding spends_at_def payment_bytes_to_sign_def withdrawal_bytes_to_sign_def
  by (metis length_sign_tags)+

lemma spec_debit_advances:
  assumes "spec_debit P a sig amt fee message m = Inr m'"
  shows "\<exists>acc. m a = Some acc \<and> unat (nonce acc + 1) = nonce_of (m a) + 1
     \<and> signature_verify P sig (acc\<lparr>nonce := nonce acc + 1\<rparr>) (message (nonce acc + 1)) = Inr ()
     \<and> nonce_of (m' a) = nonce_of (m a) + 1"
  using assms spec_debit_slot(1) [OF assms]
  by (auto simp: spec_debit_Inr_iff spend_Inr_iff unat_succ_u64)

lemma spend_message_advances:
  assumes "spec_txn P domain x st = Inr st'" and "spend_message domain x (spec_accounts st) = Some msg"
  shows "\<exists>a. spends_at a (nonce_of (spec_accounts st a) + 1) msg
     \<and> nonce_of (spec_accounts st' a) = nonce_of (spec_accounts st a) + 1"
proof (cases x)
  case (SignedPayment p sig)
  let ?a = "header_sender (payment_header p)"
  from assms(1) SignedPayment obtain m m1 m2 where
    debit: "spec_debit P ?a sig (payment_amount p) (header_fee (payment_header p))
      (payment_bytes_to_sign p domain) (spec_accounts st) = Inr m"
    and rest: "spec_credit (payment_receiver p) (payment_amount p) m = Inr m1"
      "spec_fee (header_fee (payment_header p)) m1 = Inr m2" and st': "spec_accounts st' = m2"
    by (auto simp: and_then_Inr_iff)
  from spec_debit_advances [OF debit] obtain acc where acc: "spec_accounts st ?a = Some acc"
    "unat (nonce acc + 1) = nonce_of (spec_accounts st ?a) + 1"
    "nonce_of (m ?a) = nonce_of (spec_accounts st ?a) + 1" by auto
  have "msg = payment_bytes_to_sign p domain (nonce acc + 1)"
    using assms(2) acc(1) by (simp add: SignedPayment)
  then have "spends_at ?a (nonce_of (spec_accounts st ?a) + 1) msg"
    using acc(2) spends_atI(1) by metis
  moreover have "nonce_of (m2 ?a) = nonce_of (m ?a)"
    using spec_credit_slot(1) [OF rest(1)] spec_fee_slot(1) [OF rest(2)] by simp
  ultimately show ?thesis using acc(3) st' by auto
next
  case (SignedWithdrawal w sig)
  let ?a = "header_sender (withdrawal_header w)"
  from assms(1) SignedWithdrawal obtain m m2 where
    debit: "spec_debit P ?a sig (withdrawal_amount w) (header_fee (withdrawal_header w))
      (withdrawal_bytes_to_sign w domain) (spec_accounts st) = Inr m"
    and rest: "spec_fee (header_fee (withdrawal_header w)) m = Inr m2" and st': "spec_accounts st' = m2"
    by (auto simp: and_then_Inr_iff split: if_splits)
  from spec_debit_advances [OF debit] obtain acc where acc: "spec_accounts st ?a = Some acc"
    "unat (nonce acc + 1) = nonce_of (spec_accounts st ?a) + 1"
    "nonce_of (m ?a) = nonce_of (spec_accounts st ?a) + 1" by auto
  have "msg = withdrawal_bytes_to_sign w domain (nonce acc + 1)"
    using assms(2) acc(1) by (simp add: SignedWithdrawal)
  then have "spends_at ?a (nonce_of (spec_accounts st ?a) + 1) msg"
    using acc(2) spends_atI(2) by metis
  moreover have "nonce_of (m2 ?a) = nonce_of (m ?a)"
    using spec_fee_slot(1) [OF rest] by simp
  ultimately show ?thesis using acc(3) st' by auto
qed (use assms(2) in simp_all)

lemma nonce_of_mono: "spec_txn P domain x st = Inr st' \<Longrightarrow>
    nonce_of (spec_accounts st a) \<le> nonce_of (spec_accounts st' a)"
  using spec_txn_grows [of P domain x st st' a] by (simp add: grows_def)

lemma run_messages_fresh:
  assumes "spec_txns P domain xs st = Inr st'"
  shows "distinct (run_messages P domain xs st) \<and>
    (\<forall>msg\<in>set (run_messages P domain xs st). \<exists>a n. spends_at a n msg \<and>
       nonce_of (spec_accounts st a) < n \<and> n \<le> nonce_of (spec_accounts st' a))"
  using assms
proof (induction rule: spec_txns_induct)
  case (Cons x xs st st1 st2)
  have later: "\<exists>a n. spends_at a n msg \<and> nonce_of (spec_accounts st a) < n \<and> n \<le> nonce_of (spec_accounts st2 a)"
    if "msg \<in> set (run_messages P domain xs st1)" for msg
    using Cons.IH that nonce_of_mono [OF Cons(1)] by (meson le_less_trans)
  show ?case
  proof (cases "spend_message domain x (spec_accounts st)")
    case None
    then show ?thesis using Cons.IH later by (simp add: Cons(1))
  next
    case (Some msg)
    obtain a where a: "spends_at a (nonce_of (spec_accounts st a) + 1) msg"
      "nonce_of (spec_accounts st1 a) = nonce_of (spec_accounts st a) + 1"
      using spend_message_advances [OF Cons(1) Some] by blast
    have "msg \<notin> set (run_messages P domain xs st1)"
    proof
      assume "msg \<in> set (run_messages P domain xs st1)"
      then obtain b n where "spends_at b n msg" "nonce_of (spec_accounts st1 b) < n"
        using Cons.IH by blast
      with a show False using spends_at_unique by fastforce
    qed
    moreover have "nonce_of (spec_accounts st1 a) \<le> nonce_of (spec_accounts st2 a)"
      using spec_txns_grows [OF Cons(2), of a] by (simp add: grows_def)
    ultimately show ?thesis
      using Cons.IH later a by (auto simp: Some Cons(1) intro!: exI [of _ a] exI)
  qed
qed simp

end
