(* ===== verification/Replay_Sound.thy ===== *)
theory Replay_Sound
  imports Replay State_Spec State_Commitment
begin

text \<open>
  The replay refines the specification. A transaction's sidecar entry determines the slots it
  visits and what it writes there (its events); a replay that succeeds has run those events
  against the roots, and events that match an account map make the specification do the same.
\<close>

section \<open>Events of a transaction\<close>

definition spent :: "u64 \<Rightarrow> u64 \<Rightarrow> account \<Rightarrow> account" where
  "spent amt fee acc = acc\<lparr>nonce := nonce acc + 1, amount := amount acc - amt - fee\<rparr>"

definition credited :: "address \<Rightarrow> u64 \<Rightarrow> account option \<Rightarrow> account" where
  "credited a amt x =
     (let acc = (case x of None \<Rightarrow> account_empty a | Some acc \<Rightarrow> acc) in acc\<lparr>amount := amount acc + amt\<rparr>)"

definition emptied :: "account \<Rightarrow> account" where
  "emptied acc = acc\<lparr>amount := 0, nonce := nonce acc + 1\<rparr>"

definition debit_event :: "address \<Rightarrow> leaf_witness \<Rightarrow> u64 \<Rightarrow> u64 \<Rightarrow> slot_event" where
  "debit_event a w amt fee =
     (a, old_account w, witness_proof w, map_option (spent amt fee) (old_account w))"

definition credit_event :: "address \<Rightarrow> leaf_witness \<Rightarrow> u64 \<Rightarrow> slot_event" where
  "credit_event a w amt = (a, old_account w, witness_proof w, Some (credited a amt (old_account w)))"

definition fee_events :: "u64 \<Rightarrow> leaf_witness option \<Rightarrow> slot_event list" where
  "fee_events fee w = (case w of None \<Rightarrow> [] | Some w \<Rightarrow> [credit_event FEE_SINK w fee])"

definition forced_event :: "address \<Rightarrow> leaf_witness \<Rightarrow> slot_event" where
  "forced_event a w =
     (a, old_account w, witness_proof w,
      if balance_of (old_account w) \<ge> MIN_WITHDRAWAL then map_option emptied (old_account w) else None)"

fun txn_events :: "transaction \<times> txn_sidecar \<Rightarrow> slot_event list" where
  "txn_events (Payment p, PaymentEntry e) =
     [debit_event (header_sender (payment_header p)) (payment_sender_witness e) (payment_amount p)
        (header_fee (payment_header p)),
      credit_event (payment_receiver p) (payment_receiver_witness e) (payment_amount p)]
     @ fee_events (header_fee (payment_header p)) (payment_fee_sink_witness e)"
| "txn_events (Deposit d, DepositEntry e) =
     [credit_event (deposit_receiver d) (deposit_receiver_witness e) (deposit_amount d)]"
| "txn_events (Withdrawal w, WithdrawalEntry e) =
     [debit_event (header_sender (withdrawal_header w)) (withdrawal_sender_witness e)
        (withdrawal_amount w) (header_fee (withdrawal_header w))]
     @ fee_events (header_fee (withdrawal_header w)) (withdrawal_fee_sink_witness e)"
| "txn_events (ForcedWithdrawal f, ForcedWithdrawalEntry e) =
     [forced_event (header_sender (forced_header f)) (forced_sender_witness e)]"
| "txn_events _ = []"

fun signed_of :: "transaction \<times> txn_sidecar \<Rightarrow> signed_transaction option" where
  "signed_of (Payment p, PaymentEntry e) = Some (SignedPayment p (payment_sig e))"
| "signed_of (Deposit d, DepositEntry e) = Some (SignedDeposit d)"
| "signed_of (Withdrawal w, WithdrawalEntry e) = Some (SignedWithdrawal w (withdrawal_sig e))"
| "signed_of (ForcedWithdrawal f, ForcedWithdrawalEntry e) = Some (SignedForcedWithdrawal f)"
| "signed_of _ = None"

text \<open>The signed transactions a batch and its sidecar stand for, and the events of both.\<close>

definition batch_signed :: "batch \<Rightarrow> sidecar \<Rightarrow> signed_transaction list" where
  "batch_signed b s = List.map_filter signed_of (zip (txns b) (entries s))"

definition batch_events :: "batch \<Rightarrow> sidecar \<Rightarrow> slot_event list" where
  "batch_events b s = concat (map txn_events (zip (txns b) (entries s)))"

section \<open>Each operation against its event\<close>

lemma root_with_Inr_iff [result_simps]:
  "root_with P a x prf = Inr r \<longleftrightarrow> root_from_proof (sha256 P) a x prf = Some r"
  by (simp add: root_with_def result_simps)

lemma expect_pre_state_Inr_iff [result_simps]:
  "expect_pre_state P a w rt = Inr u \<longleftrightarrow>
     root_from_proof (sha256 P) a (old_account w) (witness_proof w) = Some rt"
  by (auto simp: expect_pre_state_def result_simps split: if_splits)

lemma debit_Inr_iff:
  "debit P a w sig amt fee rt message = Inr rt' \<longleftrightarrow>
     (\<exists>acc. old_account w = Some acc \<and> spend P sig amt fee message acc = Inr (spent amt fee acc)) \<and>
     merkle.run (sha256 P) rt [debit_event a w amt fee] = Some rt'"
proof -
  have "debit P a w sig amt fee rt message =
      and_then (expect_pre_state P a w rt) (\<lambda>_. and_then (ok_or UnknownSender (old_account w)) (\<lambda>acc.
      and_then (spend P sig amt fee message acc) (\<lambda>acc. root_with P a (Some acc) (witness_proof w))))"
    by (simp add: debit_def spend_def and_then_assoc)
  then show ?thesis
    by (auto simp: and_then_Inr_iff root_with_Inr_iff expect_pre_state_Inr_iff ok_or_Inr_iff
        debit_event_def spent_def spend_Inr_iff)
qed

lemma credit_Inr_iff:
  "credit P a w amt rt = Inr rt' \<longleftrightarrow>
     receive a amt (old_account w) = Inr (credited a amt (old_account w)) \<and>
     merkle.run (sha256 P) rt [credit_event a w amt] = Some rt'"
proof -
  have "credit P a w amt rt =
      and_then (expect_pre_state P a w rt) (\<lambda>_. and_then (receive a amt (old_account w)) (\<lambda>acc.
      root_with P a (Some acc) (witness_proof w)))"
    by (simp add: credit_def receive_def and_then_assoc Let_def)
  then show ?thesis
    by (auto simp: and_then_Inr_iff root_with_Inr_iff expect_pre_state_Inr_iff
        credit_event_def credited_def receive_Inr_iff Let_def)
qed

lemma credit_fee_Inr_iff:
  "credit_fee P fee w rt = Inr rt' \<longleftrightarrow>
     (fee = 0 \<longleftrightarrow> w = None) \<and>
     (\<forall>x. w = Some x \<longrightarrow> receive FEE_SINK fee (old_account x) = Inr (credited FEE_SINK fee (old_account x))) \<and>
     merkle.run (sha256 P) rt (fee_events fee w) = Some rt'"
  by (cases w) (auto simp: credit_fee_def fee_events_def credit_Inr_iff)

section \<open>A transaction against its events\<close>

lemma run_bind:
  "merkle.run H rt es = Some r \<Longrightarrow> merkle.run H rt (es @ fs) = merkle.run H r fs"
  by (simp add: merkle.run_append)

lemma verify_forced_Inr:
  assumes "verify_forced P f e st = Inr st'"
  shows "merkle.run (sha256 P) (running_root st)
      [forced_event (header_sender (forced_header f)) (forced_sender_witness e)] = Some (running_root st')"
    and "\<And>acc. old_account (forced_sender_witness e) = Some acc \<Longrightarrow> MIN_WITHDRAWAL \<le> amount acc \<Longrightarrow>
      unat (nonce acc) + 1 < 2 ^ 64"
  using assms
  by (auto simp: verify_forced_def forced_event_def emptied_def Let_def balance_of_def result_simps
      split: if_splits option.splits)

lemma verify_txn_run:
  assumes "verify_txn P domain x st = Inr st'"
  shows "merkle.run (sha256 P) (running_root st) (txn_events x) = Some (running_root st')"
  using assms
proof (induction P domain x st rule: verify_txn.induct)
  case (1 P domain p e st)
  then show ?case
    by (auto simp: verify_payment_def and_then_Inr_iff Let_def debit_Inr_iff credit_Inr_iff
        credit_fee_Inr_iff simp del: merkle.run.simps
        simp: merkle.run_append [of _ _ "[_]" "_ # _", simplified append_Cons append_Nil]
          merkle.run_append [of _ _ "[_]" "fee_events _ _", simplified append_Cons append_Nil])
next
  case (2 P domain d e st)
  then show ?case
    by (auto simp: verify_deposit_def and_then_Inr_iff credit_Inr_iff simp del: merkle.run.simps)
next
  case (3 P domain w e st)
  then show ?case
    by (auto simp: verify_withdrawal_def and_then_Inr_iff Let_def debit_Inr_iff
        credit_fee_Inr_iff simp del: merkle.run.simps split: if_splits
        simp: merkle.run_append [of _ _ "[_]" "fee_events _ _", simplified append_Cons append_Nil])
next
  case (4 P domain f e st)
  then show ?case by (simp add: verify_forced_Inr(1) del: merkle.run.simps)
qed simp_all

text \<open>Events that match the map make the specification's operation take the same step.\<close>

lemma spec_debit_event:
  assumes "m a = old_account w" and "old_account w = Some acc"
    and "spend P sig amt fee message acc = Inr (spent amt fee acc)"
  shows "spec_debit P a sig amt fee message m = Inr (merkle.apply_events m [debit_event a w amt fee])"
  using assms by (simp add: spec_debit_def debit_event_def merkle.write_map_def)

lemma spec_credit_event:
  assumes "m a = old_account w"
    and "receive a amt (old_account w) = Inr (credited a amt (old_account w))"
  shows "spec_credit a amt m = Inr (merkle.apply_events m [credit_event a w amt])"
  using assms by (simp add: spec_credit_def credit_event_def merkle.write_map_def)

lemma spec_fee_event:
  assumes "merkle.matches m (fee_events fee w)" and "fee = 0 \<longleftrightarrow> w = None"
    and "\<And>x. w = Some x \<Longrightarrow> receive FEE_SINK fee (old_account x) = Inr (credited FEE_SINK fee (old_account x))"
  shows "spec_fee fee m = Inr (merkle.apply_events m (fee_events fee w))"
proof (cases w)
  case None
  then show ?thesis using assms(2) by (simp add: spec_fee_def fee_events_def)
next
  case (Some x)
  then have "m FEE_SINK = old_account x"
    using assms(1) by (simp add: fee_events_def credit_event_def)
  with Some assms(2,3) show ?thesis
    by (simp add: spec_fee_def fee_events_def spec_credit_event)
qed

lemma spec_empty_event:
  assumes "m a = old_account w"
    and "\<And>acc. old_account w = Some acc \<Longrightarrow> MIN_WITHDRAWAL \<le> amount acc \<Longrightarrow> unat (nonce acc) + 1 < 2 ^ 64"
  shows "spec_empty a m = Inr (merkle.apply_events m [forced_event a w])"
proof (cases "old_account w")
  case None
  then show ?thesis using assms(1)
    by (simp add: spec_empty_def forced_event_def merkle.write_map_def MIN_WITHDRAWAL_def)
next
  case (Some acc)
  then show ?thesis using assms
    by (auto simp: spec_empty_def forced_event_def merkle.write_map_def emptied_def result_simps
        and_then_def bump_nonce_def checked_add_unat)
qed

lemma balance_of_case: "balance_of x = (case x of None \<Rightarrow> 0 | Some a \<Rightarrow> amount a)"
  by (rule balance_of_def)

lemma matches_debit_event: "merkle.matches m (debit_event a w amt fee # es) \<longleftrightarrow>
    m a = old_account w \<and> merkle.matches (merkle.apply_events m [debit_event a w amt fee]) es"
  by (simp add: debit_event_def)

lemma matches_credit_event: "merkle.matches m (credit_event a w amt # es) \<longleftrightarrow>
    m a = old_account w \<and> merkle.matches (merkle.apply_events m [credit_event a w amt]) es"
  by (simp add: credit_event_def)

lemma apply_events_Cons: "merkle.apply_events m (e # es) = merkle.apply_events (merkle.apply_events m [e]) es"
  by (cases e) simp

lemma verify_txn_spec:
  assumes "verify_txn P domain x st = Inr st'" and "merkle.matches m (txn_events x)"
  shows "\<exists>s. signed_of x = Some s \<and>
    spec_txn P domain s \<lparr>spec_accounts = m, spec_items = is, spec_payouts = ps\<rparr> =
      Inr \<lparr>spec_accounts = merkle.apply_events m (txn_events x),
           spec_items = is @ List.map_filter txn_inbox_item [fst x],
           spec_payouts = ps @ List.map_filter txn_payout [x]\<rparr>"
  using assms
proof (induction P domain x st rule: verify_txn.induct)
  case (1 P domain p e st)
  let ?fee = "header_fee (payment_header p)"
  let ?d = "debit_event (header_sender (payment_header p)) (payment_sender_witness e) (payment_amount p) ?fee"
  let ?c = "credit_event (payment_receiver p) (payment_receiver_witness e) (payment_amount p)"
  let ?m1 = "merkle.apply_events m [?d]" and ?m2 = "merkle.apply_events (merkle.apply_events m [?d]) [?c]"
  note ok = "1.prems"(1) [simplified, unfolded verify_payment_def Let_def and_then_Inr_iff debit_Inr_iff
      credit_Inr_iff credit_fee_Inr_iff]
  have match: "m (header_sender (payment_header p)) = old_account (payment_sender_witness e)"
    "?m1 (payment_receiver p) = old_account (payment_receiver_witness e)"
    "merkle.matches ?m2 (fee_events ?fee (payment_fee_sink_witness e))"
    using "1.prems"(2)
    by (simp_all add: matches_debit_event matches_credit_event del: merkle.apply_events.simps)
  have "spec_debit P (header_sender (payment_header p)) (payment_sig e) (payment_amount p) ?fee
      (payment_bytes_to_sign p domain) m = Inr ?m1"
    using ok match(1) by (elim exE conjE) (rule spec_debit_event)
  moreover have "spec_credit (payment_receiver p) (payment_amount p) ?m1 = Inr ?m2"
    using ok match(2) by (intro spec_credit_event) auto
  moreover have "spec_fee ?fee ?m2 = Inr (merkle.apply_events ?m2 (fee_events ?fee (payment_fee_sink_witness e)))"
    using ok match(3) by (intro spec_fee_event) auto
  ultimately show ?case
    using apply_events_Cons [of m ?d "?c # fee_events ?fee (payment_fee_sink_witness e)"]
      apply_events_Cons [of ?m1 ?c "fee_events ?fee (payment_fee_sink_witness e)"]
    by (simp add: map_filter_def del: merkle.apply_events.simps)
next
  case (2 P domain d e st)
  let ?c = "credit_event (deposit_receiver d) (deposit_receiver_witness e) (deposit_amount d)"
  have "spec_credit (deposit_receiver d) (deposit_amount d) m = Inr (merkle.apply_events m [?c])"
    using "2.prems" by (intro spec_credit_event)
      (auto simp: verify_deposit_def and_then_Inr_iff credit_Inr_iff matches_credit_event)
  then show ?case by (simp add: map_filter_def del: merkle.apply_events.simps)
next
  case (3 P domain w e st)
  let ?fee = "header_fee (withdrawal_header w)"
  let ?d = "debit_event (header_sender (withdrawal_header w)) (withdrawal_sender_witness e)
    (withdrawal_amount w) ?fee"
  let ?m1 = "merkle.apply_events m [?d]"
  from "3.prems"(1) have enough: "\<not> withdrawal_amount w < MIN_WITHDRAWAL"
    by (auto simp: verify_withdrawal_def Let_def split: if_splits)
  note ok = "3.prems"(1) [simplified, unfolded verify_withdrawal_def Let_def if_not_P [OF enough]
      and_then_Inr_iff debit_Inr_iff credit_fee_Inr_iff]
  have match: "m (header_sender (withdrawal_header w)) = old_account (withdrawal_sender_witness e)"
    "merkle.matches ?m1 (fee_events ?fee (withdrawal_fee_sink_witness e))"
    using "3.prems"(2) by (simp_all add: matches_debit_event del: merkle.apply_events.simps)
  have "spec_debit P (header_sender (withdrawal_header w)) (withdrawal_sig e) (withdrawal_amount w) ?fee
      (withdrawal_bytes_to_sign w domain) m = Inr ?m1"
    using ok match(1) by (elim exE conjE) (rule spec_debit_event)
  moreover have "spec_fee ?fee ?m1 = Inr (merkle.apply_events ?m1 (fee_events ?fee (withdrawal_fee_sink_witness e)))"
    using ok match(2) by (intro spec_fee_event) auto
  ultimately show ?case
    using enough apply_events_Cons [of m ?d "fee_events ?fee (withdrawal_fee_sink_witness e)"]
    by (simp add: map_filter_def del: merkle.apply_events.simps)
next
  case (4 P domain f e st)
  let ?a = "header_sender (forced_header f)" and ?w = "forced_sender_witness e"
  have m: "m ?a = old_account ?w" using "4.prems"(2) by (simp add: forced_event_def)
  have "spec_empty ?a m = Inr (merkle.apply_events m [forced_event ?a ?w])"
    using verify_forced_Inr(2) [of P f e st st'] "4.prems"(1) m by (intro spec_empty_event) auto
  with m show ?case
    by (auto simp: Let_def map_filter_def balance_of_case simp del: merkle.apply_events.simps)
qed simp_all

section \<open>A batch\<close>

lemma verify_txns_run:
  "verify_txns P domain xs st = Inr st' \<Longrightarrow>
     merkle.run (sha256 P) (running_root st) (concat (map txn_events xs)) = Some (running_root st')"
proof (induction xs arbitrary: st)
  case (Cons x xs)
  then obtain st1 where "verify_txn P domain x st = Inr st1" "verify_txns P domain xs st1 = Inr st'"
    by (auto simp: result_simps)
  with Cons.IH verify_txn_run show ?case by (fastforce simp: merkle.run_append)
qed simp

lemma verify_txns_spec:
  assumes "verify_txns P domain xs st = Inr st'" and "merkle.matches m (concat (map txn_events xs))"
  shows "spec_txns P domain (List.map_filter signed_of xs)
      \<lparr>spec_accounts = m, spec_items = is, spec_payouts = ps\<rparr> =
    Inr \<lparr>spec_accounts = merkle.apply_events m (concat (map txn_events xs)),
         spec_items = is @ List.map_filter txn_inbox_item (map fst xs),
         spec_payouts = ps @ List.map_filter txn_payout xs\<rparr>"
  using assms
proof (induction xs arbitrary: st m "is" ps)
  case Nil
  then show ?case by (simp add: map_filter_def)
next
  case (Cons x xs)
  then obtain st1 where st1: "verify_txn P domain x st = Inr st1" "verify_txns P domain xs st1 = Inr st'"
    by (auto simp: result_simps)
  have "merkle.matches m (txn_events x)"
    and rest: "merkle.matches (merkle.apply_events m (txn_events x)) (concat (map txn_events xs))"
    using Cons.prems(2) by simp_all
  from verify_txn_spec [OF st1(1) this(1), of "is" ps] obtain s where s: "signed_of x = Some s"
    "spec_txn P domain s \<lparr>spec_accounts = m, spec_items = is, spec_payouts = ps\<rparr> =
      Inr \<lparr>spec_accounts = merkle.apply_events m (txn_events x),
           spec_items = is @ List.map_filter txn_inbox_item [fst x],
           spec_payouts = ps @ List.map_filter txn_payout [x]\<rparr>" by blast
  have cons: "List.map_filter g (y # ys) = List.map_filter g [y] @ List.map_filter g ys"
    for g :: "'x \<Rightarrow> 'y option" and y ys by (simp add: map_filter_def)
  show ?case
    using s Cons.IH [OF st1(2) rest]
    by (simp add: cons [of txn_inbox_item "fst x"] cons [of txn_payout x] map_filter_def)
qed

text \<open>
  Soundness: from the root of a tree, and short of a collision among the strings the replay
  hashes, a batch that verifies is a run of the specification on the tree's accounts, and the
  three words reported are the ones of that run.
\<close>

lemma verify_batch_tracks:
  assumes wf: "wf_tree (sha256 P) t"
    and cf: "collision_free (sha256 P) (event_preimages (sha256 P) t (batch_events b s))"
    and ok: "verify_batch P domain (root (sha256 P) t) anchor b s = Inr (rt, inbox_chain, wchain)"
  defines "t' \<equiv> merkle.track (sha256 P) t (batch_events b s)"
  shows "spec_txns P domain (batch_signed b s)
        \<lparr>spec_accounts = tree_accounts t, spec_items = [], spec_payouts = []\<rparr>
      = Inr \<lparr>spec_accounts = tree_accounts t', spec_items = batch_inbox_items b, spec_payouts = withdrawal_payouts b s\<rparr>"
    and "wf_tree (sha256 P) t'" and "rt = root (sha256 P) t'"
proof -
  let ?H = "sha256 P" and ?xs = "zip (txns b) (entries s)"
  from ok obtain st where len: "length (txns b) = length (entries s)"
    and st: "verify_txns P domain ?xs
      \<lparr>running_root = root ?H t, running_inbox = anchor, running_payouts = []\<rparr> = Inr st"
    and rt: "rt = running_root st"
    by (auto simp: verify_batch_def result_simps split: if_splits)
  have "merkle.run ?H (root ?H t) (batch_events b s) = Some rt"
    using verify_txns_run [OF st] by (simp add: batch_events_def rt)
  from merkle.run_sound [OF wf all_safe_event_preimages [OF cf] this]
  have matches: "merkle.matches (tree_accounts t) (batch_events b s)"
    and root: "rt = root ?H (merkle.track ?H t (batch_events b s))" by auto
  have "spec_txns P domain (batch_signed b s)
        \<lparr>spec_accounts = tree_accounts t, spec_items = [], spec_payouts = []\<rparr>
      = Inr \<lparr>spec_accounts = merkle.apply_events (tree_accounts t) (batch_events b s),
             spec_items = batch_inbox_items b, spec_payouts = withdrawal_payouts b s\<rparr>"
    using verify_txns_spec [OF st, of "tree_accounts t" "[]" "[]"] matches len
    by (simp add: batch_events_def batch_signed_def batch_inbox_items_def withdrawal_payouts_def)
  with root merkle.track_facts [OF wf, of "batch_events b s"]
  show "spec_txns P domain (batch_signed b s)
        \<lparr>spec_accounts = tree_accounts t, spec_items = [], spec_payouts = []\<rparr>
      = Inr \<lparr>spec_accounts = tree_accounts t', spec_items = batch_inbox_items b, spec_payouts = withdrawal_payouts b s\<rparr>"
    and "wf_tree (sha256 P) t'" and "rt = root (sha256 P) t'"
    by (simp_all add: t'_def)
qed

lemma verify_batch_refines:
  assumes wf: "wf_tree (sha256 P) t"
    and cf: "collision_free (sha256 P) (event_preimages (sha256 P) t (batch_events b s))"
    and ok: "verify_batch P domain (root (sha256 P) t) anchor b s = Inr (rt, inbox_chain, wchain)"
  shows "\<exists>m t'. spec_txns P domain (batch_signed b s)
        \<lparr>spec_accounts = tree_accounts t, spec_items = [], spec_payouts = []\<rparr>
      = Inr \<lparr>spec_accounts = m, spec_items = batch_inbox_items b, spec_payouts = withdrawal_payouts b s\<rparr>
    \<and> wf_tree (sha256 P) t' \<and> tree_accounts t' = m \<and> rt = root (sha256 P) t'
    \<and> inbox_chain = inbox.fold_chain (sha256 P) anchor (batch_inbox_items b)
    \<and> wchain = withdrawal_chain (sha256 P) domain (withdrawal_payouts b s)"
  using verify_batch_tracks [OF assms] verify_batch_outputs [OF ok] by metis

end
