(* ===== verification/Ledger.thy ===== *)
theory Ledger
  imports Replay_Sound
begin

text \<open>
  The sequencer's \<open>Ledger\<close> of \<^verbatim>\<open>crates/payment-rollup/src/lib.rs\<close>: its account map, its
  tree, and \<open>get_block\<close>, which applies transactions and builds the batch with its sidecar.
  Where the source panics (\<open>unwrap\<close>, \<open>assert!\<close>) the model returns \<open>Inl\<close> with the kind of panic.
\<close>

section \<open>Panics\<close>

datatype panic =
    UnwrapNone
  | UnwrapErr verification_error
  | AssertFailed
  | SliceOutOfRange
  | DivisionByZero

definition unwrap_option :: "'a option \<Rightarrow> panic + 'a" where
  "unwrap_option x = ok_or UnwrapNone x"

definition unwrap_result :: "verification_error + 'a \<Rightarrow> panic + 'a" where
  "unwrap_result r = (case r of Inl e \<Rightarrow> Inl (UnwrapErr e) | Inr a \<Rightarrow> Inr a)"

lemma unwrap_simps [simp]:
  "unwrap_option None = Inl UnwrapNone"
  "unwrap_option (Some a) = Inr a"
  "unwrap_result (Inl e) = Inl (UnwrapErr e)"
  "unwrap_result (Inr a) = Inr a"
  by (simp_all add: unwrap_option_def unwrap_result_def)

section \<open>The ledger\<close>

record ledger =
  ledger_domain :: deployment_domain
  ledger_accounts :: "address \<rightharpoonup> account"
  ledger_tree :: sparse_merkle_tree
  ledger_inbox_chain :: bytes32

definition ledger_with_domain :: "deployment_domain \<Rightarrow> ledger" where
  "ledger_with_domain domain =
     \<lparr>ledger_domain = domain, ledger_accounts = Map.empty, ledger_tree = tree_new,
      ledger_inbox_chain = INBOX_CHAIN_GENESIS\<rparr>"

definition ledger_new :: ledger where
  "ledger_new = ledger_with_domain zero32"

definition ledger_account :: "ledger \<Rightarrow> address \<Rightarrow> account option" where
  "ledger_account l address = ledger_accounts l address"

definition insert_account :: "primitives \<Rightarrow> address \<Rightarrow> account \<Rightarrow> ledger \<Rightarrow> ledger" where
  "insert_account P address acc l =
     l\<lparr>ledger_tree := update (sha256 P) (ledger_tree l) address (Some acc),
       ledger_accounts := (ledger_accounts l)(address \<mapsto> acc)\<rparr>"

definition create_account :: "primitives \<Rightarrow> scheme \<Rightarrow> byte list \<Rightarrow> ledger \<Rightarrow> address \<times> ledger" where
  "create_account P scheme pub_key l =
     (let (address, acc) = account_from_public_key (sha256 P) scheme pub_key in
      if ledger_accounts l address = None then (address, insert_account P address acc l)
      else (address, l))"

definition state_root :: "primitives \<Rightarrow> ledger \<Rightarrow> bytes32" where
  "state_root P l = root (sha256 P) (ledger_tree l)"

definition ledger_proof :: "primitives \<Rightarrow> ledger \<Rightarrow> address \<Rightarrow> merkle_proof" where
  "ledger_proof P l address = tree_proof (sha256 P) (ledger_tree l) address"

text \<open>The witness \<open>debit\<close>, \<open>credit\<close> and the forced-withdrawal arm capture before they write.\<close>

definition ledger_witness :: "primitives \<Rightarrow> address \<Rightarrow> ledger \<Rightarrow> leaf_witness" where
  "ledger_witness P a l =
     \<lparr>old_account = ledger_accounts l a, witness_proof = tree_proof (sha256 P) (ledger_tree l) a\<rparr>"

definition ledger_debit ::
  "primitives \<Rightarrow> address \<Rightarrow> u64 \<Rightarrow> u64 \<Rightarrow> signature \<Rightarrow> (u64 \<Rightarrow> byte list) \<Rightarrow> ledger
     \<Rightarrow> panic + leaf_witness \<times> ledger" where
  "ledger_debit P sender amt fee sig message l =
     (let witness = ledger_witness P sender l in
      and_then (unwrap_option (ledger_accounts l sender)) (\<lambda>acc.
      and_then (unwrap_result (bump_nonce acc)) (\<lambda>acc.
      and_then (unwrap_result (signature_verify P sig acc (message (nonce acc)))) (\<lambda>_.
      and_then (unwrap_option
         (Option.bind (checked_sub (amount acc) amt) (\<lambda>balance. checked_sub balance fee))) (\<lambda>balance.
      let acc = acc\<lparr>amount := balance\<rparr> in
      Inr (witness,
           l\<lparr>ledger_accounts := (ledger_accounts l)(sender \<mapsto> acc),
             ledger_tree := update (sha256 P) (ledger_tree l) sender (Some acc)\<rparr>))))))"

definition ledger_credit ::
  "primitives \<Rightarrow> address \<Rightarrow> u64 \<Rightarrow> ledger \<Rightarrow> panic + leaf_witness \<times> ledger" where
  "ledger_credit P receiver amt l =
     (let witness = ledger_witness P receiver l;
          acc = (case ledger_accounts l receiver of None \<Rightarrow> account_empty receiver | Some acc \<Rightarrow> acc) in
      and_then (unwrap_option (checked_add (amount acc) amt)) (\<lambda>balance.
      let acc = acc\<lparr>amount := balance\<rparr> in
      Inr (witness,
           l\<lparr>ledger_accounts := (ledger_accounts l)(receiver \<mapsto> acc),
             ledger_tree := update (sha256 P) (ledger_tree l) receiver (Some acc)\<rparr>)))"

text \<open>\<open>(fee != 0).then(|| self.credit(FEE_SINK, fee))\<close>.\<close>

definition ledger_fee ::
  "primitives \<Rightarrow> u64 \<Rightarrow> ledger \<Rightarrow> panic + leaf_witness option \<times> ledger" where
  "ledger_fee P fee l =
     (if fee \<noteq> 0 then and_then (ledger_credit P FEE_SINK fee l) (\<lambda>(w, l). Inr (Some w, l))
      else Inr (None, l))"

section \<open>Building a block\<close>

record block_builder =
  builder_ledger :: ledger
  builder_payouts :: "(l1_address \<times> u64) list"
  builder_txns :: "transaction list"
  builder_entries :: "txn_sidecar list"

definition push_txn :: "transaction \<Rightarrow> txn_sidecar \<Rightarrow> ledger \<Rightarrow> block_builder \<Rightarrow> block_builder" where
  "push_txn t e l b =
     b\<lparr>builder_ledger := l, builder_txns := builder_txns b @ [t], builder_entries := builder_entries b @ [e]\<rparr>"

definition push_payout :: "l1_address \<Rightarrow> u64 \<Rightarrow> block_builder \<Rightarrow> block_builder" where
  "push_payout r a b = b\<lparr>builder_payouts := builder_payouts b @ [(r, a)]\<rparr>"

fun get_block_txn ::
  "primitives \<Rightarrow> deployment_domain \<Rightarrow> signed_transaction \<Rightarrow> block_builder \<Rightarrow> panic + block_builder" where
  "get_block_txn P domain (SignedPayment p sig) b =
     (let fee = header_fee (payment_header p) in
      and_then (ledger_debit P (header_sender (payment_header p)) (payment_amount p) fee sig
        (payment_bytes_to_sign p domain) (builder_ledger b)) (\<lambda>(sw, l).
      and_then (ledger_credit P (payment_receiver p) (payment_amount p) l) (\<lambda>(rw, l).
      and_then (ledger_fee P fee l) (\<lambda>(fw, l).
      Inr (push_txn (Payment p)
        (PaymentEntry \<lparr>payment_sig = sig, payment_sender_witness = sw,
           payment_receiver_witness = rw, payment_fee_sink_witness = fw\<rparr>) l b)))))"
| "get_block_txn P domain (SignedDeposit d) b =
     and_then (ledger_credit P (deposit_receiver d) (deposit_amount d) (builder_ledger b)) (\<lambda>(rw, l).
     Inr (push_txn (Deposit d) (DepositEntry \<lparr>deposit_receiver_witness = rw\<rparr>)
       (l\<lparr>ledger_inbox_chain :=
          accumulate_deposit (sha256 P) (ledger_inbox_chain l) (deposit_receiver d) (deposit_amount d)\<rparr>) b))"
| "get_block_txn P domain (SignedWithdrawal w sig) b =
     (let fee = header_fee (withdrawal_header w) in
      if \<not> withdrawal_amount w \<ge> MIN_WITHDRAWAL then Inl AssertFailed
      else
        and_then (ledger_debit P (header_sender (withdrawal_header w)) (withdrawal_amount w) fee sig
          (withdrawal_bytes_to_sign w domain) (builder_ledger b)) (\<lambda>(sw, l).
        and_then (ledger_fee P fee l) (\<lambda>(fw, l).
        Inr (push_txn (Withdrawal w)
          (WithdrawalEntry \<lparr>withdrawal_sig = sig, withdrawal_sender_witness = sw,
             withdrawal_fee_sink_witness = fw\<rparr>) l
          (push_payout (withdrawal_recipient w) (withdrawal_amount w) b)))))"
| "get_block_txn P domain (SignedForcedWithdrawal f) b =
     (let a = header_sender (forced_header f); l = builder_ledger b;
          sw = ledger_witness P a l;
          balance = (case ledger_accounts l a of None \<Rightarrow> 0 | Some acc \<Rightarrow> amount acc) in
      and_then
        (if balance \<ge> MIN_WITHDRAWAL then
           and_then (unwrap_option (ledger_accounts l a)) (\<lambda>acc.
           and_then (unwrap_result (bump_nonce (acc\<lparr>amount := 0\<rparr>))) (\<lambda>acc.
           Inr (l\<lparr>ledger_accounts := (ledger_accounts l)(a \<mapsto> acc),
                  ledger_tree := update (sha256 P) (ledger_tree l) a (Some acc)\<rparr>,
                push_payout (forced_recipient f) balance b)))
         else Inr (l, b)) (\<lambda>(l, b).
      Inr (push_txn (ForcedWithdrawal f) (ForcedWithdrawalEntry \<lparr>forced_sender_witness = sw\<rparr>)
        (l\<lparr>ledger_inbox_chain :=
           accumulate_request (sha256 P) (ledger_inbox_chain l) a (forced_recipient f)\<rparr>) b)))"

primrec get_block_txns ::
  "primitives \<Rightarrow> deployment_domain \<Rightarrow> signed_transaction list \<Rightarrow> block_builder \<Rightarrow> panic + block_builder" where
  "get_block_txns P domain [] b = Inr b"
| "get_block_txns P domain (x # xs) b =
     and_then (get_block_txn P domain x b) (\<lambda>b. get_block_txns P domain xs b)"

definition get_block :: "primitives \<Rightarrow> signed_transaction list \<Rightarrow> ledger \<Rightarrow> panic + block \<times> ledger" where
  "get_block P stxns l =
     (let domain = ledger_domain l; old_root = state_root P l; old_inbox = ledger_inbox_chain l in
      and_then (get_block_txns P domain stxns
        \<lparr>builder_ledger = l, builder_payouts = [], builder_txns = [], builder_entries = []\<rparr>) (\<lambda>b.
      let l = builder_ledger b in
      Inr (\<lparr>block_domain = ledger_domain l, block_old_root = old_root, block_new_root = state_root P l,
            block_old_inbox_chain = old_inbox, block_new_inbox_chain = ledger_inbox_chain l,
            block_withdrawal_chain = withdrawal_chain (sha256 P) (ledger_domain l) (builder_payouts b),
            block_batch = \<lparr>txns = builder_txns b\<rparr>, block_sidecar = \<lparr>entries = builder_entries b\<rparr>\<rparr>, l)))"

section \<open>Invariant\<close>

text \<open>The tree commits to exactly the account map, and is the canonical tree for it.\<close>

definition wf_ledger :: "primitives \<Rightarrow> ledger \<Rightarrow> bool" where
  "wf_ledger P l \<longleftrightarrow>
     wf_tree (sha256 P) (ledger_tree l) \<and> tree_accounts (ledger_tree l) = ledger_accounts l"

lemma wf_ledger_with_domain [simp]: "wf_ledger P (ledger_with_domain domain)"
  by (simp add: wf_ledger_def ledger_with_domain_def)

lemma wf_ledger_write:
  "wf_ledger P l \<Longrightarrow>
     wf_ledger P (l\<lparr>ledger_accounts := (ledger_accounts l)(a \<mapsto> acc),
       ledger_tree := update (sha256 P) (ledger_tree l) a (Some acc)\<rparr>)"
  by (auto simp: wf_ledger_def)

lemma wf_ledger_insert_account: "wf_ledger P l \<Longrightarrow> wf_ledger P (insert_account P a acc l)"
  by (auto simp: wf_ledger_def insert_account_def)

lemma wf_ledger_create_account: "wf_ledger P l \<Longrightarrow> wf_ledger P (snd (create_account P scheme key l))"
  by (auto simp: create_account_def wf_ledger_insert_account split: prod.splits)

lemma wf_ledger_inbox [simp]: "wf_ledger P (l\<lparr>ledger_inbox_chain := c\<rparr>) = wf_ledger P l"
  by (simp add: wf_ledger_def)

end
