(* ===== verification/Ledger_Refines.thy ===== *)
theory Ledger_Refines
  imports Ledger
begin

text \<open>
  \<open>Ledger::get_block\<close> against the specification and against the replay: it panics exactly when
  the specification rejects, and otherwise the block it builds verifies and reaches the roots
  and chains it claims.
\<close>

section \<open>Which panic a rejection is\<close>

fun panic_of :: "verification_error \<Rightarrow> panic" where
  "panic_of UnknownSender = UnwrapNone"
| "panic_of InsufficientFunds = UnwrapNone"
| "panic_of AmountOverflow = UnwrapNone"
| "panic_of WithdrawalTooSmall = AssertFailed"
| "panic_of e = UnwrapErr e"

lemma signature_verify_errors:
  "signature_verify P sig acc msg = Inl e \<Longrightarrow> panic_of e = UnwrapErr e"
  by (auto simp: signature_verify_def verify_auth_def and_then_Inl_iff split: if_splits
      dest!: crypto_verify_errors)

section \<open>One slot\<close>

text \<open>
  \<open>ledger_step P l es l' m\<close>: the ledger moved from \<open>l\<close> to \<open>l'\<close> by the honest events \<open>es\<close>, and
  holds the accounts \<open>m\<close>.
\<close>

definition ledger_step ::
  "primitives \<Rightarrow> ledger \<Rightarrow> slot_event list \<Rightarrow> ledger \<Rightarrow> account_map \<Rightarrow> bool" where
  "ledger_step P l es l' m \<longleftrightarrow>
     wf_ledger P l' \<and> ledger_accounts l' = m \<and>
     ledger_tree l' = merkle.track (sha256 P) (ledger_tree l) es \<and>
     merkle.honest (sha256 P) (ledger_tree l) es \<and>
     ledger_domain l' = ledger_domain l \<and> ledger_inbox_chain l' = ledger_inbox_chain l"

lemma ledger_step_refl: "wf_ledger P l \<Longrightarrow> ledger_step P l [] l (ledger_accounts l)"
  by (simp add: ledger_step_def)

lemma ledger_step_trans:
  "ledger_step P l es l1 m1 \<Longrightarrow> ledger_step P l1 fs l2 m2 \<Longrightarrow> ledger_step P l (es @ fs) l2 m2"
  by (simp add: ledger_step_def)

lemma ledger_step_write:
  assumes "wf_ledger P l" and "x = ledger_accounts l a" and "prf = tree_proof (sha256 P) (ledger_tree l) a"
  shows "ledger_step P l [(a, x, prf, Some acc)]
    (l\<lparr>ledger_accounts := (ledger_accounts l)(a \<mapsto> acc),
       ledger_tree := update (sha256 P) (ledger_tree l) a (Some acc)\<rparr>) ((ledger_accounts l)(a \<mapsto> acc))"
  using assms wf_ledger_write [OF assms(1), of a acc]
  by (simp add: ledger_step_def merkle.write_slot_def wf_ledger_def)

lemma ledger_witness_simps [simp]:
  "old_account (ledger_witness P a l) = ledger_accounts l a"
  "witness_proof (ledger_witness P a l) = tree_proof (sha256 P) (ledger_tree l) a"
  by (simp_all add: ledger_witness_def)

lemma ledger_debit_Inl:
  "spec_debit P a sig amt fee message (ledger_accounts l) = Inl e \<Longrightarrow>
     ledger_debit P a amt fee sig message l = Inl (panic_of e)"
  by (auto simp: spec_debit_def spend_def ledger_debit_def and_then_Inl_iff ok_or_def unwrap_option_def
      bump_nonce_def signature_verify_errors Let_def split: option.splits)

lemma ledger_debit_Inr:
  assumes "wf_ledger P l" and "spec_debit P a sig amt fee message (ledger_accounts l) = Inr m"
  shows "\<exists>l'. ledger_debit P a amt fee sig message l = Inr (ledger_witness P a l, l')
    \<and> ledger_step P l [debit_event a (ledger_witness P a l) amt fee] l' m"
proof -
  from assms(2) obtain acc where acc: "ledger_accounts l a = Some acc"
    and sp: "spend P sig amt fee message acc = Inr (spent amt fee acc)"
    and m: "m = (ledger_accounts l)(a \<mapsto> spent amt fee acc)"
    by (auto simp: spec_debit_Inr_iff spend_Inr_iff spent_def)
  have "ledger_debit P a amt fee sig message l = Inr (ledger_witness P a l,
      l\<lparr>ledger_accounts := m, ledger_tree := update (sha256 P) (ledger_tree l) a (Some (spent amt fee acc))\<rparr>)"
    using sp by (auto simp: ledger_debit_def spend_def acc m unwrap_result_def and_then_Inr_iff
        ok_or_Inr_iff Let_def)
  moreover have "debit_event a (ledger_witness P a l) amt fee =
      (a, Some acc, tree_proof (sha256 P) (ledger_tree l) a, Some (spent amt fee acc))"
    by (simp add: debit_event_def acc)
  ultimately show ?thesis
    using ledger_step_write [OF assms(1) acc [symmetric] refl, of "spent amt fee acc"] m by auto
qed

lemma ledger_credit_Inl:
  "spec_credit a amt (ledger_accounts l) = Inl e \<Longrightarrow>
     ledger_credit P a amt l = Inl (panic_of e)"
  by (auto simp: spec_credit_def receive_def ledger_credit_def and_then_Inl_iff ok_or_def unwrap_option_def
      Let_def split: option.splits)

lemma ledger_credit_Inr:
  assumes "wf_ledger P l" and "spec_credit a amt (ledger_accounts l) = Inr m"
  shows "\<exists>l'. ledger_credit P a amt l = Inr (ledger_witness P a l, l')
    \<and> ledger_step P l [credit_event a (ledger_witness P a l) amt] l' m"
proof -
  define acc where "acc = credited a amt (ledger_accounts l a)"
  from assms(2) have rc: "receive a amt (ledger_accounts l a) = Inr acc"
    and m: "m = (ledger_accounts l)(a \<mapsto> acc)"
    by (auto simp: spec_credit_Inr_iff receive_Inr_iff acc_def credited_def Let_def)
  have "ledger_credit P a amt l = Inr (ledger_witness P a l,
      l\<lparr>ledger_accounts := m, ledger_tree := update (sha256 P) (ledger_tree l) a (Some acc)\<rparr>)"
    using rc by (auto simp: ledger_credit_def receive_def m and_then_Inr_iff ok_or_Inr_iff Let_def)
  moreover have "credit_event a (ledger_witness P a l) amt =
      (a, ledger_accounts l a, tree_proof (sha256 P) (ledger_tree l) a, Some acc)"
    by (simp add: credit_event_def acc_def)
  ultimately show ?thesis
    using ledger_step_write [OF assms(1) refl refl, of a acc] m by auto
qed

lemma ledger_fee_Inl:
  "spec_fee fee (ledger_accounts l) = Inl e \<Longrightarrow> ledger_fee P fee l = Inl (panic_of e)"
  by (auto simp: spec_fee_def ledger_fee_def ledger_credit_Inl split: if_splits)

lemma ledger_fee_Inr:
  assumes "wf_ledger P l" and "spec_fee fee (ledger_accounts l) = Inr m"
  shows "\<exists>w l'. ledger_fee P fee l = Inr (w, l') \<and> (fee = 0 \<longleftrightarrow> w = None)
    \<and> ledger_step P l (fee_events fee w) l' m"
proof (cases "fee = 0")
  case True
  then show ?thesis
    using assms ledger_step_refl [OF assms(1)]
    by (auto simp: spec_fee_def ledger_fee_def fee_events_def)
next
  case False
  with assms obtain l' where "ledger_credit P FEE_SINK fee l = Inr (ledger_witness P FEE_SINK l, l')"
    "ledger_step P l [credit_event FEE_SINK (ledger_witness P FEE_SINK l) fee] l' m"
    using ledger_credit_Inr [OF assms(1), of FEE_SINK fee m] by (auto simp: spec_fee_def)
  with False show ?thesis
    by (auto simp: ledger_fee_def fee_events_def intro!: exI [of _ "Some (ledger_witness P FEE_SINK l)"])
qed

section \<open>One transaction\<close>

text \<open>A sidecar entry with a fee witness exactly when there is a fee.\<close>

fun fee_shape :: "transaction \<times> txn_sidecar \<Rightarrow> bool" where
  "fee_shape (Payment p, PaymentEntry e) = (header_fee (payment_header p) = 0 \<longleftrightarrow> payment_fee_sink_witness e = None)"
| "fee_shape (Withdrawal w, WithdrawalEntry e) =
     (header_fee (withdrawal_header w) = 0 \<longleftrightarrow> withdrawal_fee_sink_witness e = None)"
| "fee_shape _ = True"

lemma get_block_txn_Inl:
  assumes wf: "wf_ledger P (builder_ledger b)" and acc: "spec_accounts st = ledger_accounts (builder_ledger b)"
    and err: "spec_txn P domain x st = Inl e"
  shows "get_block_txn P domain x b = Inl (panic_of e)"
proof (cases x)
  case (SignedPayment p sig)
  let ?a = "header_sender (payment_header p)" and ?fee = "header_fee (payment_header p)"
  let ?debit = "spec_debit P ?a sig (payment_amount p) ?fee (payment_bytes_to_sign p domain) (spec_accounts st)"
  consider "?debit = Inl e"
    | m where "?debit = Inr m" "spec_credit (payment_receiver p) (payment_amount p) m = Inl e"
    | m m1 where "?debit = Inr m" "spec_credit (payment_receiver p) (payment_amount p) m = Inr m1"
        "spec_fee ?fee m1 = Inl e"
    using err by (auto simp: SignedPayment and_then_Inl_iff)
  then show ?thesis
  proof cases
    case 1
    then show ?thesis by (simp add: SignedPayment acc Let_def ledger_debit_Inl)
  next
    case 2
    with ledger_debit_Inr [OF wf] acc obtain l1 where
      l1: "ledger_debit P ?a (payment_amount p) ?fee sig (payment_bytes_to_sign p domain) (builder_ledger b)
        = Inr (ledger_witness P ?a (builder_ledger b), l1)" "ledger_accounts l1 = m"
      by (fastforce simp: ledger_step_def)
    with 2 show ?thesis by (simp add: SignedPayment Let_def ledger_credit_Inl)
  next
    case 3
    with ledger_debit_Inr [OF wf] acc obtain l1 where
      l1: "ledger_debit P ?a (payment_amount p) ?fee sig (payment_bytes_to_sign p domain) (builder_ledger b)
        = Inr (ledger_witness P ?a (builder_ledger b), l1)" "ledger_accounts l1 = m" "wf_ledger P l1"
      by (fastforce simp: ledger_step_def)
    with 3 ledger_credit_Inr [OF l1(3)] obtain l2 where
      "ledger_credit P (payment_receiver p) (payment_amount p) l1 = Inr (ledger_witness P (payment_receiver p) l1, l2)"
      "ledger_accounts l2 = m1"
      by (fastforce simp: ledger_step_def)
    with 3 l1 show ?thesis by (simp add: SignedPayment Let_def ledger_fee_Inl)
  qed
next
  case (SignedDeposit d)
  then show ?thesis using err by (auto simp: and_then_Inl_iff acc ledger_credit_Inl)
next
  case (SignedWithdrawal w sig)
  let ?a = "header_sender (withdrawal_header w)" and ?fee = "header_fee (withdrawal_header w)"
  let ?debit = "spec_debit P ?a sig (withdrawal_amount w) ?fee (withdrawal_bytes_to_sign w domain) (spec_accounts st)"
  consider "withdrawal_amount w < MIN_WITHDRAWAL" "e = WithdrawalTooSmall"
    | "\<not> withdrawal_amount w < MIN_WITHDRAWAL" "?debit = Inl e"
    | m where "\<not> withdrawal_amount w < MIN_WITHDRAWAL" "?debit = Inr m" "spec_fee ?fee m = Inl e"
    using err by (auto simp: SignedWithdrawal and_then_Inl_iff split: if_splits)
  then show ?thesis
  proof cases
    case 1
    then show ?thesis by (simp add: SignedWithdrawal Let_def flip: not_less)
  next
    case 2
    then show ?thesis by (simp add: SignedWithdrawal acc Let_def ledger_debit_Inl not_less)
  next
    case 3
    with ledger_debit_Inr [OF wf] acc obtain l1 where
      l1: "ledger_debit P ?a (withdrawal_amount w) ?fee sig (withdrawal_bytes_to_sign w domain) (builder_ledger b)
        = Inr (ledger_witness P ?a (builder_ledger b), l1)" "ledger_accounts l1 = m"
      by (fastforce simp: ledger_step_def)
    with 3 show ?thesis by (simp add: SignedWithdrawal Let_def ledger_fee_Inl not_less)
  qed
next
  case (SignedForcedWithdrawal f)
  then show ?thesis
    using err by (auto simp: and_then_Inl_iff acc spec_empty_def Let_def balance_of_def ok_or_def
        unwrap_option_def bump_nonce_def split: if_splits option.splits)
qed

text \<open>What one successful turn of \<open>get_block\<close> leaves in the builder; \<open>y\<close> is what it pushed.\<close>

definition builder_step ::
  "primitives \<Rightarrow> block_builder \<Rightarrow> transaction \<times> txn_sidecar \<Rightarrow> block_builder \<Rightarrow> account_map \<Rightarrow> bool" where
  "builder_step P b y b' m \<longleftrightarrow>
     (let l = builder_ledger b; l' = builder_ledger b' in
      builder_txns b' = builder_txns b @ [fst y] \<and> builder_entries b' = builder_entries b @ [snd y] \<and>
      builder_payouts b' = builder_payouts b @ List.map_filter txn_payout [y] \<and>
      wf_ledger P l' \<and> ledger_accounts l' = m \<and> ledger_domain l' = ledger_domain l \<and>
      ledger_tree l' = merkle.track (sha256 P) (ledger_tree l) (txn_events y) \<and>
      merkle.honest (sha256 P) (ledger_tree l) (txn_events y) \<and>
      ledger_inbox_chain l' = inbox.fold_chain (sha256 P) (ledger_inbox_chain l)
        (List.map_filter txn_inbox_item [fst y]) \<and>
      fee_shape y)"

lemma get_block_txn_Inr:
  assumes wf: "wf_ledger P (builder_ledger b)" and acc: "spec_accounts st = ledger_accounts (builder_ledger b)"
    and ok: "spec_txn P domain x st = Inr st'"
  shows "\<exists>y b'. get_block_txn P domain x b = Inr b' \<and> signed_of y = Some x
    \<and> builder_step P b y b' (spec_accounts st')"
proof (cases x)
  case (SignedPayment p sig)
  let ?a = "header_sender (payment_header p)" and ?fee = "header_fee (payment_header p)"
  let ?l = "builder_ledger b" and ?sw = "ledger_witness P ?a (builder_ledger b)"
  obtain m1 m2 where spec: "spec_debit P ?a sig (payment_amount p) ?fee (payment_bytes_to_sign p domain)
      (ledger_accounts ?l) = Inr m1"
    "spec_credit (payment_receiver p) (payment_amount p) m1 = Inr m2" "spec_fee ?fee m2 = Inr (spec_accounts st')"
    using ok by (auto simp: SignedPayment and_then_Inr_iff acc)
  obtain l1 where l1: "ledger_debit P ?a (payment_amount p) ?fee sig (payment_bytes_to_sign p domain) ?l = Inr (?sw, l1)"
    and s1: "ledger_step P ?l [debit_event ?a ?sw (payment_amount p) ?fee] l1 m1"
    using ledger_debit_Inr [OF wf spec(1)] by blast
  let ?rw = "ledger_witness P (payment_receiver p) l1"
  obtain l2 where l2: "ledger_credit P (payment_receiver p) (payment_amount p) l1 = Inr (?rw, l2)"
    and s2: "ledger_step P l1 [credit_event (payment_receiver p) ?rw (payment_amount p)] l2 m2"
    using ledger_credit_Inr [of P l1] spec(2) s1 by (force simp: ledger_step_def)
  obtain fw l3 where l3: "ledger_fee P ?fee l2 = Inr (fw, l3)" "?fee = 0 \<longleftrightarrow> fw = None"
    and s3: "ledger_step P l2 (fee_events ?fee fw) l3 (spec_accounts st')"
    using ledger_fee_Inr [of P l2] spec(3) s2 by (force simp: ledger_step_def)
  note step = ledger_step_trans [OF ledger_step_trans [OF s1 s2] s3]
  let ?y = "(Payment p, PaymentEntry \<lparr>payment_sig = sig, payment_sender_witness = ?sw,
    payment_receiver_witness = ?rw, payment_fee_sink_witness = fw\<rparr>)"
  have "get_block_txn P domain x b = Inr (push_txn (fst ?y) (snd ?y) l3 b)"
    by (simp add: SignedPayment l1 l2 l3(1) Let_def)
  moreover have "builder_step P b ?y (push_txn (fst ?y) (snd ?y) l3 b) (spec_accounts st')"
    using step l3(2) by (simp add: builder_step_def push_txn_def ledger_step_def map_filter_def)
  ultimately show ?thesis using SignedPayment by force
next
  case (SignedDeposit d)
  let ?l = "builder_ledger b" and ?rw = "ledger_witness P (deposit_receiver d) (builder_ledger b)"
  have spec: "spec_credit (deposit_receiver d) (deposit_amount d) (ledger_accounts ?l) = Inr (spec_accounts st')"
    using ok by (auto simp: SignedDeposit and_then_Inr_iff acc)
  obtain l1 where l1: "ledger_credit P (deposit_receiver d) (deposit_amount d) ?l = Inr (?rw, l1)"
    and s1: "ledger_step P ?l [credit_event (deposit_receiver d) ?rw (deposit_amount d)] l1 (spec_accounts st')"
    using ledger_credit_Inr [OF wf spec] by blast
  let ?y = "(Deposit d, DepositEntry \<lparr>deposit_receiver_witness = ?rw\<rparr>)"
  let ?l' = "l1\<lparr>ledger_inbox_chain :=
    accumulate_deposit (sha256 P) (ledger_inbox_chain l1) (deposit_receiver d) (deposit_amount d)\<rparr>"
  have "get_block_txn P domain x b = Inr (push_txn (fst ?y) (snd ?y) ?l' b)"
    by (simp add: SignedDeposit l1)
  moreover have "builder_step P b ?y (push_txn (fst ?y) (snd ?y) ?l' b) (spec_accounts st')"
    using s1 by (simp add: builder_step_def push_txn_def ledger_step_def map_filter_def accumulate_inbox)
  ultimately show ?thesis using SignedDeposit by force
next
  case (SignedWithdrawal w sig)
  let ?a = "header_sender (withdrawal_header w)" and ?fee = "header_fee (withdrawal_header w)"
  let ?l = "builder_ledger b" and ?sw = "ledger_witness P ?a (builder_ledger b)"
  obtain m1 where spec: "spec_debit P ?a sig (withdrawal_amount w) ?fee (withdrawal_bytes_to_sign w domain)
      (ledger_accounts ?l) = Inr m1" "spec_fee ?fee m1 = Inr (spec_accounts st')"
    and min: "MIN_WITHDRAWAL \<le> withdrawal_amount w"
    using ok by (auto simp: SignedWithdrawal and_then_Inr_iff acc split: if_splits)
  obtain l1 where l1: "ledger_debit P ?a (withdrawal_amount w) ?fee sig (withdrawal_bytes_to_sign w domain) ?l = Inr (?sw, l1)"
    and s1: "ledger_step P ?l [debit_event ?a ?sw (withdrawal_amount w) ?fee] l1 m1"
    using ledger_debit_Inr [OF wf spec(1)] by blast
  obtain fw l2 where l2: "ledger_fee P ?fee l1 = Inr (fw, l2)" "?fee = 0 \<longleftrightarrow> fw = None"
    and s2: "ledger_step P l1 (fee_events ?fee fw) l2 (spec_accounts st')"
    using ledger_fee_Inr [of P l1] spec(2) s1 by (force simp: ledger_step_def)
  note step = ledger_step_trans [OF s1 s2]
  let ?y = "(Withdrawal w, WithdrawalEntry \<lparr>withdrawal_sig = sig, withdrawal_sender_witness = ?sw,
    withdrawal_fee_sink_witness = fw\<rparr>)"
  let ?b = "push_payout (withdrawal_recipient w) (withdrawal_amount w) b"
  have "get_block_txn P domain x b = Inr (push_txn (fst ?y) (snd ?y) l2 ?b)"
    using min by (simp add: SignedWithdrawal l1 l2(1) Let_def)
  moreover have "builder_step P b ?y (push_txn (fst ?y) (snd ?y) l2 ?b) (spec_accounts st')"
    using step l2(2) by (simp add: builder_step_def push_txn_def push_payout_def ledger_step_def map_filter_def)
  ultimately show ?thesis using SignedWithdrawal by force
next
  case (SignedForcedWithdrawal f)
  let ?a = "header_sender (forced_header f)" and ?l = "builder_ledger b"
  let ?sw = "ledger_witness P (header_sender (forced_header f)) (builder_ledger b)"
  let ?y = "(ForcedWithdrawal f, ForcedWithdrawalEntry \<lparr>forced_sender_witness = ?sw\<rparr>)"
  have spec: "spec_empty ?a (ledger_accounts ?l) = Inr (spec_accounts st')"
    using ok by (auto simp: SignedForcedWithdrawal and_then_Inr_iff acc Let_def)
  show ?thesis
  proof (cases "MIN_WITHDRAWAL \<le> balance_of (ledger_accounts ?l ?a)")
    case True
    with spec obtain acc0 where a: "ledger_accounts ?l ?a = Some acc0" "unat (nonce acc0) + 1 < 2 ^ 64"
      "spec_accounts st' = (ledger_accounts ?l)(?a \<mapsto> emptied acc0)"
      by (auto simp: spec_empty_Inr_iff emptied_def)
    let ?l1 = "?l\<lparr>ledger_accounts := (ledger_accounts ?l)(?a \<mapsto> emptied acc0),
      ledger_tree := update (sha256 P) (ledger_tree ?l) ?a (Some (emptied acc0))\<rparr>"
    let ?l' = "?l1\<lparr>ledger_inbox_chain := accumulate_request (sha256 P) (ledger_inbox_chain ?l) ?a (forced_recipient f)\<rparr>"
    let ?b = "push_payout (forced_recipient f) (amount acc0) b"
    have bump: "bump_nonce (acc0\<lparr>amount := 0\<rparr>) = Inr (emptied acc0)"
      using a(2) by (simp add: bump_nonce_Inr_iff emptied_def)
    have "forced_event ?a ?sw = (?a, Some acc0, tree_proof (sha256 P) (ledger_tree ?l) ?a, Some (emptied acc0))"
      using True a(1) by (simp add: forced_event_def)
    moreover have "wf_ledger P ?l1" by (rule wf_ledger_write [OF wf])
    moreover have "tree_accounts (ledger_tree ?l) ?a = Some acc0" using wf a(1) by (simp add: wf_ledger_def)
    moreover have "get_block_txn P domain x b = Inr (push_txn (fst ?y) (snd ?y) ?l' ?b)"
      using True by (simp add: SignedForcedWithdrawal a(1) bump Let_def)
    moreover have "MIN_WITHDRAWAL \<le> amount acc0" using True a(1) by simp
    ultimately have "get_block_txn P domain x b = Inr (push_txn (fst ?y) (snd ?y) ?l' ?b) \<and>
        builder_step P b ?y (push_txn (fst ?y) (snd ?y) ?l' ?b) (spec_accounts st')"
      using a(1,3) by (simp add: builder_step_def push_txn_def push_payout_def merkle.write_slot_def
          map_filter_def accumulate_inbox Let_def)
    then show ?thesis using SignedForcedWithdrawal by force
  next
    case False
    let ?l' = "?l\<lparr>ledger_inbox_chain := accumulate_request (sha256 P) (ledger_inbox_chain ?l) ?a (forced_recipient f)\<rparr>"
    have "forced_event ?a ?sw = (?a, ledger_accounts ?l ?a, tree_proof (sha256 P) (ledger_tree ?l) ?a, None)"
      using False by (simp add: forced_event_def)
    moreover have "get_block_txn P domain x b = Inr (push_txn (fst ?y) (snd ?y) ?l' b)"
      using False by (simp add: SignedForcedWithdrawal Let_def balance_of_def)
    moreover have "\<not> MIN_WITHDRAWAL \<le> (case ledger_accounts ?l ?a of None \<Rightarrow> 0 | Some acc \<Rightarrow> amount acc)"
      using False by (simp add: balance_of_def)
    ultimately have "get_block_txn P domain x b = Inr (push_txn (fst ?y) (snd ?y) ?l' b) \<and>
        builder_step P b ?y (push_txn (fst ?y) (snd ?y) ?l' b) (spec_accounts st')"
      using False spec wf by (simp add: builder_step_def push_txn_def spec_empty_Inr_iff wf_ledger_def
          merkle.write_slot_def map_filter_def accumulate_inbox Let_def)
    then show ?thesis using SignedForcedWithdrawal by force
  qed
qed

section \<open>A block\<close>

text \<open>The ledger panics exactly when the specification rejects.\<close>

lemma get_block_txns_Inl:
  assumes "wf_ledger P (builder_ledger b)" and "spec_accounts st = ledger_accounts (builder_ledger b)"
    and "spec_txns P domain xs st = Inl e"
  shows "get_block_txns P domain xs b = Inl (panic_of e)"
  using assms
proof (induction xs arbitrary: b st)
  case (Cons x xs)
  show ?case
  proof (cases "spec_txn P domain x st")
    case (Inl e')
    with Cons.prems get_block_txn_Inl [OF Cons.prems(1,2) Inl] show ?thesis by simp
  next
    case (Inr st1)
    with get_block_txn_Inr [OF Cons.prems(1,2) Inr] obtain y b1
      where b1: "get_block_txn P domain x b = Inr b1" "builder_step P b y b1 (spec_accounts st1)" by blast
    then have "wf_ledger P (builder_ledger b1)" "spec_accounts st1 = ledger_accounts (builder_ledger b1)"
      by (simp_all add: builder_step_def Let_def)
    with Cons.IH [of b1 st1] Cons.prems(3) Inr b1 show ?thesis by simp
  qed
qed simp

definition builder_steps ::
  "primitives \<Rightarrow> block_builder \<Rightarrow> (transaction \<times> txn_sidecar) list \<Rightarrow> block_builder \<Rightarrow> account_map \<Rightarrow> bool" where
  "builder_steps P b ys b' m \<longleftrightarrow>
     (let l = builder_ledger b; l' = builder_ledger b' in
      builder_txns b' = builder_txns b @ map fst ys \<and> builder_entries b' = builder_entries b @ map snd ys \<and>
      builder_payouts b' = builder_payouts b @ List.map_filter txn_payout ys \<and>
      wf_ledger P l' \<and> ledger_accounts l' = m \<and> ledger_domain l' = ledger_domain l \<and>
      ledger_tree l' = merkle.track (sha256 P) (ledger_tree l) (concat (map txn_events ys)) \<and>
      merkle.honest (sha256 P) (ledger_tree l) (concat (map txn_events ys)) \<and>
      ledger_inbox_chain l' = inbox.fold_chain (sha256 P) (ledger_inbox_chain l)
        (List.map_filter txn_inbox_item (map fst ys)) \<and>
      list_all fee_shape ys)"

lemma map_filter_Cons: "List.map_filter g (y # ys) = List.map_filter g [y] @ List.map_filter g ys"
  by (simp add: map_filter_def)

lemma builder_steps_Cons:
  "builder_step P b y b1 m1 \<Longrightarrow> builder_steps P b1 ys b' m \<Longrightarrow> builder_steps P b (y # ys) b' m"
  using map_filter_Cons [of txn_payout y ys] map_filter_Cons [of txn_inbox_item "fst y" "map fst ys"]
  by (simp add: builder_step_def builder_steps_def Let_def)

lemma get_block_txns_Inr:
  assumes "wf_ledger P (builder_ledger b)" and "spec_accounts st = ledger_accounts (builder_ledger b)"
    and "spec_txns P domain xs st = Inr st'"
  shows "\<exists>ys b'. get_block_txns P domain xs b = Inr b' \<and> map signed_of ys = map Some xs
    \<and> builder_steps P b ys b' (spec_accounts st')"
  using assms
proof (induction xs arbitrary: b st)
  case Nil
  then show ?case
    by (auto simp: builder_steps_def map_filter_def intro!: exI [of _ "[]"])
next
  case (Cons x xs)
  then obtain st1 where st1: "spec_txn P domain x st = Inr st1" "spec_txns P domain xs st1 = Inr st'"
    by (auto simp: and_then_Inr_iff)
  with get_block_txn_Inr [OF Cons.prems(1,2)] obtain y b1
    where b1: "get_block_txn P domain x b = Inr b1" "signed_of y = Some x"
      "builder_step P b y b1 (spec_accounts st1)" by blast
  then have "wf_ledger P (builder_ledger b1)" "spec_accounts st1 = ledger_accounts (builder_ledger b1)"
    by (simp_all add: builder_step_def Let_def)
  with Cons.IH [of b1 st1] st1(2) obtain ys b' where
    "get_block_txns P domain xs b1 = Inr b'" "map signed_of ys = map Some xs"
    "builder_steps P b1 ys b' (spec_accounts st')" by blast
  with b1 builder_steps_Cons [OF b1(3)] show ?case
    by (auto intro!: exI [of _ "y # ys"])
qed

section \<open>The block verifies\<close>

lemma spec_debit_matches:
  assumes "spec_debit P a sig amt fee message m = Inr m'" and "m a = old_account w"
  shows "\<exists>acc. old_account w = Some acc \<and> spend P sig amt fee message acc = Inr (spent amt fee acc)"
    and "m' = merkle.apply_events m [debit_event a w amt fee]"
  using assms
  by (auto simp: spec_debit_Inr_iff spend_Inr_iff spent_def debit_event_def merkle.write_map_def)

lemma spec_credit_matches:
  assumes "spec_credit a amt m = Inr m'" and "m a = old_account w"
  shows "receive a amt (old_account w) = Inr (credited a amt (old_account w))"
    and "m' = merkle.apply_events m [credit_event a w amt]"
  using assms
  by (auto simp: spec_credit_Inr_iff receive_Inr_iff credited_def credit_event_def
      merkle.write_map_def Let_def)

lemma spec_fee_matches:
  assumes "spec_fee fee m = Inr m'" and "merkle.matches m (fee_events fee w)" and "fee = 0 \<longleftrightarrow> w = None"
    and "merkle.run (sha256 P) rt (fee_events fee w) = Some rt'"
  shows "credit_fee P fee w rt = Inr rt'"
  using assms
  by (cases w) (auto simp: credit_fee_Inr_iff spec_fee_def fee_events_def matches_credit_event
      spec_credit_matches simp del: merkle.run.simps)

lemma run_Cons_Some:
  "merkle.run H r (e # es) = Some rt \<Longrightarrow>
     \<exists>r1. merkle.run H r [e] = Some r1 \<and> merkle.run H r1 es = Some rt"
  using merkle.run_append [of H r "[e]" es]
  by (cases "merkle.run H r [e]") (simp_all del: merkle.run.simps)

text \<open>
  A step of the specification, the events of the pair that stands for it matching the accounts
  and accepted against the running root: then the replay accepts the pair.
\<close>

lemma verify_txn_complete:
  assumes "signed_of y = Some x" and "spec_txn P domain x st = Inr st'"
    and "merkle.matches (spec_accounts st) (txn_events y)"
    and "merkle.run (sha256 P) (running_root rs) (txn_events y) = Some rt" and "fee_shape y"
  shows "\<exists>rs'. verify_txn P domain y rs = Inr rs' \<and> running_root rs' = rt"
  using assms
proof (induction y rule: signed_of.induct)
  case (1 p e)
  let ?fee = "header_fee (payment_header p)" and ?m = "spec_accounts st"
  let ?d = "debit_event (header_sender (payment_header p)) (payment_sender_witness e) (payment_amount p) ?fee"
  let ?c = "credit_event (payment_receiver p) (payment_receiver_witness e) (payment_amount p)"
  let ?f = "fee_events ?fee (payment_fee_sink_witness e)"
  have x: "x = SignedPayment p (payment_sig e)" using "1.prems"(1) by simp
  obtain m1 m2 where spec: "spec_debit P (header_sender (payment_header p)) (payment_sig e) (payment_amount p) ?fee
      (payment_bytes_to_sign p domain) ?m = Inr m1"
    "spec_credit (payment_receiver p) (payment_amount p) m1 = Inr m2" "spec_fee ?fee m2 = Inr (spec_accounts st')"
    using "1.prems"(2) by (auto simp: x and_then_Inr_iff)
  have match: "?m (header_sender (payment_header p)) = old_account (payment_sender_witness e)"
    "merkle.matches (merkle.apply_events ?m [?d]) (?c # ?f)"
    using "1.prems"(3) by (simp_all add: matches_debit_event del: merkle.apply_events.simps)
  note d = spec_debit_matches [OF spec(1) match(1)]
  have match2: "m1 (payment_receiver p) = old_account (payment_receiver_witness e)"
    "merkle.matches (merkle.apply_events m1 [?c]) ?f"
    using match(2) unfolding d(2) [symmetric]
    by (simp_all add: matches_credit_event del: merkle.apply_events.simps)
  note c = spec_credit_matches [OF spec(2) match2(1)]
  have "merkle.run (sha256 P) (running_root rs) (?d # ?c # ?f) = Some rt"
    using "1.prems"(4) by (simp del: merkle.run.simps)
  then obtain r1 r2 where run: "merkle.run (sha256 P) (running_root rs) [?d] = Some r1"
    "merkle.run (sha256 P) r1 [?c] = Some r2" "merkle.run (sha256 P) r2 ?f = Some rt"
    by (meson run_Cons_Some)
  have "debit P (header_sender (payment_header p)) (payment_sender_witness e) (payment_sig e) (payment_amount p)
      ?fee (running_root rs) (payment_bytes_to_sign p domain) = Inr r1"
    using d(1) run(1) by (simp add: debit_Inr_iff del: merkle.run.simps)
  moreover have "credit P (payment_receiver p) (payment_receiver_witness e) (payment_amount p) r1 = Inr r2"
    using c(1) run(2) by (simp add: credit_Inr_iff del: merkle.run.simps)
  moreover have "credit_fee P ?fee (payment_fee_sink_witness e) r2 = Inr rt"
    using spec_fee_matches [OF spec(3)] match2(2) run(3) "1.prems"(5) unfolding c(2) [symmetric] by simp
  ultimately show ?case by (simp add: verify_payment_def Let_def)
next
  case (2 d e)
  let ?c = "credit_event (deposit_receiver d) (deposit_receiver_witness e) (deposit_amount d)"
  have x: "x = SignedDeposit d" using "2.prems"(1) by simp
  obtain m1 where "spec_credit (deposit_receiver d) (deposit_amount d) (spec_accounts st) = Inr m1"
    using "2.prems"(2) by (auto simp: x and_then_Inr_iff)
  moreover have "spec_accounts st (deposit_receiver d) = old_account (deposit_receiver_witness e)"
    using "2.prems"(3) by (simp add: matches_credit_event)
  ultimately have "credit P (deposit_receiver d) (deposit_receiver_witness e) (deposit_amount d) (running_root rs) = Inr rt"
    using "2.prems"(4) spec_credit_matches(1) by (auto simp: credit_Inr_iff simp del: merkle.run.simps)
  then show ?case by (simp add: verify_deposit_def)
next
  case (3 w e)
  let ?fee = "header_fee (withdrawal_header w)" and ?m = "spec_accounts st"
  let ?d = "debit_event (header_sender (withdrawal_header w)) (withdrawal_sender_witness e) (withdrawal_amount w) ?fee"
  let ?f = "fee_events ?fee (withdrawal_fee_sink_witness e)"
  have x: "x = SignedWithdrawal w (withdrawal_sig e)" using "3.prems"(1) by simp
  obtain m1 where spec: "spec_debit P (header_sender (withdrawal_header w)) (withdrawal_sig e) (withdrawal_amount w) ?fee
      (withdrawal_bytes_to_sign w domain) ?m = Inr m1" "spec_fee ?fee m1 = Inr (spec_accounts st')"
    and enough: "\<not> withdrawal_amount w < MIN_WITHDRAWAL"
    using "3.prems"(2) by (auto simp: x and_then_Inr_iff split: if_splits)
  have match: "?m (header_sender (withdrawal_header w)) = old_account (withdrawal_sender_witness e)"
    "merkle.matches (merkle.apply_events ?m [?d]) ?f"
    using "3.prems"(3) by (simp_all add: matches_debit_event del: merkle.apply_events.simps)
  note d = spec_debit_matches [OF spec(1) match(1)]
  have "merkle.run (sha256 P) (running_root rs) (?d # ?f) = Some rt"
    using "3.prems"(4) by (simp del: merkle.run.simps)
  then obtain r1 where run: "merkle.run (sha256 P) (running_root rs) [?d] = Some r1"
    "merkle.run (sha256 P) r1 ?f = Some rt"
    by (meson run_Cons_Some)
  have "debit P (header_sender (withdrawal_header w)) (withdrawal_sender_witness e) (withdrawal_sig e)
      (withdrawal_amount w) ?fee (running_root rs) (withdrawal_bytes_to_sign w domain) = Inr r1"
    using d(1) run(1) by (simp add: debit_Inr_iff del: merkle.run.simps)
  moreover have "credit_fee P ?fee (withdrawal_fee_sink_witness e) r1 = Inr rt"
    using spec_fee_matches [OF spec(2)] match(2) run(2) "3.prems"(5) unfolding d(2) [symmetric] by simp
  ultimately show ?case using enough by (simp add: verify_withdrawal_def Let_def)
next
  case (4 f e)
  let ?a = "header_sender (forced_header f)" and ?w = "forced_sender_witness e"
  have x: "x = SignedForcedWithdrawal f" using "4.prems"(1) by simp
  obtain m1 where spec: "spec_empty ?a (spec_accounts st) = Inr m1"
    using "4.prems"(2) by (auto simp: x and_then_Inr_iff Let_def)
  have match: "spec_accounts st ?a = old_account ?w"
    using "4.prems"(3) by (simp add: forced_event_def)
  show ?case
  proof (cases "MIN_WITHDRAWAL \<le> balance_of (old_account ?w)")
    case True
    with spec match obtain acc where acc: "old_account ?w = Some acc" "unat (nonce acc) + 1 < 2 ^ 64"
      by (auto simp: spec_empty_Inr_iff)
    have bump: "bump_nonce (acc\<lparr>amount := 0\<rparr>) = Inr (emptied acc)"
      using acc(2) by (simp add: bump_nonce_Inr_iff emptied_def)
    from "4.prems"(4) True acc(1) have "root_from_proof (sha256 P) ?a (Some acc) (witness_proof ?w) = Some (running_root rs)"
      "root_from_proof (sha256 P) ?a (Some (emptied acc)) (witness_proof ?w) = Some rt"
      by (auto simp: forced_event_def bind_eq_Some_conv split: if_splits)
    with True acc(1) bump show ?thesis
      by (simp add: verify_forced_def expect_pre_state_def root_with_def Let_def)
  next
    case False
    with "4.prems"(4) have "root_from_proof (sha256 P) ?a (old_account ?w) (witness_proof ?w) = Some (running_root rs)"
      "rt = running_root rs"
      by (auto simp: forced_event_def split: if_splits)
    with False show ?thesis
      by (simp add: verify_forced_def expect_pre_state_def root_with_def Let_def balance_of_def)
  qed
qed simp_all

lemma verify_txns_complete:
  assumes "map signed_of ys = map Some xs" and "spec_txns P domain xs st = Inr st'"
    and "merkle.matches (spec_accounts st) (concat (map txn_events ys))"
    and "merkle.run (sha256 P) (running_root rs) (concat (map txn_events ys)) = Some rt"
    and "list_all fee_shape ys"
  shows "\<exists>rs'. verify_txns P domain ys rs = Inr rs' \<and> running_root rs' = rt"
  using assms
proof (induction ys arbitrary: xs st rs)
  case (Cons y ys)
  then obtain x xs' where xs: "xs = x # xs'" "signed_of y = Some x" "map signed_of ys = map Some xs'" by auto
  with Cons.prems(2) obtain st1 where st1: "spec_txn P domain x st = Inr st1" "spec_txns P domain xs' st1 = Inr st'"
    by (auto simp: and_then_Inr_iff)
  from Cons.prems(4) obtain r1 where r1: "merkle.run (sha256 P) (running_root rs) (txn_events y) = Some r1"
    "merkle.run (sha256 P) r1 (concat (map txn_events ys)) = Some rt"
    by (auto simp: merkle.run_append bind_eq_Some_conv)
  have match: "merkle.matches (spec_accounts st) (txn_events y)"
    "merkle.matches (merkle.apply_events (spec_accounts st) (txn_events y)) (concat (map txn_events ys))"
    using Cons.prems(3) by simp_all
  obtain rs1 where rs1: "verify_txn P domain y rs = Inr rs1" "running_root rs1 = r1"
    using verify_txn_complete [OF xs(2) st1(1) match(1) r1(1)] Cons.prems(5) by auto
  have "spec_accounts st1 = merkle.apply_events (spec_accounts st) (txn_events y)"
    using verify_txn_spec [OF rs1(1) match(1), of "spec_items st" "spec_payouts st"] st1(1) xs(2)
    by (cases st) auto
  with Cons.IH [OF xs(3) st1(2), of rs1] r1(2) rs1 match(2) Cons.prems(5) show ?case by auto
qed simp

text \<open>
  The main fact about \<open>get_block\<close>: from a ledger in step with its tree, the specification
  decides whether it panics; otherwise the block carries the transactions in order, claims what
  the specification gives, and \<open>verify_block\<close> accepts it.
\<close>

definition ledger_rollup :: "ledger \<Rightarrow> rollup" where
  "ledger_rollup l = \<lparr>spec_accounts = ledger_accounts l, spec_items = [], spec_payouts = []\<rparr>"

text \<open>What is known of the pairs a ledger puts in a block, for the codec.\<close>

definition built_block :: "primitives \<Rightarrow> ledger \<Rightarrow> block \<Rightarrow> bool" where
  "built_block P l blk \<longleftrightarrow>
     (let b = block_batch blk; s = block_sidecar blk in
      length (txns b) = length (entries s) \<and>
      list_all (\<lambda>y. signed_of y \<noteq> None \<and> fee_shape y) (zip (txns b) (entries s)) \<and>
      merkle.honest (sha256 P) (ledger_tree l) (batch_events b s))"

lemma get_block_Inl:
  assumes "wf_ledger P l" and "spec_txns P (ledger_domain l) xs (ledger_rollup l) = Inl e"
  shows "get_block P xs l = Inl (panic_of e)"
  using get_block_txns_Inl [OF _ _ assms(2), of
      "\<lparr>builder_ledger = l, builder_payouts = [], builder_txns = [], builder_entries = []\<rparr>"] assms(1)
  by (simp add: get_block_def ledger_rollup_def Let_def)

lemma get_block_Inr:
  assumes wf: "wf_ledger P l" and ok: "spec_txns P (ledger_domain l) xs (ledger_rollup l) = Inr st"
  shows "\<exists>blk l'. get_block P xs l = Inr (blk, l') \<and> wf_ledger P l' \<and> ledger_accounts l' = spec_accounts st
    \<and> batch_signed (block_batch blk) (block_sidecar blk) = xs
    \<and> built_block P l blk
    \<and> block_domain blk = ledger_domain l \<and> block_old_root blk = state_root P l
    \<and> block_new_root blk = state_root P l' \<and> block_old_inbox_chain blk = ledger_inbox_chain l
    \<and> block_new_inbox_chain blk = ledger_inbox_chain l' \<and> ledger_domain l' = ledger_domain l
    \<and> ledger_inbox_chain l' = inbox.fold_chain (sha256 P) (ledger_inbox_chain l) (spec_items st)
    \<and> block_withdrawal_chain blk = withdrawal_chain (sha256 P) (ledger_domain l) (spec_payouts st)
    \<and> verify_block P blk = Inr ()
    \<and> spec_items st = batch_inbox_items (block_batch blk)
    \<and> spec_payouts st = withdrawal_payouts (block_batch blk) (block_sidecar blk)"
proof -
  let ?H = "sha256 P" and ?d = "ledger_domain l"
  let ?b = "\<lparr>builder_ledger = l, builder_payouts = [], builder_txns = [], builder_entries = []\<rparr> :: block_builder"
  obtain ys b where b: "get_block_txns P ?d xs ?b = Inr b" and ys: "map signed_of ys = map Some xs"
    and steps: "builder_steps P ?b ys b (spec_accounts st)"
    using get_block_txns_Inr [OF _ _ ok, of ?b] wf by (auto simp: ledger_rollup_def)
  let ?l = "builder_ledger b" and ?es = "concat (map txn_events ys)"
  from steps have b_eq: "builder_txns b = map fst ys" "builder_entries b = map snd ys"
    "builder_payouts b = List.map_filter txn_payout ys" "ledger_domain ?l = ?d"
    "ledger_inbox_chain ?l = inbox.fold_chain ?H (ledger_inbox_chain l) (List.map_filter txn_inbox_item (map fst ys))"
    and wf': "wf_ledger P ?l" and acc: "ledger_accounts ?l = spec_accounts st"
    and tree: "ledger_tree ?l = merkle.track ?H (ledger_tree l) ?es"
    and honest: "merkle.honest ?H (ledger_tree l) ?es" and shape: "list_all fee_shape ys"
    by (simp_all add: builder_steps_def Let_def)
  have wft: "wf_tree ?H (ledger_tree l)" and ta: "tree_accounts (ledger_tree l) = ledger_accounts l"
    using wf by (simp_all add: wf_ledger_def)
  define rs where "rs = \<lparr>running_root = state_root P l, running_inbox = ledger_inbox_chain l, running_payouts = []\<rparr>"
  have matches: "merkle.matches (spec_accounts (ledger_rollup l)) ?es"
    using merkle.matches_honest [OF wft honest] ta by (simp add: ledger_rollup_def)
  have "merkle.run ?H (running_root rs) ?es = Some (state_root P ?l)"
    using merkle.run_honest [OF wft honest] tree by (simp add: rs_def state_root_def)
  from verify_txns_complete [OF ys ok matches this shape] obtain rs' where
    rs': "verify_txns P ?d ys rs = Inr rs'" "running_root rs' = state_root P ?l" by blast
  have out: "running_payouts rs' = builder_payouts b" "running_inbox rs' = ledger_inbox_chain ?l"
    using verify_txns_payouts [OF rs'(1)] verify_txns_inbox [OF rs'(1)] b_eq by (simp_all add: rs_def)
  have zip: "zip (builder_txns b) (builder_entries b) = ys" by (simp add: b_eq zip_map_fst_snd)
  have signed: "List.map_filter signed_of ys = xs"
    using ys by (induction ys arbitrary: xs) (auto simp: map_filter_def)
  have "spec_items st = List.map_filter txn_inbox_item (map fst ys) \<and> spec_payouts st = List.map_filter txn_payout ys"
    using verify_txns_spec [OF rs'(1), of "ledger_accounts l" "[]" "[]"] matches ok signed
    by (auto simp: ledger_rollup_def)
  moreover define blk where "blk = \<lparr>block_domain = ledger_domain ?l, block_old_root = state_root P l,
    block_new_root = state_root P ?l, block_old_inbox_chain = ledger_inbox_chain l,
    block_new_inbox_chain = ledger_inbox_chain ?l,
    block_withdrawal_chain = withdrawal_chain ?H (ledger_domain ?l) (builder_payouts b),
    block_batch = \<lparr>txns = builder_txns b\<rparr>, block_sidecar = \<lparr>entries = builder_entries b\<rparr>\<rparr>"
  moreover have "get_block P xs l = Inr (blk, ?l)"
    using b by (simp add: get_block_def blk_def Let_def)
  moreover have "batch_inbox_items (block_batch blk) = List.map_filter txn_inbox_item (map fst ys)"
    "withdrawal_payouts (block_batch blk) (block_sidecar blk) = List.map_filter txn_payout ys"
    using zip by (simp_all add: batch_inbox_items_def withdrawal_payouts_def blk_def b_eq(1))
  moreover have "verify_block P blk = Inr ()"
    using rs' out zip by (simp add: verify_block_def verify_batch_def blk_def b_eq(4) rs_def [symmetric])
      (simp add: b_eq)
  moreover have "batch_signed (block_batch blk) (block_sidecar blk) = xs"
    using zip signed by (simp add: batch_signed_def blk_def)
  moreover have "built_block P l blk"
  proof -
    have "signed_of y \<noteq> None" if "y \<in> set ys" for y
      using ys that by (metis in_set_conv_nth length_map nth_map option.distinct(1))
    then show ?thesis
      using zip honest shape by (simp add: built_block_def batch_events_def blk_def b_eq(1,2) list_all_iff)
  qed
  ultimately show ?thesis
    using wf' acc b_eq by (intro exI [of _ blk] exI [of _ ?l]) simp
qed

text \<open>The same, from a block in hand.\<close>

lemma get_block_cases:
  assumes "wf_ledger P l" and "get_block P xs l = Inr (blk, l')"
  obtains st where "spec_txns P (ledger_domain l) xs (ledger_rollup l) = Inr st"
    and "wf_ledger P l'" and "ledger_accounts l' = spec_accounts st"
    and "batch_signed (block_batch blk) (block_sidecar blk) = xs" and "built_block P l blk"
    and "block_domain blk = ledger_domain l" and "block_old_root blk = state_root P l"
    and "block_new_root blk = state_root P l'" and "block_old_inbox_chain blk = ledger_inbox_chain l"
    and "block_new_inbox_chain blk = ledger_inbox_chain l'"
    and "ledger_inbox_chain l' = inbox.fold_chain (sha256 P) (ledger_inbox_chain l) (spec_items st)"
    and "block_withdrawal_chain blk = withdrawal_chain (sha256 P) (ledger_domain l) (spec_payouts st)"
    and "verify_block P blk = Inr ()"
    and "spec_items st = batch_inbox_items (block_batch blk)"
    and "spec_payouts st = withdrawal_payouts (block_batch blk) (block_sidecar blk)"
proof (cases "spec_txns P (ledger_domain l) xs (ledger_rollup l)")
  case (Inl e)
  with get_block_Inl [OF assms(1)] assms(2) show ?thesis by simp
next
  case (Inr st)
  with get_block_Inr [OF assms(1) Inr] assms(2) that show ?thesis by auto
qed

lemma get_block_claims:
  assumes "wf_ledger P l" and "get_block P xs l = Inr (blk, l')"
  shows "verify_block P blk = Inr ()" and "block_domain blk = ledger_domain l"
    and "block_old_root blk = state_root P l" and "block_old_inbox_chain blk = ledger_inbox_chain l"
    and "batch_signed (block_batch blk) (block_sidecar blk) = xs"
  by (rule get_block_cases [OF assms], assumption)+

text \<open>One turn of the loop succeeds only where the specification does, with its accounts.\<close>

lemma get_block_txn_cases:
  assumes "wf_ledger P (builder_ledger b)" and "get_block_txn P domain x b = Inr b'"
  obtains st where "spec_txn P domain x (ledger_rollup (builder_ledger b)) = Inr st"
    and "wf_ledger P (builder_ledger b')" and "ledger_accounts (builder_ledger b') = spec_accounts st"
proof (cases "spec_txn P domain x (ledger_rollup (builder_ledger b))")
  case (Inl e)
  with get_block_txn_Inl [OF assms(1) _ Inl] assms(2) show ?thesis by (simp add: ledger_rollup_def)
next
  case (Inr st)
  with get_block_txn_Inr [OF assms(1) _ Inr] assms(2) that show ?thesis
    by (auto simp: ledger_rollup_def builder_step_def Let_def)
qed

end
