(* ===== verification/Execution.thy ===== *)
theory Execution
  imports Ledger_Refines Sidecar_Codec
begin

text \<open>
  From bytes to public values: \<open>execute\<close> of \<^verbatim>\<open>crates/payment-rollup/src/lib.rs\<close>, the guest
  program \<^verbatim>\<open>crates/sp1-guest/src/main.rs\<close> around it, and the host's \<open>Settlement\<close> of
  \<^verbatim>\<open>crates/sp1-host/src/lib.rs\<close>.
\<close>

section \<open>The guest\<close>

datatype execution_error = DecodeFailed decode_error | VerificationFailed verification_error

definition from_decode_error :: "decode_error + 'a \<Rightarrow> execution_error + 'a" where
  "from_decode_error r = map_sum DecodeFailed id r"

definition from_verification_error :: "verification_error + 'a \<Rightarrow> execution_error + 'a" where
  "from_verification_error r = map_sum VerificationFailed id r"

definition execute ::
  "primitives \<Rightarrow> deployment_domain \<Rightarrow> bytes32 \<Rightarrow> bytes32 \<Rightarrow> byte list \<Rightarrow> byte list
     \<Rightarrow> execution_error + byte list" where
  "execute P domain old_root inbox_anchor batch_bytes sidecar_bytes =
     and_then (from_decode_error (batch_decode batch_bytes)) (\<lambda>b.
     and_then (from_decode_error (sidecar_decode sidecar_bytes b)) (\<lambda>s.
     and_then (from_verification_error (verify_batch P domain old_root inbox_anchor b s)) (\<lambda>(rt, inbox_chain, wchain).
     Inr (public_values (sha256 P) domain old_root rt batch_bytes inbox_anchor inbox_chain wchain))))"

text \<open>
  \<open>main\<close> of the guest: five \<open>read_vec\<close>s from the zkVM's input stream, three of which must be 32
  bytes, and \<open>commit_slice\<close> of what \<open>execute\<close> returns. Each \<open>expect\<close> is a branch.
\<close>

datatype guest_panic = InputNotThirtyTwoBytes | BlockDoesNotProve execution_error | InputExhausted

definition try_into_32 :: "byte list \<Rightarrow> guest_panic + bytes32" where
  "try_into_32 bs = (if length bs = 32 then Inr (b32 bs) else Inl InputNotThirtyTwoBytes)"

definition guest_main ::
  "primitives \<Rightarrow> byte list \<Rightarrow> byte list \<Rightarrow> byte list \<Rightarrow> byte list \<Rightarrow> byte list \<Rightarrow> guest_panic + byte list" where
  "guest_main P domain old_root inbox_anchor batch_bytes sidecar_bytes =
     and_then (try_into_32 domain) (\<lambda>domain.
     and_then (try_into_32 old_root) (\<lambda>old_root.
     and_then (try_into_32 inbox_anchor) (\<lambda>inbox_anchor.
     map_sum BlockDoesNotProve id (execute P domain old_root inbox_anchor batch_bytes sidecar_bytes))))"

text \<open>
  The same, reading: the stream is a list of buffers, \<open>read_vec\<close> takes the next and panics when there
  is none, and each conversion happens as its buffer is read.
\<close>

definition read_vec :: "byte list list \<Rightarrow> guest_panic + byte list \<times> byte list list" where
  "read_vec stdin = (case stdin of [] \<Rightarrow> Inl InputExhausted | b # bs \<Rightarrow> Inr (b, bs))"

definition guest_reading :: "primitives \<Rightarrow> byte list list \<Rightarrow> guest_panic + byte list" where
  "guest_reading P stdin =
     and_then (read_vec stdin) (\<lambda>(b, stdin). and_then (try_into_32 b) (\<lambda>domain.
     and_then (read_vec stdin) (\<lambda>(b, stdin). and_then (try_into_32 b) (\<lambda>old_root.
     and_then (read_vec stdin) (\<lambda>(b, stdin). and_then (try_into_32 b) (\<lambda>inbox_anchor.
     and_then (read_vec stdin) (\<lambda>(batch_bytes, stdin).
     and_then (read_vec stdin) (\<lambda>(sidecar_bytes, stdin).
     map_sum BlockDoesNotProve id (execute P domain old_root inbox_anchor batch_bytes sidecar_bytes)))))))))"

lemma guest_reading_five:
  "guest_reading P (domain # old_root # inbox_anchor # batch_bytes # sidecar_bytes # rest)
     = guest_main P domain old_root inbox_anchor batch_bytes sidecar_bytes"
  by (simp add: guest_reading_def guest_main_def read_vec_def)

section \<open>The host\<close>

definition GENESIS_ROOT :: bytes32 where
  "GENESIS_ROOT = zero32"

record settlement =
  settlement_domain :: deployment_domain
  settlement_old_root :: bytes32
  settlement_new_root :: bytes32
  settlement_old_inbox_chain :: bytes32
  settlement_new_inbox_chain :: bytes32
  settlement_withdrawal_chain :: bytes32
  settlement_deposits :: "(address \<times> u64) list"
  settlement_withdrawals :: "(l1_address \<times> u64) list"
  settlement_requests :: "(address \<times> l1_address) list"
  settlement_inbox :: "inbox_item list"
  settlement_txn_count :: nat
  settlement_batch_bytes :: "byte list"
  settlement_sidecar_bytes :: "byte list"
  settlement_public_values :: "byte list"

fun txn_deposit :: "transaction \<Rightarrow> (address \<times> u64) option" where
  "txn_deposit (Deposit d) = Some (deposit_receiver d, deposit_amount d)"
| "txn_deposit _ = None"

fun txn_request :: "transaction \<Rightarrow> (address \<times> l1_address) option" where
  "txn_request (ForcedWithdrawal f) = Some (forced_address f, forced_recipient f)"
| "txn_request _ = None"

definition slice :: "nat \<Rightarrow> nat \<Rightarrow> 'a list \<Rightarrow> 'a list" where
  "slice i j xs = take (j - i) (drop i xs)"

definition for_block :: "primitives \<Rightarrow> block \<Rightarrow> execution_error + settlement" where
  "for_block P blk =
     (let batch_bytes = batch_encode (block_batch blk);
          sidecar_bytes = sidecar_encode (block_sidecar blk) in
      and_then (execute P (block_domain blk) (block_old_root blk) (block_old_inbox_chain blk)
        batch_bytes sidecar_bytes) (\<lambda>values.
      if slice 32 64 values \<noteq> bytes_of (block_new_root blk)
         \<or> slice 128 160 values \<noteq> bytes_of (block_new_inbox_chain blk)
         \<or> slice 160 192 values \<noteq> bytes_of (block_withdrawal_chain blk)
      then Inl (VerificationFailed RootMismatch)
      else
        and_then (from_decode_error (batch_decode batch_bytes)) (\<lambda>b.
        and_then (from_decode_error (sidecar_decode sidecar_bytes b)) (\<lambda>s.
        Inr \<lparr>settlement_domain = block_domain blk,
             settlement_old_root = block_old_root blk,
             settlement_new_root = block_new_root blk,
             settlement_old_inbox_chain = block_old_inbox_chain blk,
             settlement_new_inbox_chain = block_new_inbox_chain blk,
             settlement_withdrawal_chain = block_withdrawal_chain blk,
             settlement_deposits = List.map_filter txn_deposit (txns b),
             settlement_withdrawals = withdrawal_payouts b s,
             settlement_requests = List.map_filter txn_request (txns b),
             settlement_inbox = List.map_filter txn_inbox_item (txns b),
             settlement_txn_count = batch_len (block_batch blk),
             settlement_batch_bytes = batch_bytes,
             settlement_sidecar_bytes = sidecar_bytes,
             settlement_public_values = values\<rparr>))))"

definition settlement_withdrawal_links :: "primitives \<Rightarrow> settlement \<Rightarrow> withdrawal_link list" where
  "settlement_withdrawal_links P s =
     withdrawal_links (sha256 P) (settlement_domain s) (settlement_withdrawals s)"

definition settlement_batch_commitment :: "settlement \<Rightarrow> bytes32" where
  "settlement_batch_commitment s = b32 (slice 64 96 (settlement_public_values s))"

definition settlement_batch_length :: "settlement \<Rightarrow> nat" where
  "settlement_batch_length s = length (settlement_batch_bytes s)"

definition settlement_chunks :: "settlement \<Rightarrow> byte list list" where
  "settlement_chunks s = chunks CHUNK_SIZE (settlement_batch_bytes s)"

definition settlement_chunk_count :: "settlement \<Rightarrow> nat" where
  "settlement_chunk_count s = chunk_count (length (settlement_batch_bytes s))"

definition settles_from_genesis :: "settlement \<Rightarrow> bool" where
  "settles_from_genesis s \<longleftrightarrow>
     settlement_old_root s = GENESIS_ROOT \<and> settlement_old_inbox_chain s = INBOX_CHAIN_GENESIS"

text \<open>Lowercase hex of a byte string, as text.\<close>

definition hex_digit :: "nat \<Rightarrow> char" where
  "hex_digit n = ''0123456789abcdef'' ! n"

definition hex :: "byte list \<Rightarrow> string" where
  "hex bs = concat (map (\<lambda>b. [hex_digit (unat b div 16), hex_digit (unat b mod 16)]) bs)"

section \<open>Slices of the public values\<close>

lemma slice_append: "length xs = i \<Longrightarrow> length ys = j - i \<Longrightarrow> slice i j (xs @ ys @ zs) = ys"
  by (simp add: slice_def)

lemma slice_public_values:
  assumes v_def: "v = public_values H d old_root rt bs oi ni w"
  shows "slice 0 32 v = bytes_of old_root" "slice 32 64 v = bytes_of rt"
    "slice 64 96 v = bytes_of (batch_commitment H d bs)" "slice 96 128 v = bytes_of oi"
    "slice 128 160 v = bytes_of ni" "slice 160 192 v = bytes_of w"
  by (simp_all add: v_def public_values_eq slice_def)

section \<open>Soundness of the guest\<close>

lemma execute_Inr:
  assumes "execute P domain old_root anchor batch_bytes sidecar_bytes = Inr values"
  shows "\<exists>b s rt i w. batch_decode batch_bytes = Inr b \<and> sidecar_decode sidecar_bytes b = Inr s
    \<and> verify_batch P domain old_root anchor b s = Inr (rt, i, w)
    \<and> values = public_values (sha256 P) domain old_root rt batch_bytes anchor i w"
  using assms
  by (auto simp: execute_def from_decode_error_def from_verification_error_def and_then_def
      split: sum.splits prod.splits)
     (auto simp: map_sum_def split: sum.splits)

lemma execute_eq:
  assumes "batch_decode batch_bytes = Inr b" and "sidecar_decode sidecar_bytes b = Inr s"
    and "verify_batch P domain old_root anchor b s = Inr (rt, i, w)"
  shows "execute P domain old_root anchor batch_bytes sidecar_bytes =
    Inr (public_values (sha256 P) domain old_root rt batch_bytes anchor i w)"
  using assms by (simp add: execute_def from_decode_error_def from_verification_error_def)

text \<open>Once both halves decode, the pairing errors of the replay cannot happen.\<close>

lemma execute_no_mismatch:
  assumes "execute P domain old_root anchor batch_bytes sidecar_bytes = Inl (VerificationFailed e)"
  shows "e \<noteq> SidecarLengthMismatch \<and> e \<noteq> SidecarKindMismatch"
proof -
  from assms obtain b s where b: "batch_decode batch_bytes = Inr b" and s: "sidecar_decode sidecar_bytes b = Inr s"
    and err: "verify_batch P domain old_root anchor b s = Inl e"
    by (auto simp: execute_def from_decode_error_def from_verification_error_def and_then_Inl_iff
        map_sum_def split: sum.splits prod.splits)
  note fits = sidecar_decode_fits [OF s]
  have "verify_txns P domain (zip (txns b) (entries s))
      \<lparr>running_root = old_root, running_inbox = anchor, running_payouts = []\<rparr> = Inl e"
    using err fits(1) by (auto simp: verify_batch_def and_then_Inl_iff)
  with verify_txns_no_mismatch [OF fits(2)] verify_txns_no_length_mismatch show ?thesis by metis
qed

section \<open>A built block goes through\<close>

fun wf_signed :: "signed_transaction \<Rightarrow> bool" where
  "wf_signed (SignedDeposit d) = wf_deposit d"
| "wf_signed (SignedForcedWithdrawal f) = wf_forced f"
| "wf_signed _ = True"

lemma signed_of_wf: "signed_of (t, e) = Some x \<Longrightarrow> wf_transaction t = wf_signed x"
  by (cases "(t, e)" rule: signed_of.cases) auto

lemma honest_depth:
  "wf_tree H t \<Longrightarrow> merkle.honest H t es \<Longrightarrow>
     list_all (\<lambda>(a, x, p, v). length (siblings p) \<le> 256) es"
proof (induction es arbitrary: t)
  case (Cons e es)
  obtain a x p v where e: "e = (a, x, p, v)" by (cases e)
  with Cons.prems have "wf_tree H (merkle.write_slot H t a v)" by (simp add: merkle.inv_write)
  with Cons tree_proof_depth [OF Cons.prems(1), of a] show ?case by (simp add: e)
qed simp

lemma built_entry_fits:
  assumes "signed_of y = Some x" and "fee_shape y"
    and "list_all (\<lambda>(a, x, p, v). length (siblings p) \<le> 256) (txn_events y)"
    and "length (encode_entry (snd y)) < 2 ^ 64"
  shows "entry_fits y"
proof -
  have sig: "signature_ok s" if "length (put_signature s) < 2 ^ 64" for s
    using that by (simp add: signature_ok_def put_signature_def put_bytes_def del: scheme_identifier.simps)
  show ?thesis
    using assms
  proof (induction y rule: signed_of.induct)
    case (1 p e)
    then show ?case
      by (cases "payment_fee_sink_witness e")
         (auto simp: witness_ok_def DEPTH_def debit_event_def credit_event_def fee_events_def intro!: sig)
  next
    case (3 w e)
    then show ?case
      by (cases "withdrawal_fee_sink_witness e")
         (auto simp: witness_ok_def DEPTH_def debit_event_def credit_event_def fee_events_def intro!: sig)
  qed (auto simp: witness_ok_def DEPTH_def credit_event_def forced_event_def)
qed

lemma built_block_fits:
  assumes wf: "wf_ledger P l" and built: "built_block P l blk"
    and len: "length (sidecar_encode (block_sidecar blk)) < 2 ^ 64"
  shows "list_all entry_fits (zip (txns (block_batch blk)) (entries (block_sidecar blk)))"
proof -
  let ?ys = "zip (txns (block_batch blk)) (entries (block_sidecar blk))"
  have "list_all (\<lambda>(a, x, p, v). length (siblings p) \<le> 256) (batch_events (block_batch blk) (block_sidecar blk))"
    using honest_depth wf built by (auto simp: built_block_def wf_ledger_def Let_def)
  then have depth: "list_all (\<lambda>(a, x, p, v). length (siblings p) \<le> 256) (txn_events y)" if "y \<in> set ?ys" for y
    using that by (auto simp: batch_events_def list_all_iff)
  have size: "length (encode_entry (snd y)) < 2 ^ 64" if "y \<in> set ?ys" for y
  proof -
    have "snd y \<in> set (entries (block_sidecar blk))" using that set_zip_rightD [of "fst y" "snd y"] by simp
    then have "length (encode_entry (snd y)) \<le> length (concat (map encode_entry (entries (block_sidecar blk))))"
      by (auto simp: length_concat intro!: member_le_sum_list)
    with len show ?thesis by (simp add: sidecar_encode_def)
  qed
  have "entry_fits y" if "y \<in> set ?ys" for y
    using built_entry_fits [OF _ _ depth [OF that] size [OF that]] built that
    by (auto simp: built_block_def Let_def list_all_iff)
  then show ?thesis by (simp add: list_all_iff)
qed

lemma built_block_wf:
  assumes "built_block P l blk" and "batch_signed (block_batch blk) (block_sidecar blk) = xs"
    and "list_all wf_signed xs"
  shows "list_all wf_transaction (txns (block_batch blk))"
proof -
  have "list_all wf_transaction ts" if "length ts = length es" "list_all (\<lambda>y. signed_of y \<noteq> None) (zip ts es)"
    "list_all wf_signed (List.map_filter signed_of (zip ts es))" for ts es
    using that
    by (induction ts es rule: list_induct2) (auto simp: map_filter_def signed_of_wf)
  from this [of "txns (block_batch blk)" "entries (block_sidecar blk)"] assms show ?thesis
    by (auto simp: built_block_def batch_signed_def Let_def list_all_iff)
qed

text \<open>
  A block a ledger builds goes through encoding, decoding and the replay, and what the guest
  commits are the words the block claims; the host's \<open>for_block\<close> accepts it.
\<close>

lemma verify_block_Inr_iff:
  "verify_block P blk = Inr () \<longleftrightarrow>
     verify_batch P (block_domain blk) (block_old_root blk) (block_old_inbox_chain blk)
       (block_batch blk) (block_sidecar blk)
     = Inr (block_new_root blk, block_new_inbox_chain blk, block_withdrawal_chain blk)"
  by (auto simp: verify_block_def and_then_def split: sum.splits if_splits)

lemma encoded_block_executes:
  assumes "verify_block P blk = Inr ()"
    and "list_all wf_transaction (txns (block_batch blk))"
    and "length (txns (block_batch blk)) = length (entries (block_sidecar blk))"
    and "list_all entry_fits (zip (txns (block_batch blk)) (entries (block_sidecar blk)))"
    and "length (batch_encode (block_batch blk)) < 2 ^ 64"
    and "length (sidecar_encode (block_sidecar blk)) < 2 ^ 64"
  shows "execute P (block_domain blk) (block_old_root blk) (block_old_inbox_chain blk)
      (batch_encode (block_batch blk)) (sidecar_encode (block_sidecar blk))
    = Inr (public_values (sha256 P) (block_domain blk) (block_old_root blk) (block_new_root blk)
        (batch_encode (block_batch blk)) (block_old_inbox_chain blk) (block_new_inbox_chain blk)
        (block_withdrawal_chain blk))"
  by (rule execute_eq [OF batch_decode_encode [OF assms(2,5)] sidecar_decode_encode [OF assms(3,4,6)]])
     (use assms(1) in \<open>simp add: verify_block_Inr_iff\<close>)

lemma for_block_of_executed:
  assumes "execute P (block_domain blk) (block_old_root blk) (block_old_inbox_chain blk)
      (batch_encode (block_batch blk)) (sidecar_encode (block_sidecar blk))
    = Inr (public_values (sha256 P) (block_domain blk) (block_old_root blk) (block_new_root blk)
        (batch_encode (block_batch blk)) (block_old_inbox_chain blk) (block_new_inbox_chain blk)
        (block_withdrawal_chain blk))"
    and "batch_decode (batch_encode (block_batch blk)) = Inr (block_batch blk)"
    and "sidecar_decode (sidecar_encode (block_sidecar blk)) (block_batch blk) = Inr (block_sidecar blk)"
  shows "\<exists>s. for_block P blk = Inr s
    \<and> settlement_inbox s = batch_inbox_items (block_batch blk)
    \<and> settlement_withdrawals s = withdrawal_payouts (block_batch blk) (block_sidecar blk)
    \<and> settlement_domain s = block_domain blk
    \<and> settlement_old_root s = block_old_root blk
    \<and> settlement_old_inbox_chain s = block_old_inbox_chain blk
    \<and> settlement_new_inbox_chain s = block_new_inbox_chain blk
    \<and> settlement_withdrawal_chain s = block_withdrawal_chain blk
    \<and> settlement_batch_bytes s = batch_encode (block_batch blk)
    \<and> settlement_public_values s = public_values (sha256 P) (block_domain blk) (block_old_root blk)
        (block_new_root blk) (batch_encode (block_batch blk)) (block_old_inbox_chain blk)
        (block_new_inbox_chain blk) (block_withdrawal_chain blk)"
  using assms
  by (simp add: for_block_def Let_def slice_public_values [OF refl] from_decode_error_def batch_inbox_items_def)

text \<open>Both halves of a built block decode to themselves, and the guest runs on them.\<close>

lemma built_block_wire:
  assumes "wf_ledger P l" and "list_all wf_signed xs" and "get_block P xs l = Inr (blk, l')"
    and "length (batch_encode (block_batch blk)) < 2 ^ 64"
    and "length (sidecar_encode (block_sidecar blk)) < 2 ^ 64"
  shows "batch_decode (batch_encode (block_batch blk)) = Inr (block_batch blk)"
    and "sidecar_decode (sidecar_encode (block_sidecar blk)) (block_batch blk) = Inr (block_sidecar blk)"
    and "execute P (block_domain blk) (block_old_root blk) (block_old_inbox_chain blk)
      (batch_encode (block_batch blk)) (sidecar_encode (block_sidecar blk))
    = Inr (public_values (sha256 P) (block_domain blk) (block_old_root blk) (block_new_root blk)
        (batch_encode (block_batch blk)) (block_old_inbox_chain blk) (block_new_inbox_chain blk)
        (block_withdrawal_chain blk))"
proof -
  have built: "built_block P l blk" by (rule get_block_cases [OF assms(1,3)])
  note claims = get_block_claims [OF assms(1,3)]
  note wf = built_block_wf [OF built claims(5) assms(2)]
  have len: "length (txns (block_batch blk)) = length (entries (block_sidecar blk))"
    using built by (simp add: built_block_def Let_def)
  note fits = built_block_fits [OF assms(1) built assms(5)]
  show "batch_decode (batch_encode (block_batch blk)) = Inr (block_batch blk)"
    by (rule batch_decode_encode [OF wf assms(4)])
  show "sidecar_decode (sidecar_encode (block_sidecar blk)) (block_batch blk) = Inr (block_sidecar blk)"
    by (rule sidecar_decode_encode [OF len fits assms(5)])
  show "execute P (block_domain blk) (block_old_root blk) (block_old_inbox_chain blk)
      (batch_encode (block_batch blk)) (sidecar_encode (block_sidecar blk))
    = Inr (public_values (sha256 P) (block_domain blk) (block_old_root blk) (block_new_root blk)
        (batch_encode (block_batch blk)) (block_old_inbox_chain blk) (block_new_inbox_chain blk)
        (block_withdrawal_chain blk))"
    by (rule encoded_block_executes [OF claims(1) wf len fits assms(4,5)])
qed

end
