(* ===== verification/Rollup_Properties.thy ===== *)
theory Rollup_Properties
  imports Toy Execution
begin

text \<open>
  What a run of transactions promises account holders and the settlement contract: value,
  authorization, nonces, payouts, forced withdrawals, and the ledger's own invariant. The
  theorems that span the replay, the ledger and the wire are in the root theory.
\<close>

section \<open>An example run\<close>

text \<open>
  Alice holds a managed key. A deposit of 200000 for her, a payment of 300 to Bob with a fee of
  10, a withdrawal of 100000, and an L1-ordered withdrawal of what little Bob has.
\<close>

definition alice :: address where "alice = address_from_public_key toy_hash Managed [1]"
definition bob :: address where "bob = addr 130"

definition alice_sig :: signature where
  "alice_sig = \<lparr>sig_scheme = Managed, sig_pub_key = [1], sig_bytes = []\<rparr>"

definition ex_stxns :: "signed_transaction list" where
  "ex_stxns =
     [SignedDeposit (deposit_new alice 200000),
      SignedPayment (payment_new alice bob 300 10) alice_sig,
      SignedWithdrawal (withdrawal_new alice (addr 9) 100000 0) alice_sig,
      SignedForcedWithdrawal (forced_withdrawal_new bob (addr 8))]"

definition ex_ledger :: ledger where "ex_ledger = ledger_with_domain zero32"

definition ex_start :: rollup where
  "ex_start = \<lparr>spec_accounts = Map.empty, spec_items = [], spec_payouts = []\<rparr>"

lemma ex_ledger_rollup [simp]: "ledger_rollup ex_ledger = ex_start"
  by (simp add: ledger_rollup_def ex_ledger_def ex_start_def ledger_with_domain_def)

lemma ex_ledger_wf [simp]: "wf_ledger P ex_ledger" "ledger_domain ex_ledger = zero32"
  by (simp_all add: ex_ledger_def) (simp add: ledger_with_domain_def)

definition accepted :: "'e + 'a \<Rightarrow> bool" where "accepted r = (case r of Inl _ \<Rightarrow> False | Inr _ \<Rightarrow> True)"

lemma accepted_ex: "accepted r \<Longrightarrow> \<exists>x. r = Inr x"
  by (cases r) (simp_all add: accepted_def)

lemma ex_run: "\<exists>st. spec_txns toy zero32 ex_stxns ex_start = Inr st"
  by (rule accepted_ex) code_simp

lemma ex_block_builds: "\<exists>(blk :: block) l'. get_block toy ex_stxns ex_ledger = Inr (blk, l')"
proof -
  obtain st where "spec_txns toy (ledger_domain ex_ledger) ex_stxns (ledger_rollup ex_ledger) = Inr st"
    using ex_run by auto
  from get_block_Inr [OF ex_ledger_wf(1) this] show ?thesis by blast
qed

section \<open>Value\<close>

text \<open>C23: Value is conserved: whatever block a ledger builds, what its accounts hold afterwards plus
  the payouts the block owes is what they held before plus what the block's deposits brought in.
  Payments, fees and self-payments move value and never make or lose any; nothing overflows.\<close>

theorem block_conserves_value:
  assumes "wf_ledger P l" and "get_block P xs l = Inr (blk, l')"
  shows "total (ledger_accounts l') + paid_out (withdrawal_payouts (block_batch blk) (block_sidecar blk))
    = total (ledger_accounts l) + deposited (batch_inbox_items (block_batch blk))"
proof -
  have "tree_accounts (ledger_tree l) = ledger_accounts l" using assms(1) by (simp add: wf_ledger_def)
  then have fin: "finite (dom (spec_accounts (ledger_rollup l)))"
    by (simp add: ledger_rollup_def tree_accounts_def flip: \<open>tree_accounts (ledger_tree l) = ledger_accounts l\<close>)
  show ?thesis
  proof (rule get_block_cases [OF assms])
    fix st
    assume run: "spec_txns P (ledger_domain l) xs (ledger_rollup l) = Inr st"
      and st: "ledger_accounts l' = spec_accounts st" "spec_items st = batch_inbox_items (block_batch blk)"
        "spec_payouts st = withdrawal_payouts (block_batch blk) (block_sidecar blk)"
    show ?thesis
      using spec_txns_conserves [OF run fin] by (simp add: st ledger_rollup_def)
  qed
qed

lemma block_conserves_value_witness:
  "\<exists>(blk :: block) l'. get_block toy ex_stxns ex_ledger = Inr (blk, l') \<and>
     total (ledger_accounts l') + paid_out (withdrawal_payouts (block_batch blk) (block_sidecar blk))
       = deposited (batch_inbox_items (block_batch blk))"
proof -
  obtain blk l' where blk: "get_block toy ex_stxns ex_ledger = Inr (blk, l')"
    using ex_block_builds by blast
  have "total (ledger_accounts ex_ledger) = 0"
    by (simp add: ex_ledger_def ledger_with_domain_def total_def)
  with block_conserves_value [OF ex_ledger_wf(1) blk] blk show ?thesis by simp
qed

text \<open>L1 is never asked for a payout it could not make: every payout of a batch that verifies is
  at least \<open>MIN_WITHDRAWAL\<close>, forced withdrawals included.\<close>

theorem payouts_at_least_minimum:
  assumes "verify_batch P domain old_root anchor b s = Inr out"
  shows "list_all (\<lambda>(recipient, amt). amt \<ge> MIN_WITHDRAWAL) (withdrawal_payouts b s)"
proof -
  have one: "list_all (\<lambda>(recipient, amt). amt \<ge> MIN_WITHDRAWAL) (List.map_filter txn_payout [x])"
    if "verify_txn P domain x st = Inr st'" for x st st'
    using that
    by (induction P domain x st rule: verify_txn.induct)
       (auto simp: verify_withdrawal_def map_filter_def Let_def not_less split: if_splits)
  have "list_all (\<lambda>(recipient, amt). amt \<ge> MIN_WITHDRAWAL) (List.map_filter txn_payout xs)"
    if "verify_txns P domain xs st = Inr st'" for xs st st'
    using that
  proof (induction xs arbitrary: st)
    case (Cons x xs)
    then obtain st1 where "verify_txn P domain x st = Inr st1" "verify_txns P domain xs st1 = Inr st'"
      by (auto simp: result_simps)
    with Cons.IH one show ?case by (subst map_filter_Cons) simp
  qed (simp add: map_filter_def)
  with assms show ?thesis by (auto simp: verify_batch_def withdrawal_payouts_def result_simps split: if_splits)
qed

lemma payouts_at_least_minimum_witness:
  "\<exists>b s. withdrawal_payouts b s = [(addr 9, 100000)]
     \<and> list_all (\<lambda>(recipient, amt). amt \<ge> MIN_WITHDRAWAL) (withdrawal_payouts b s)"
proof -
  have "case get_block toy ex_stxns ex_ledger of Inl _ \<Rightarrow> False
    | Inr (blk, _) \<Rightarrow> withdrawal_payouts (block_batch blk) (block_sidecar blk) = [(addr 9, 100000)]"
    by code_simp
  then obtain blk l' where blk: "get_block toy ex_stxns ex_ledger = Inr (blk, l')"
    and payouts: "withdrawal_payouts (block_batch blk) (block_sidecar blk) = [(addr 9, 100000)]"
    by (auto split: sum.splits)
  obtain st where "spec_txns toy (ledger_domain ex_ledger) ex_stxns (ledger_rollup ex_ledger) = Inr st"
    using ex_run by auto
  from get_block_Inr [OF ex_ledger_wf(1) this] blk have "verify_block toy blk = Inr ()" by auto
  then show ?thesis using payouts payouts_at_least_minimum unfolding verify_block_Inr_iff by metis
qed

section \<open>Authorization and nonces\<close>

text \<open>The specification first.\<close>

lemma spec_spend_authorized:
  assumes "spec_txn P domain x st = Inr st'"
    and "spec_accounts st a = Some acc" and "spec_accounts st' a = Some acc'"
    and "amount acc' < amount acc \<or> nonce acc' \<noteq> nonce acc"
  shows "(\<exists>p sig. x = SignedPayment p sig \<and> header_sender (payment_header p) = a \<and>
       signature_verify P sig (acc\<lparr>nonce := nonce acc + 1\<rparr>)
         (payment_bytes_to_sign p domain (nonce acc + 1)) = Inr ())
   \<or> (\<exists>w sig. x = SignedWithdrawal w sig \<and> header_sender (withdrawal_header w) = a \<and>
       signature_verify P sig (acc\<lparr>nonce := nonce acc + 1\<rparr>)
         (withdrawal_bytes_to_sign w domain (nonce acc + 1)) = Inr ())
   \<or> (\<exists>f. x = SignedForcedWithdrawal f \<and> forced_address f = a)"
proof (rule ccontr)
  assume unauthorized: "\<not> ?thesis"
  have up: "\<exists>c. m' a = Some c \<and> amount acc \<le> amount c \<and> nonce c = nonce acc"
    if "spec_credit b amt m = Inr m'" "\<exists>c. m a = Some c \<and> amount acc \<le> amount c \<and> nonce c = nonce acc" for b amt m m'
    using that by (auto simp: result_simps Let_def word_le_nat_alt unat_word_ariths)
  have fee: "\<exists>c. m' a = Some c \<and> amount acc \<le> amount c \<and> nonce c = nonce acc"
    if "spec_fee f m = Inr m'" "\<exists>c. m a = Some c \<and> amount acc \<le> amount c \<and> nonce c = nonce acc" for f m m'
    using that by (auto simp: spec_fee_def up split: if_splits)
  have start: "\<exists>c. spec_accounts st a = Some c \<and> amount acc \<le> amount c \<and> nonce c = nonce acc"
    using assms(2) by simp
  have "\<exists>c. spec_accounts st' a = Some c \<and> amount acc \<le> amount c \<and> nonce c = nonce acc"
  proof (cases x)
    case (SignedPayment p sig)
    with assms(1) obtain m m1 where d: "spec_debit P (header_sender (payment_header p)) sig (payment_amount p)
        (header_fee (payment_header p)) (payment_bytes_to_sign p domain) (spec_accounts st) = Inr m"
      and rest: "spec_credit (payment_receiver p) (payment_amount p) m = Inr m1"
        "spec_fee (header_fee (payment_header p)) m1 = Inr (spec_accounts st')"
      by (auto simp: and_then_Inr_iff)
    have "a \<noteq> header_sender (payment_header p)"
      using spec_debit_advances [OF d] unauthorized SignedPayment assms(2) by auto
    then have "m a = spec_accounts st a" using spec_debit_slot(3) [OF d] by simp
    with start up [OF rest(1)] fee [OF rest(2)] show ?thesis by simp
  next
    case (SignedDeposit d)
    with assms(1) start up show ?thesis by (auto simp: and_then_Inr_iff)
  next
    case (SignedWithdrawal w sig)
    with assms(1) obtain m where d: "spec_debit P (header_sender (withdrawal_header w)) sig (withdrawal_amount w)
        (header_fee (withdrawal_header w)) (withdrawal_bytes_to_sign w domain) (spec_accounts st) = Inr m"
      and rest: "spec_fee (header_fee (withdrawal_header w)) m = Inr (spec_accounts st')"
      by (auto simp: and_then_Inr_iff split: if_splits)
    have "a \<noteq> header_sender (withdrawal_header w)"
      using spec_debit_advances [OF d] unauthorized SignedWithdrawal assms(2) by auto
    then have "m a = spec_accounts st a" using spec_debit_slot(3) [OF d] by simp
    with start fee [OF rest] show ?thesis by simp
  next
    case (SignedForcedWithdrawal f)
    with assms(1) obtain m where "spec_empty (header_sender (forced_header f)) (spec_accounts st) = Inr m"
      "spec_accounts st' = m" by (auto simp: and_then_Inr_iff Let_def)
    moreover have "a \<noteq> header_sender (forced_header f)"
      using unauthorized SignedForcedWithdrawal by (auto simp: forced_address_def)
    ultimately show ?thesis using start spec_empty_slot(2) by metis
  qed
  with assms(3,4) show False by auto
qed

text \<open>C16: An account's balance falls, or its nonce moves, only by its own authority: by a payment or
  a withdrawal it sends, under a signature that verifies against its own authorization address
  over that very spend at its next nonce, or by a withdrawal L1 ordered for it.\<close>

theorem spending_needs_authorization:
  assumes "wf_ledger P (builder_ledger b)" and "get_block_txn P domain x b = Inr b'"
    and "ledger_accounts (builder_ledger b) a = Some acc" and "ledger_accounts (builder_ledger b') a = Some acc'"
    and "amount acc' < amount acc \<or> nonce acc' \<noteq> nonce acc"
  shows "(\<exists>p sig. x = SignedPayment p sig \<and> header_sender (payment_header p) = a \<and>
       signature_verify P sig (acc\<lparr>nonce := nonce acc + 1\<rparr>)
         (payment_bytes_to_sign p domain (nonce acc + 1)) = Inr ())
   \<or> (\<exists>w sig. x = SignedWithdrawal w sig \<and> header_sender (withdrawal_header w) = a \<and>
       signature_verify P sig (acc\<lparr>nonce := nonce acc + 1\<rparr>)
         (withdrawal_bytes_to_sign w domain (nonce acc + 1)) = Inr ())
   \<or> (\<exists>f. x = SignedForcedWithdrawal f \<and> forced_address f = a)"
proof (rule get_block_txn_cases [OF assms(1,2)])
  fix st
  assume "spec_txn P domain x (ledger_rollup (builder_ledger b)) = Inr st"
    and "ledger_accounts (builder_ledger b') = spec_accounts st"
  with spec_spend_authorized [OF this(1)] assms(3-5) show ?thesis by (simp add: ledger_rollup_def)
qed

lemma spending_needs_authorization_witness:
  "signature_verify toy alice_sig ((account_new 0 200000 alice)\<lparr>nonce := 1\<rparr>)
     (payment_bytes_to_sign (payment_new alice bob 300 10) zero32 1) = Inr ()"
proof -
  let ?acc = "account_new 0 200000 alice"
  let ?b = "\<lparr>builder_ledger = insert_account toy alice ?acc ex_ledger, builder_payouts = [],
    builder_txns = [], builder_entries = []\<rparr> :: block_builder"
  have x: "ex_stxns ! 1 = SignedPayment (payment_new alice bob 300 10) alice_sig" by (simp add: ex_stxns_def)
  have wf: "wf_ledger toy (builder_ledger ?b)" by (simp add: wf_ledger_insert_account)
  have "case get_block_txn toy zero32 (ex_stxns ! 1) ?b of Inl _ \<Rightarrow> False
    | Inr b \<Rightarrow> map_option nonce (ledger_accounts (builder_ledger b) alice) = Some 1" by code_simp
  then obtain b' acc' where b': "get_block_txn toy zero32 (ex_stxns ! 1) ?b = Inr b'"
    "ledger_accounts (builder_ledger b') alice = Some acc'" "nonce acc' = 1"
    by (auto split: sum.splits)
  have "ledger_accounts (builder_ledger ?b) alice = Some ?acc" by (simp add: insert_account_def)
  moreover have "nonce acc' \<noteq> nonce ?acc" using b'(3) by (simp add: account_new_def)
  ultimately show ?thesis
    using spending_needs_authorization [OF wf b'(1) _ b'(2)] x by (simp add: account_new_def)
qed

text \<open>The blocks a sequencer builds one after the other, and the messages it checked a signature over
  while building them.\<close>

primrec get_blocks :: "primitives \<Rightarrow> signed_transaction list list \<Rightarrow> ledger \<Rightarrow> panic + ledger" where
  "get_blocks P [] l = Inr l"
| "get_blocks P (xs # xss) l = and_then (get_block P xs l) (\<lambda>(blk, l). get_blocks P xss l)"

primrec blocks_messages :: "primitives \<Rightarrow> signed_transaction list list \<Rightarrow> ledger \<Rightarrow> byte list list" where
  "blocks_messages P [] l = []"
| "blocks_messages P (xs # xss) l = run_messages P (ledger_domain l) xs (ledger_rollup l)
     @ (case get_block P xs l of Inl _ \<Rightarrow> [] | Inr (blk, l) \<Rightarrow> blocks_messages P xss l)"

lemma blocks_messages_fresh:
  assumes "wf_ledger P l" and "get_blocks P xss l = Inr l'"
  shows "distinct (blocks_messages P xss l) \<and>
    (\<forall>msg\<in>set (blocks_messages P xss l). \<exists>a n. spends_at a n msg \<and> nonce_of (ledger_accounts l a) < n)"
  using assms
proof (induction xss arbitrary: l)
  case (Cons xs xss)
  then obtain blk l1 where l1: "get_block P xs l = Inr (blk, l1)" "get_blocks P xss l1 = Inr l'"
    by (auto simp: and_then_Inr_iff)
  obtain st where st: "spec_txns P (ledger_domain l) xs (ledger_rollup l) = Inr st"
    and wf1: "wf_ledger P l1" and acc1: "ledger_accounts l1 = spec_accounts st"
    by (rule get_block_cases [OF Cons.prems(1) l1(1)])
  have start: "spec_accounts (ledger_rollup l) = ledger_accounts l" by (simp add: ledger_rollup_def)
  note run = run_messages_fresh [OF st, unfolded start]
  note rest = Cons.IH [OF wf1 l1(2)]
  have mono: "nonce_of (ledger_accounts l a) \<le> nonce_of (ledger_accounts l1 a)" for a
    using spec_txns_grows [OF st, of a] by (simp add: grows_def acc1 start)
  have "set (run_messages P (ledger_domain l) xs (ledger_rollup l)) \<inter> set (blocks_messages P xss l1) = {}"
  proof (rule ccontr)
    assume "\<not> ?thesis"
    then obtain msg a n b k where "spends_at a n msg" "n \<le> nonce_of (spec_accounts st a)"
      "spends_at b k msg" "nonce_of (ledger_accounts l1 b) < k"
      using run rest by blast
    with spends_at_unique [of a n msg b k] show False by (simp add: acc1)
  qed
  moreover have "\<exists>a n. spends_at a n msg \<and> nonce_of (ledger_accounts l a) < n"
    if "msg \<in> set (run_messages P (ledger_domain l) xs (ledger_rollup l)) \<union> set (blocks_messages P xss l1)" for msg
    using run rest that mono by (meson UnE le_less_trans)
  ultimately show ?case using run rest l1(1) by simp
qed simp

text \<open>C22: No signature can be used twice: over any sequence of blocks a ledger builds, the messages
  the signatures had to cover are pairwise different. A signature over one of them authorizes none
  of the others, so nothing can be replayed, within a block or across blocks.\<close>

theorem signed_messages_distinct:
  assumes "wf_ledger P l" and "get_blocks P xss l = Inr l'"
  shows "distinct (blocks_messages P xss l)"
  using blocks_messages_fresh [OF assms] by simp

lemma signed_messages_distinct_witness:
  "distinct (blocks_messages toy [take 2 ex_stxns, drop 2 ex_stxns] ex_ledger)
     \<and> length (blocks_messages toy [take 2 ex_stxns, drop 2 ex_stxns] ex_ledger) = 2"
proof -
  have "accepted (get_blocks toy [take 2 ex_stxns, drop 2 ex_stxns] ex_ledger)" by code_simp
  then obtain l' where l': "get_blocks toy [take 2 ex_stxns, drop 2 ex_stxns] ex_ledger = Inr l'"
    using accepted_ex by blast
  have "length (blocks_messages toy [take 2 ex_stxns, drop 2 ex_stxns] ex_ledger) = 2" by code_simp
  with signed_messages_distinct [OF ex_ledger_wf(1) l'] show ?thesis by blast
qed

text \<open>Whatever block a ledger builds, no account leaves the state, none changes the key it is bound
  to, and no nonce goes back; an account that appears is bound to the key its address was derived
  from, so paying an address cannot plant a key there.\<close>

theorem accounts_only_grow:
  assumes "wf_ledger P l" and "get_block P xs l = Inr (blk, l')"
  shows "(\<forall>acc. ledger_accounts l a = Some acc \<longrightarrow>
       (\<exists>acc'. ledger_accounts l' a = Some acc' \<and> auth_address acc' = auth_address acc \<and> nonce acc \<le> nonce acc'))
    \<and> (\<forall>acc'. ledger_accounts l a = None \<and> ledger_accounts l' a = Some acc' \<longrightarrow> auth_address acc' = a)"
proof (rule get_block_cases [OF assms])
  fix st
  assume "spec_txns P (ledger_domain l) xs (ledger_rollup l) = Inr st" "ledger_accounts l' = spec_accounts st"
  with spec_txns_grows [OF this(1), of a] show ?thesis
    by (cases "spec_accounts st a") (auto simp: grows_def word_le_nat_alt ledger_rollup_def)
qed

lemma accounts_only_grow_witness:
  "\<exists>(blk :: block) l'. get_block toy ex_stxns ex_ledger = Inr (blk, l') \<and>
     (\<forall>acc. ledger_accounts l' bob = Some acc \<longrightarrow> auth_address acc = bob)"
proof -
  obtain blk l' where blk: "get_block toy ex_stxns ex_ledger = Inr (blk, l')"
    using ex_block_builds by blast
  have "ledger_accounts ex_ledger bob = None" by (simp add: ex_ledger_def ledger_with_domain_def)
  with accounts_only_grow [OF ex_ledger_wf(1) blk, of bob] blk show ?thesis by auto
qed

section \<open>Forced withdrawals\<close>

text \<open>C30: A request L1 filed can always be answered: with the witness the tree gives, whatever the
  account holds and whether or not it exists, the replay accepts it, pays out the whole balance
  when it reaches the minimum and nothing otherwise, and folds it into the inbox chain either
  way. Only an exhausted nonce can stand in the way.\<close>

theorem forced_withdrawal_always_answerable:
  assumes "wf_tree (sha256 P) t" and "running_root st = root (sha256 P) t"
    and "nonce_of (tree_accounts t (forced_address f)) + 1 < 2 ^ 64"
  shows "\<exists>st'. verify_forced P f \<lparr>forced_sender_witness = \<lparr>old_account = tree_accounts t (forced_address f),
        witness_proof = tree_proof (sha256 P) t (forced_address f)\<rparr>\<rparr> st = Inr st'
    \<and> running_inbox st' = accumulate_request (sha256 P) (running_inbox st) (forced_address f) (forced_recipient f)
    \<and> (let balance = balance_of (tree_accounts t (forced_address f)) in
       running_payouts st' = running_payouts st
         @ (if balance \<ge> MIN_WITHDRAWAL then [(forced_recipient f, balance)] else [])
       \<and> running_root st' = root (sha256 P) (case tree_accounts t (forced_address f) of
           Some acc \<Rightarrow> if balance \<ge> MIN_WITHDRAWAL
             then update (sha256 P) t (forced_address f) (Some (acc\<lparr>nonce := nonce acc + 1, amount := 0\<rparr>)) else t
         | None \<Rightarrow> t))"
proof (cases "tree_accounts t (forced_address f)")
  case None
  then show ?thesis
    using root_from_tree_proof [OF assms(1), of "forced_address f"] assms(2)
    by (simp add: verify_forced_def forced_address_def expect_pre_state_def root_with_def Let_def
        MIN_WITHDRAWAL_def)
next
  case (Some acc)
  let ?new = "acc\<lparr>nonce := nonce acc + 1, amount := 0\<rparr>"
  have "bump_nonce (acc\<lparr>amount := 0\<rparr>) = Inr ?new"
    using assms(3) Some by (simp add: bump_nonce_Inr_iff)
  with Some show ?thesis
    using root_from_tree_proof [OF assms(1), of "forced_address f"] assms(2)
      root_after_write [OF assms(1), of "forced_address f" ?new]
    by (simp add: verify_forced_def forced_address_def expect_pre_state_def root_with_def Let_def)
qed

lemma forced_withdrawal_always_answerable_witness:
  "\<exists>st'. verify_forced toy (forced_withdrawal_new bob (addr 8))
      \<lparr>forced_sender_witness = \<lparr>old_account = None, witness_proof = tree_proof toy_hash tree_new bob\<rparr>\<rparr>
      \<lparr>running_root = root toy_hash tree_new, running_inbox = zero32, running_payouts = []\<rparr> = Inr st'
    \<and> running_payouts st' = []"
  using forced_withdrawal_always_answerable [of toy tree_new
      "\<lparr>running_root = root toy_hash tree_new, running_inbox = zero32, running_payouts = []\<rparr>"
      "forced_withdrawal_new bob (addr 8)"]
  by (auto simp: MIN_WITHDRAWAL_def)

section \<open>The ledger\<close>

text \<open>The ledger's tree always commits to exactly its account map: an empty ledger is in step,
  and creating or inserting accounts and building a block, whatever the transactions, keep it so.\<close>

theorem ledger_stays_in_step:
  "wf_ledger P (ledger_with_domain domain)
   \<and> (wf_ledger P l \<longrightarrow> wf_ledger P (insert_account P a acc l)
       \<and> wf_ledger P (snd (create_account P s key l))
       \<and> (\<forall>blk l'. get_block P xs l = Inr (blk, l') \<longrightarrow> wf_ledger P l'))"
proof -
  have "wf_ledger P l'" if wf: "wf_ledger P l" and "get_block P xs l = Inr (blk, l')" for blk l'
  proof (cases "spec_txns P (ledger_domain l) xs (ledger_rollup l)")
    case (Inl e)
    with get_block_Inl [OF wf] that(2) show ?thesis by simp
  next
    case (Inr st)
    with get_block_Inr [OF wf] that(2) show ?thesis by fastforce
  qed
  then show ?thesis by (simp add: wf_ledger_insert_account wf_ledger_create_account)
qed

lemma ledger_stays_in_step_witness: "wf_ledger toy (snd (create_account toy Managed [1] ex_ledger))"
  using ledger_stays_in_step [of toy zero32 ex_ledger] by simp

text \<open>Registering a key never touches an account that exists, however often it is repeated; a new
  account is empty and bound to the address of the key.\<close>

theorem create_account_preserves:
  "(let (a, l') = create_account P s key l in
      a = address_from_public_key (sha256 P) s key \<and>
      ledger_accounts l' = (ledger_accounts l)
        (a \<mapsto> (case ledger_accounts l a of Some acc \<Rightarrow> acc | None \<Rightarrow> account_empty a)) \<and>
      create_account P s key l' = (a, l'))"
  by (auto simp: create_account_def account_from_public_key_def insert_account_def Let_def
      split: option.splits)

end
