(* ===== verification/Falcon_Signing.thy ===== *)
theory Falcon_Signing
  imports Ledger
begin

text \<open>
  The signing half of \<^verbatim>\<open>crates/falcon-det1024/src/lib.rs\<close>: the safe wrapper over the C library's
  seeded generator, key generation and compressed signing. The C functions and the Ed25519
  signer of \<^verbatim>\<open>ed25519-dalek\<close> are parameters.
\<close>

section \<open>The libraries that sign\<close>

text \<open>
  A C context is its opaque words. Key generation takes the context and answers with a status, the
  private key, the public key and the advanced context; signing takes the private key and the
  message and answers with a status, the buffer it filled and the length it wrote.
\<close>

definition PRIVATE_KEY_SIZE :: nat where "PRIVATE_KEY_SIZE = 2305"

record shake256_context =
  opaque_contents :: "u64 list"

record signers =
  ed25519_verifying_key :: "byte list \<Rightarrow> byte list"
  ed25519_sign :: "byte list \<Rightarrow> byte list \<Rightarrow> byte list"
  shake256_init_prng_from_seed :: "shake256_context \<Rightarrow> byte list \<Rightarrow> shake256_context"
  shake256_extract :: "shake256_context \<Rightarrow> nat \<Rightarrow> byte list \<times> shake256_context"
  falcon_det1024_keygen :: "shake256_context \<Rightarrow> int \<times> byte list \<times> byte list \<times> shake256_context"
  falcon_det1024_sign_compressed :: "byte list \<Rightarrow> byte list \<Rightarrow> int \<times> byte list \<times> nat"

definition shake256_zeroed :: shake256_context where
  "shake256_zeroed = \<lparr>opaque_contents = replicate 26 0\<rparr>"

section \<open>The generator\<close>

type_synonym prng = shake256_context

definition prng_from_seed :: "signers \<Rightarrow> byte list \<Rightarrow> prng" where
  "prng_from_seed S seed = shake256_init_prng_from_seed S shake256_zeroed seed"

text \<open>\<open>fill\<close> overwrites a buffer of the given length with the stream's next bytes.\<close>

definition prng_fill :: "signers \<Rightarrow> nat \<Rightarrow> prng \<Rightarrow> byte list \<times> prng" where
  "prng_fill S n rng = shake256_extract S rng n"

section \<open>Keys and signatures\<close>

record falcon_signing_key =
  falcon_private :: "byte list"
  falcon_public :: "byte list"

definition falcon_generate :: "signers \<Rightarrow> prng \<Rightarrow> panic + falcon_signing_key \<times> prng" where
  "falcon_generate S rng =
     (case falcon_det1024_keygen S rng of (result, private, public, rng) \<Rightarrow>
        if result = 0 then Inr (\<lparr>falcon_private = private, falcon_public = public\<rparr>, rng)
        else Inl AssertFailed)"

definition falcon_from_seed :: "signers \<Rightarrow> byte list \<Rightarrow> panic + falcon_signing_key" where
  "falcon_from_seed S seed = and_then (falcon_generate S (prng_from_seed S seed)) (\<lambda>(k, _). Inr k)"

definition sign_compressed :: "signers \<Rightarrow> falcon_signing_key \<Rightarrow> byte list \<Rightarrow> panic + byte list" where
  "sign_compressed S k message =
     (case falcon_det1024_sign_compressed S (falcon_private k) message of (result, buffer, len) \<Rightarrow>
        if result \<noteq> 0 then Inl AssertFailed
        else if len \<le> FALCON_MAX_SIGNATURE_SIZE then Inr (take len buffer)
        else Inl SliceOutOfRange)"

text \<open>No signature is longer than the format allows, whatever length the C side reports.\<close>

lemma sign_compressed_bound:
  "sign_compressed S k message = Inr sig \<Longrightarrow> length sig \<le> FALCON_MAX_SIGNATURE_SIZE"
  by (auto simp: sign_compressed_def split: prod.splits if_splits)

lemma falcon_from_seed_Inr_iff [result_simps]:
  "falcon_from_seed S seed = Inr k \<longleftrightarrow>
     (\<exists>rng. falcon_det1024_keygen S (prng_from_seed S seed) = (0, falcon_private k, falcon_public k, rng))"
  by (cases k) (auto simp: falcon_from_seed_def falcon_generate_def and_then_Inr_iff split: prod.splits if_splits)

end
