(* ===== verification/Scenarios.thy ===== *)
theory Scenarios
  imports Falcon_Signing Execution
begin

text \<open>
  The blocks the emitter settles: \<^verbatim>\<open>crates/sp1-host/src/scenarios.rs\<close>. Every scenario starts from
  the empty ledger; its \<open>build\<close> is a function of the deployment domain, here also of the
  cryptographic libraries the program links, and a panic of the source is \<open>Inl\<close>.
\<close>

section \<open>Managed accounts\<close>

definition SCHEME :: scheme where "SCHEME = Managed"

definition SCENARIO_FEE :: u64 where "SCENARIO_FEE = 10"

definition address_of :: "primitives \<Rightarrow> byte list \<Rightarrow> address" where
  "address_of P key = address_from_public_key (sha256 P) SCHEME key"

definition deposit_to :: "primitives \<Rightarrow> byte list \<Rightarrow> u64 \<Rightarrow> signed_transaction" where
  "deposit_to P key amt = SignedDeposit (deposit_new (address_of P key) amt)"

definition pay :: "primitives \<Rightarrow> byte list \<Rightarrow> address \<Rightarrow> u64 \<Rightarrow> signed_transaction" where
  "pay P key receiver amt =
     SignedPayment (payment_new (address_of P key) receiver amt SCENARIO_FEE) (signature_new SCHEME key [])"

definition withdraw :: "primitives \<Rightarrow> byte list \<Rightarrow> l1_address \<Rightarrow> u64 \<Rightarrow> signed_transaction" where
  "withdraw P key recipient amt =
     SignedWithdrawal (withdrawal_new (address_of P key) recipient amt SCENARIO_FEE) (signature_new SCHEME key [])"

definition l1_account :: "byte \<Rightarrow> l1_address" where
  "l1_account index = b32 (((replicate 32 0)[0 := index])[31 := 0xff])"

text \<open>\<open>Ledger::with_domain(domain).get_block(stxns)\<close>, with and without the ledger it leaves.\<close>

definition built_with_ledger ::
  "primitives \<Rightarrow> deployment_domain \<Rightarrow> signed_transaction list \<Rightarrow> panic + block \<times> ledger" where
  "built_with_ledger P domain stxns = get_block P stxns (ledger_with_domain domain)"

definition built :: "primitives \<Rightarrow> deployment_domain \<Rightarrow> signed_transaction list \<Rightarrow> panic + block" where
  "built P domain stxns = and_then (built_with_ledger P domain stxns) (\<lambda>(blk, _). Inr blk)"

text \<open>The transactions of each managed scenario, then the scenario.\<close>

type_synonym builder = "primitives \<Rightarrow> signers \<Rightarrow> deployment_domain \<Rightarrow> panic + block"

definition genesis_empty_batch :: builder where
  "genesis_empty_batch P S domain = built P domain []"

definition deposits_only_txns :: "primitives \<Rightarrow> signed_transaction list" where
  "deposits_only_txns P =
     [deposit_to P (ascii ''a key'') 1000,
      deposit_to P (ascii ''a key'') 1000,
      deposit_to P (ascii ''b key'') 500]"

definition deposits_only :: builder where
  "deposits_only P S domain = built P domain (deposits_only_txns P)"

definition payments_txns :: "primitives \<Rightarrow> signed_transaction list" where
  "payments_txns P =
     (let a = address_of P (ascii ''a key''); b = address_of P (ascii ''b key'');
          fresh = address_of P (ascii ''fresh key'') in
      [deposit_to P (ascii ''a key'') 1000,
       deposit_to P (ascii ''b key'') 500,
       pay P (ascii ''a key'') b 100,
       pay P (ascii ''b key'') fresh 50,
       pay P (ascii ''a key'') a 25])"

definition payments :: builder where
  "payments P S domain = built P domain (payments_txns P)"

definition withdrawals_txns :: "primitives \<Rightarrow> signed_transaction list" where
  "withdrawals_txns P =
     [deposit_to P (ascii ''a key'') 1000000,
      withdraw P (ascii ''a key'') (l1_account 1) MIN_WITHDRAWAL,
      withdraw P (ascii ''a key'') (l1_account 2) 250000,
      withdraw P (ascii ''a key'') (l1_account 3) 300000]"

definition withdrawals :: builder where
  "withdrawals P S domain = built P domain (withdrawals_txns P)"

definition duplicate_withdrawals_txns :: "primitives \<Rightarrow> signed_transaction list" where
  "duplicate_withdrawals_txns P =
     [deposit_to P (ascii ''a key'') 500000,
      withdraw P (ascii ''a key'') (l1_account 6) MIN_WITHDRAWAL,
      withdraw P (ascii ''a key'') (l1_account 6) MIN_WITHDRAWAL]"

definition duplicate_withdrawals :: builder where
  "duplicate_withdrawals P S domain = built P domain (duplicate_withdrawals_txns P)"

definition round_trip_txns :: "primitives \<Rightarrow> signed_transaction list" where
  "round_trip_txns P =
     (let b = address_of P (ascii ''b key'') in
      [deposit_to P (ascii ''a key'') 1000000,
       pay P (ascii ''a key'') b 400000,
       withdraw P (ascii ''b key'') (l1_account 4) 250000,
       withdraw P (ascii ''a key'') (l1_account 5) 100000])"

definition round_trip :: builder where
  "round_trip P S domain = built P domain (round_trip_txns P)"

definition multi_chunk_txns :: "primitives \<Rightarrow> signed_transaction list" where
  "multi_chunk_txns P =
     deposit_to P (ascii ''spender'') (300 * (1000000 + SCENARIO_FEE))
     # map (\<lambda>index. pay P (ascii ''spender'') (address_of P (to_be_bytes (of_nat index :: u32))) 1000000) [0..<300]"

definition multi_chunk :: builder where
  "multi_chunk P S domain = built P domain (multi_chunk_txns P)"

section \<open>Forced exits\<close>

definition EXIT_KEYS :: "byte list list" where
  "EXIT_KEYS =
     [[0xa0, 0xff, 0xaa, 0x0d, 0xde, 0x9d, 0xca, 0x42, 0x9e, 0x71, 0x60, 0x7d, 0x0b, 0x61, 0xc2,
       0xc7, 0x1e, 0x7a, 0xbd, 0xfe, 0xed, 0x45, 0xfa, 0x1d, 0x65, 0x44, 0x88, 0x35, 0xf6, 0x36,
       0x4d, 0xf2],
      [0xe1, 0xfd, 0xcf, 0x39, 0xa3, 0x35, 0xb2, 0xed, 0xfb, 0x3f, 0x5c, 0x1e, 0x91, 0xec, 0xc4,
       0x14, 0xc6, 0xdf, 0x2a, 0x54, 0xf3, 0xfc, 0xc7, 0x51, 0x4c, 0xc1, 0x13, 0x74, 0x18, 0xd2,
       0xce, 0x50]]"

definition EXIT_AMOUNTS :: "u64 list" where "EXIT_AMOUNTS = [5000000, 3000000]"

record exit_proof =
  exit_address :: address
  exit_pub_key :: "byte list"
  exit_nonce :: u64
  exit_amount :: u64
  exit_auth_address :: address
  exit_siblings :: "bytes32 list"

definition exit_address_of :: "primitives \<Rightarrow> byte list \<Rightarrow> address" where
  "exit_address_of P key = address_from_public_key (sha256 P) Ed25519 key"

definition exit_deposits :: "primitives \<Rightarrow> signed_transaction list" where
  "exit_deposits P =
     map (\<lambda>(key, amt). SignedDeposit (deposit_new (exit_address_of P key) amt)) (zip EXIT_KEYS EXIT_AMOUNTS)"

definition forced_exit_ledger :: "primitives \<Rightarrow> deployment_domain \<Rightarrow> panic + block \<times> ledger" where
  "forced_exit_ledger P domain = built_with_ledger P domain (exit_deposits P)"

definition forced_exit :: builder where
  "forced_exit P S domain = and_then (forced_exit_ledger P domain) (\<lambda>(blk, _). Inr blk)"

definition forced_inclusion_txns :: "primitives \<Rightarrow> signed_transaction list" where
  "forced_inclusion_txns P =
     exit_deposits P
     @ [SignedForcedWithdrawal (forced_withdrawal_new (exit_address_of P (EXIT_KEYS ! 0)) (l1_account 9))]"

definition forced_inclusion :: builder where
  "forced_inclusion P S domain = built P domain (forced_inclusion_txns P)"

definition inbox_ordering_txns :: "primitives \<Rightarrow> signed_transaction list" where
  "inbox_ordering_txns P =
     (let address = exit_address_of P (EXIT_KEYS ! 0) in
      [SignedDeposit (deposit_new address 1000000),
       SignedForcedWithdrawal (forced_withdrawal_new address (l1_account 10)),
       SignedDeposit (deposit_new address 500000)])"

definition inbox_ordering :: builder where
  "inbox_ordering P S domain = built P domain (inbox_ordering_txns P)"

text \<open>\<open>ledger.account(..).expect(..)\<close>, then the assertion that the proof is one of inclusion.\<close>

definition exit_proof_of :: "primitives \<Rightarrow> ledger \<Rightarrow> byte list \<Rightarrow> panic + exit_proof" where
  "exit_proof_of P l pub_key =
     (let address = exit_address_of P pub_key in
      and_then (unwrap_option (ledger_account l address)) (\<lambda>acc.
      let pf = ledger_proof P l address in
      if slot pf = Own then
        Inr \<lparr>exit_address = address, exit_pub_key = pub_key, exit_nonce = nonce acc, exit_amount = amount acc,
             exit_auth_address = auth_address acc, exit_siblings = siblings pf\<rparr>
      else Inl AssertFailed))"

definition forced_exit_proofs :: "primitives \<Rightarrow> deployment_domain \<Rightarrow> panic + exit_proof list" where
  "forced_exit_proofs P domain =
     and_then (forced_exit_ledger P domain) (\<lambda>(_, l). map_results (exit_proof_of P l) EXIT_KEYS)"

section \<open>Keys that sign\<close>

definition SEED_SIZE :: nat where "SEED_SIZE = 32"

text \<open>
  An \<open>ed25519_dalek::SigningKey\<close> is the seed \<open>from_bytes\<close> was given; what the library derives
  from it is in \<open>signers\<close>.
\<close>

datatype key =
    KeyManaged "byte list"
  | KeyEd25519 "byte list"
  | KeyHybrid "byte list" falcon_signing_key

definition key_managed :: "byte list \<Rightarrow> panic + key" where
  "key_managed seed = Inr (KeyManaged seed)"

definition key_ed25519 :: "byte list \<Rightarrow> panic + key" where
  "key_ed25519 seed = Inr (KeyEd25519 seed)"

definition key_hybrid :: "signers \<Rightarrow> byte list \<Rightarrow> panic + key" where
  "key_hybrid S seed = and_then (falcon_from_seed S seed) (\<lambda>falcon. Inr (KeyHybrid seed falcon))"

fun key_scheme :: "key \<Rightarrow> scheme" where
  "key_scheme (KeyManaged _) = Managed"
| "key_scheme (KeyEd25519 _) = Ed25519"
| "key_scheme (KeyHybrid _ _) = Falcon1024HybridEd25519"

fun key_pub_key :: "signers \<Rightarrow> key \<Rightarrow> byte list" where
  "key_pub_key S (KeyManaged seed) = seed"
| "key_pub_key S (KeyEd25519 seed) = ed25519_verifying_key S seed"
| "key_pub_key S (KeyHybrid seed falcon) = ed25519_verifying_key S seed @ falcon_public falcon"

definition key_address :: "primitives \<Rightarrow> signers \<Rightarrow> key \<Rightarrow> address" where
  "key_address P S k = address_from_public_key (sha256 P) (key_scheme k) (key_pub_key S k)"

fun key_sig_bytes :: "signers \<Rightarrow> key \<Rightarrow> byte list \<Rightarrow> panic + byte list" where
  "key_sig_bytes S (KeyManaged _) message = Inr []"
| "key_sig_bytes S (KeyEd25519 seed) message = Inr (ed25519_sign S seed message)"
| "key_sig_bytes S (KeyHybrid seed falcon) message =
     and_then (sign_compressed S falcon message) (\<lambda>sig. Inr (ed25519_sign S seed message @ sig))"

definition key_sign :: "signers \<Rightarrow> key \<Rightarrow> byte list \<Rightarrow> panic + signature" where
  "key_sign S k message =
     and_then (key_sig_bytes S k message) (\<lambda>sig. Inr (signature_new (key_scheme k) (key_pub_key S k) sig))"

section \<open>Every scheme\<close>

definition every_scheme_keys :: "signers \<Rightarrow> panic + key list" where
  "every_scheme_keys S =
     and_then (key_managed (ascii ''payment-rollup managed key!!!!!!'')) (\<lambda>managed.
     and_then (key_ed25519 (ascii ''payment-rollup ed25519 key!!!!!!'')) (\<lambda>ed25519.
     and_then (key_hybrid S (ascii ''payment-rollup hybrid key!!!!!!!'')) (\<lambda>hybrid.
     Inr [managed, ed25519, hybrid])))"

definition EVERY_SCHEME_DEPOSIT :: u64 where "EVERY_SCHEME_DEPOSIT = 2000000"
definition EVERY_SCHEME_PAYMENT :: u64 where "EVERY_SCHEME_PAYMENT = 250000"
definition EVERY_SCHEME_WITHDRAWALS :: "u64 list" where "EVERY_SCHEME_WITHDRAWALS = [300000, 400000, 500000]"

text \<open>The two signed spends of the account at \<open>index\<close>: at nonce 1 and at nonce 2.\<close>

definition every_scheme_payment ::
  "primitives \<Rightarrow> signers \<Rightarrow> deployment_domain \<Rightarrow> key list \<Rightarrow> nat \<Rightarrow> panic + signed_transaction" where
  "every_scheme_payment P S domain keys index =
     (let k = keys ! index;
          receiver = key_address P S (keys ! ((index + 1) mod length keys));
          p = payment_new (key_address P S k) receiver EVERY_SCHEME_PAYMENT SCENARIO_FEE in
      and_then (key_sign S k (payment_bytes_to_sign p domain 1)) (\<lambda>sig. Inr (SignedPayment p sig)))"

definition every_scheme_withdrawal ::
  "primitives \<Rightarrow> signers \<Rightarrow> deployment_domain \<Rightarrow> key list \<Rightarrow> nat \<Rightarrow> panic + signed_transaction" where
  "every_scheme_withdrawal P S domain keys index =
     (let k = keys ! index;
          w = withdrawal_new (key_address P S k) (l1_account (11 + of_nat index))
            (EVERY_SCHEME_WITHDRAWALS ! index) SCENARIO_FEE in
      and_then (key_sign S k (withdrawal_bytes_to_sign w domain 2)) (\<lambda>sig. Inr (SignedWithdrawal w sig)))"

definition every_scheme_txns ::
  "primitives \<Rightarrow> signers \<Rightarrow> deployment_domain \<Rightarrow> panic + signed_transaction list" where
  "every_scheme_txns P S domain =
     and_then (every_scheme_keys S) (\<lambda>keys.
     let deposits = map (\<lambda>k. SignedDeposit (deposit_new (key_address P S k) EVERY_SCHEME_DEPOSIT)) keys in
     and_then (map_results (every_scheme_payment P S domain keys) [0..<length keys]) (\<lambda>ps.
     and_then (map_results (every_scheme_withdrawal P S domain keys) [0..<length keys]) (\<lambda>ws.
     Inr (deposits @ ps @ ws))))"

definition every_scheme :: builder where
  "every_scheme P S domain = and_then (every_scheme_txns P S domain) (built P domain)"

section \<open>Signed load\<close>

definition LOAD_ACCOUNTS :: nat where "LOAD_ACCOUNTS = 25"
definition LOAD_PAYMENTS :: "nat list" where "LOAD_PAYMENTS = [100, 1000, 10000]"
definition LOAD_DEPOSIT :: u64 where "LOAD_DEPOSIT = 1000000"
definition LOAD_AMOUNT :: u64 where "LOAD_AMOUNT = 1000"
definition LOAD_NEW_ACCOUNT_STRIDE :: nat where "LOAD_NEW_ACCOUNT_STRIDE = 50"

text \<open>\<open>u8::try_from(index).expect(..)\<close> panics from 256 on.\<close>

definition load_seed :: "byte list \<Rightarrow> nat \<Rightarrow> panic + byte list" where
  "load_seed base index =
     (if index < 256 then Inr (base[SEED_SIZE - 1 := of_nat index]) else Inl UnwrapNone)"

definition FALCON_LOAD_SEED :: "byte list" where
  "FALCON_LOAD_SEED = ascii ''payment-rollup falcon load key!!''"

definition ED25519_LOAD_SEED :: "byte list" where
  "ED25519_LOAD_SEED = ascii ''payment-rollup ed25519 load key!''"

definition load_keys :: "byte list \<Rightarrow> (byte list \<Rightarrow> panic + key) \<Rightarrow> panic + key list" where
  "load_keys base make_key =
     map_results (\<lambda>index. and_then (load_seed base index) make_key) [0..<LOAD_ACCOUNTS]"

definition falcon_load_keys :: "signers \<Rightarrow> panic + key list" where
  "falcon_load_keys S = load_keys FALCON_LOAD_SEED (key_hybrid S)"

definition ed25519_load_keys :: "panic + key list" where
  "ed25519_load_keys = load_keys ED25519_LOAD_SEED key_ed25519"

text \<open>\<open>u64::div_ceil\<close>.\<close>

definition u64_div_ceil :: "u64 \<Rightarrow> u64 \<Rightarrow> u64" where
  "u64_div_ceil a b = (if a mod b > 0 then a div b + 1 else a div b)"

text \<open>
  The payment loop over the indices from \<open>index\<close>, with the \<open>nonces\<close> assigned so far. The sums
  of the source stay below \<open>2 ^ 32\<close>, so no addition wraps.
\<close>

fun signed_load_payments ::
  "primitives \<Rightarrow> signers \<Rightarrow> deployment_domain \<Rightarrow> key list \<Rightarrow> u64 list \<Rightarrow> nat list
     \<Rightarrow> panic + signed_transaction list" where
  "signed_load_payments P S domain keys nonces [] = Inr []"
| "signed_load_payments P S domain keys nonces (index # indices) =
     (let sender_index = index mod length keys;
          k = keys ! sender_index;
          receiver =
            (if (index + 1) mod LOAD_NEW_ACCOUNT_STRIDE = 0
             then address_of P (to_be_bytes (of_nat index :: u32))
             else key_address P S (keys ! ((sender_index + 1) mod length keys)));
          p = payment_new (key_address P S k) receiver LOAD_AMOUNT SCENARIO_FEE;
          nonces = nonces[sender_index := nonces ! sender_index + 1] in
      and_then (key_sign S k (payment_bytes_to_sign p domain (nonces ! sender_index))) (\<lambda>sig.
      and_then (signed_load_payments P S domain keys nonces indices) (\<lambda>rest.
      Inr (SignedPayment p sig # rest))))"

definition signed_load_txns ::
  "primitives \<Rightarrow> signers \<Rightarrow> deployment_domain \<Rightarrow> key list \<Rightarrow> nat \<Rightarrow> panic + signed_transaction list" where
  "signed_load_txns P S domain keys count =
     (if keys = [] then Inl DivisionByZero
      else if \<not> u64_div_ceil (of_nat count) (of_nat (length keys)) * (LOAD_AMOUNT + SCENARIO_FEE) \<le> LOAD_DEPOSIT
        then Inl AssertFailed
      else
        let deposits = map (\<lambda>k. SignedDeposit (deposit_new (key_address P S k) LOAD_DEPOSIT)) keys in
        and_then (signed_load_payments P S domain keys (replicate (length keys) 0) [0..<count]) (\<lambda>ps.
        Inr (deposits @ ps)))"

definition signed_load ::
  "primitives \<Rightarrow> signers \<Rightarrow> deployment_domain \<Rightarrow> key list \<Rightarrow> nat \<Rightarrow> panic + block" where
  "signed_load P S domain keys count =
     and_then (signed_load_txns P S domain keys count) (built P domain)"

definition falcon_hybrid_load :: "nat \<Rightarrow> builder" where
  "falcon_hybrid_load count P S domain =
     and_then (falcon_load_keys S) (\<lambda>keys. signed_load P S domain keys count)"

definition ed25519_load :: "nat \<Rightarrow> builder" where
  "ed25519_load count P S domain =
     and_then ed25519_load_keys (\<lambda>keys. signed_load P S domain keys count)"

definition falcon_100 :: builder where "falcon_100 = falcon_hybrid_load (LOAD_PAYMENTS ! 0)"
definition falcon_1000 :: builder where "falcon_1000 = falcon_hybrid_load (LOAD_PAYMENTS ! 1)"
definition falcon_10000 :: builder where "falcon_10000 = falcon_hybrid_load (LOAD_PAYMENTS ! 2)"
definition ed25519_100 :: builder where "ed25519_100 = ed25519_load (LOAD_PAYMENTS ! 0)"
definition ed25519_1000 :: builder where "ed25519_1000 = ed25519_load (LOAD_PAYMENTS ! 1)"
definition ed25519_10000 :: builder where "ed25519_10000 = ed25519_load (LOAD_PAYMENTS ! 2)"

section \<open>The scenarios by name\<close>

record scenario =
  scenario_name :: string
  scenario_description :: string
  scenario_build :: builder

definition scenario_genesis_empty_batch :: scenario where
  "scenario_genesis_empty_batch =
     \<lparr>scenario_name = ''genesis-empty-batch'',
      scenario_description = ''An empty batch replayed from the empty ledger. It starts and ends at the genesis root and ''
       @ ''carries no deposits, so it drives openBatch, one accumulateChunk and verifyBatch while ''
       @ ''leaving both the state root and the inbox chain where they were.'',
      scenario_build = genesis_empty_batch\<rparr>"

definition scenario_deposits_only :: scenario where
  "scenario_deposits_only =
     \<lparr>scenario_name = ''deposits-only'',
      scenario_description = ''Nothing but deposits, from the empty ledger. The cleanest test of the inbox deposit fold: ''
       @ ''with no payments in the way, a mismatch between what the contract folded as the deposits ''
       @ ''arrived and what the guest folded out of the batch can only be a disagreement about the fold''
       @ '' itself.'',
      scenario_build = deposits_only\<rparr>"

definition scenario_payments :: scenario where
  "scenario_payments =
     \<lparr>scenario_name = ''payments'',
      scenario_description = ''Two deposits and then three payments: a plain one, one that brings a new account into ''
       @ ''existence, and a self-payment. One chunk. Value enters and moves in the same batch, which is''
       @ '' what interleaving deposits with payments is for.'',
      scenario_build = payments\<rparr>"

definition scenario_multi_chunk :: scenario where
  "scenario_multi_chunk =
     \<lparr>scenario_name = ''multi-chunk'',
      scenario_description = ''A deposit followed by payments to enough distinct receivers that the batch spans several ''
       @ ''chunks, so the accumulator is folded more than once and the last chunk is a partial one.'',
      scenario_build = multi_chunk\<rparr>"

definition scenario_withdrawals :: scenario where
  "scenario_withdrawals =
     \<lparr>scenario_name = ''withdrawals'',
      scenario_description = ''A deposit and then three withdrawals to distinct L1 accounts. The cleanest test of the ''
       @ ''ordered withdrawal Merkle tree: each payout has a distinct index and inclusion path under ''
       @ ''the root the proof commits.'',
      scenario_build = withdrawals\<rparr>"

definition scenario_duplicate_withdrawals :: scenario where
  "scenario_duplicate_withdrawals =
     \<lparr>scenario_name = ''duplicate-withdrawals'',
      scenario_description = ''Two identical payouts at distinct transaction indices. Their indexed leaves and claim bits ''
       @ ''must keep both withdrawals independently payable.'',
      scenario_build = duplicate_withdrawals\<rparr>"

definition scenario_forced_exit :: scenario where
  "scenario_forced_exit =
     \<lparr>scenario_name = ''forced-exit'',
      scenario_description = ''Two deposits to Ed25519 accounts, so the settled tree holds two leaves and each proves ''
       @ ''against the root through one sibling. Built for the contract's forceExit, which is the only ''
       @ ''path that reads the state root as data rather than advancing it.'',
      scenario_build = forced_exit\<rparr>"

definition scenario_forced_inclusion :: scenario where
  "scenario_forced_inclusion =
     \<lparr>scenario_name = ''forced-inclusion'',
      scenario_description = ''Two deposits to Ed25519 accounts and then a withdrawal L1 ordered on behalf of one of them, ''
       @ ''emptying it. The batch that answers the request is the only batch that can settle, which is ''
       @ ''what makes withdrawal censorship indistinguishable from halting.'',
      scenario_build = forced_inclusion\<rparr>"

definition scenario_inbox_ordering :: scenario where
  "scenario_inbox_ordering =
     \<lparr>scenario_name = ''inbox-ordering'',
      scenario_description = ''A deposit, forced withdrawal, and another deposit in one batch. The ordered inbox requires ''
       @ ''L1 to call deposit, requestWithdrawal, deposit exactly in that cross-kind order.'',
      scenario_build = inbox_ordering\<rparr>"

definition scenario_round_trip :: scenario where
  "scenario_round_trip =
     \<lparr>scenario_name = ''round-trip'',
      scenario_description = ''Value deposited, moved by payment, and withdrawn again in one batch. Covers the inbox and ''
       @ ''withdrawal commitments moving together and a withdrawal spending what a payment delivered ''
       @ ''earlier in that same block.'',
      scenario_build = round_trip\<rparr>"

definition scenario_every_scheme :: scenario where
  "scenario_every_scheme =
     \<lparr>scenario_name = ''every-scheme'',
      scenario_description = ''One account per signing scheme -- managed, Ed25519, and the Falcon-1024/Ed25519 hybrid -- ''
       @ ''each funded by a deposit and each then signing a payment and a withdrawal. The only scenario''
       @ '' whose spends carry signatures the replay has to check, so the only one whose proof pays for''
       @ '' a curve verification and a lattice one.'',
      scenario_build = every_scheme\<rparr>"

definition scenario_falcon_100 :: scenario where
  "scenario_falcon_100 =
     \<lparr>scenario_name = ''falcon-100'',
      scenario_description = ''One hundred Falcon-1024/Ed25519 hybrid payments, almost all of them between accounts that ''
       @ ''already exist. The cheap end of the load series: the same block as falcon-10000 at a ''
       @ ''hundredth the signature count, so the three together separate what a lattice verification ''
       @ ''costs from what the rest of a batch costs. Reachable only by name, like the rest of the ''
       @ ''series.'',
      scenario_build = falcon_100\<rparr>"

definition scenario_falcon_1000 :: scenario where
  "scenario_falcon_1000 =
     \<lparr>scenario_name = ''falcon-1000'',
      scenario_description = ''One thousand Falcon-1024/Ed25519 hybrid payments, almost all of them between accounts that ''
       @ ''already exist. The middle of the load series, and the point that says whether the cost ''
       @ ''between falcon-100 and falcon-10000 is linear in the signature count. Reachable only by ''
       @ ''name.'',
      scenario_build = falcon_1000\<rparr>"

definition scenario_falcon_10000 :: scenario where
  "scenario_falcon_10000 =
     \<lparr>scenario_name = ''falcon-10000'',
      scenario_description = ''Ten thousand Falcon-1024/Ed25519 hybrid payments, almost all of them between accounts that ''
       @ ''already exist: a small pool is funded once and then spends from and to itself in a ''
       @ ''round-robin, so the batch is dominated by warm accounts and repeat signers rather than ''
       @ ''one-off receivers. What the Falcon half of the hybrid scheme costs at a scale nothing else ''
       @ ''here reaches -- replaying it signs and verifies ten thousand lattice signatures, which is ''
       @ ''minutes rather than milliseconds, so unlike every scenario in `all` it is reachable only by ''
       @ ''name.'',
      scenario_build = falcon_10000\<rparr>"

definition scenario_ed25519_100 :: scenario where
  "scenario_ed25519_100 =
     \<lparr>scenario_name = ''ed25519-100'',
      scenario_description = ''One hundred plain-Ed25519 payments, almost all of them between accounts that already exist. ''
       @ ''The cheap end of the curve's load series -- the same block as ed25519-10000 at a hundredth ''
       @ ''the signature count, and the same shape as falcon-100 with the hybrid's lattice half ''
       @ ''removed, so the two series together separate what a curve verification costs from what a ''
       @ ''lattice one adds on top. Reachable only by name, like the rest of the series.'',
      scenario_build = ed25519_100\<rparr>"

definition scenario_ed25519_1000 :: scenario where
  "scenario_ed25519_1000 =
     \<lparr>scenario_name = ''ed25519-1000'',
      scenario_description = ''One thousand plain-Ed25519 payments, almost all of them between accounts that already exist.''
       @ '' The middle of the curve's load series, and the point that says whether the cost between ''
       @ ''ed25519-100 and ed25519-10000 is linear in the signature count. Reachable only by name.'',
      scenario_build = ed25519_1000\<rparr>"

definition scenario_ed25519_10000 :: scenario where
  "scenario_ed25519_10000 =
     \<lparr>scenario_name = ''ed25519-10000'',
      scenario_description = ''Ten thousand plain-Ed25519 payments, almost all of them between accounts that already exist:''
       @ '' a small pool is funded once and then spends from and to itself in a round-robin, so the ''
       @ ''batch is dominated by warm accounts and repeat signers rather than one-off receivers. What a''
       @ '' lone curve verification costs at a scale nothing else here reaches, with no lattice half ''
       @ ''riding along the way it does in falcon-10000 -- replaying it signs and verifies ten thousand''
       @ '' Ed25519 signatures, so unlike every scenario in `all` it is reachable only by name.'',
      scenario_build = ed25519_10000\<rparr>"

text \<open>The order is the source's.\<close>

definition all_scenarios :: "scenario list" where
  "all_scenarios =
     [scenario_genesis_empty_batch,
      scenario_deposits_only,
      scenario_payments,
      scenario_multi_chunk,
      scenario_withdrawals,
      scenario_duplicate_withdrawals,
      scenario_forced_exit,
      scenario_forced_inclusion,
      scenario_inbox_ordering,
      scenario_round_trip,
      scenario_every_scheme]"

definition heavy :: "scenario list" where
  "heavy =
     [scenario_falcon_100,
      scenario_falcon_1000,
      scenario_falcon_10000,
      scenario_ed25519_100,
      scenario_ed25519_1000,
      scenario_ed25519_10000]"

definition find_scenario :: "string \<Rightarrow> scenario option" where
  "find_scenario name = List.find (\<lambda>s. scenario_name s = name) (all_scenarios @ heavy)"

end
