(* ===== verification/Host_Prover.thy ===== *)
theory Host_Prover
  imports Execution "HOL-Library.Product_Lexorder" "HOL-Library.List_Lexorder" "HOL-Library.Char_ord" "HOL-Library.Multiset"
begin

text \<open>
  Proofs and cost reports of a settlement: \<^verbatim>\<open>crates/sp1-host/src/prove.rs\<close> and \<^verbatim>\<open>report.rs\<close>. The
  SP1 SDK, which sets a program up, asks the network for a proof and runs the zkVM locally, is a
  record of functions; what it is asked and what is done with its answers is the source's. Clock
  readings and progress lines are left out.
\<close>

section \<open>The guest's input\<close>

definition stdin_for :: "settlement \<Rightarrow> byte list list" where
  "stdin_for s =
     [bytes_of (settlement_domain s), bytes_of (settlement_old_root s),
      bytes_of (settlement_old_inbox_chain s), settlement_batch_bytes s, settlement_sidecar_bytes s]"

section \<open>The SDK\<close>

text \<open>A Groth16 payload is public inputs, encoded proof and verifier key hash; a network proof that is
  of another kind has none.\<close>

record network_proof =
  proof_public_values :: "byte list"
  proof_onchain_bytes :: "byte list"
  proof_groth16 :: "(string list \<times> string \<times> bytes32) option"

record execution_report =
  total_instruction_count :: u64
  report_gas_used :: "u64 option"
  syscall_counts :: "(string \<times> u64) list"

text \<open>A mode is what \<open>NetworkMode\<close> parsed a name to; a set-up program is its verifying key, in its mode.\<close>

record sdk =
  parse_network_mode :: "string \<Rightarrow> string + string"
  network_private_key :: "string option"
  sdk_setup :: "string \<Rightarrow> string + string"
  sdk_prove :: "string \<Rightarrow> byte list list \<Rightarrow> string + network_proof"
  sdk_execute :: "byte list list \<Rightarrow> string + byte list \<times> execution_report"

section \<open>Proving\<close>

record proof_fixture =
  fixture_bytes :: "byte list"
  fixture_vkey :: string
  fixture_public_inputs :: "string list"
  fixture_encoded_proof :: string
  fixture_verifier_hash :: bytes32

datatype prover_error =
    BadNetworkMode string
  | PrivateKeyNotSet
  | SetupFailed string
  | NetworkFailed string
  | PublicValuesDisagree
  | NotGroth16
  | ExecutionFailed string

record groth16_prover =
  prover_mode :: string
  prover_vkey :: string

definition prover_new :: "sdk \<Rightarrow> string \<Rightarrow> prover_error + groth16_prover" where
  "prover_new K network =
     (case parse_network_mode K network of
        Inl e \<Rightarrow> Inl (BadNetworkMode e)
      | Inr mode \<Rightarrow>
          if network_private_key K = None \<or> network_private_key K = Some [] then Inl PrivateKeyNotSet
          else (case sdk_setup K mode of
             Inl e \<Rightarrow> Inl (SetupFailed e)
           | Inr vkey \<Rightarrow> Inr \<lparr>prover_mode = mode, prover_vkey = vkey\<rparr>))"

definition prove_settlement :: "sdk \<Rightarrow> groth16_prover \<Rightarrow> settlement \<Rightarrow> prover_error + proof_fixture" where
  "prove_settlement K prover s =
     (case sdk_prove K (prover_mode prover) (stdin_for s) of
        Inl e \<Rightarrow> Inl (NetworkFailed e)
      | Inr pf \<Rightarrow>
          if proof_public_values pf \<noteq> settlement_public_values s then Inl PublicValuesDisagree
          else (case proof_groth16 pf of
             None \<Rightarrow> Inl NotGroth16
           | Some (public_inputs, encoded_proof, groth16_vkey_hash) \<Rightarrow>
               Inr \<lparr>fixture_bytes = proof_onchain_bytes pf, fixture_vkey = prover_vkey prover,
                    fixture_public_inputs = public_inputs, fixture_encoded_proof = encoded_proof,
                    fixture_verifier_hash = groth16_vkey_hash\<rparr>))"

section \<open>Reporting\<close>

record report =
  report_instructions :: u64
  report_gas :: "u64 option"
  report_syscalls :: "(string \<times> u64) list"
  report_txns :: nat

text \<open>Descending by count, then by name: the comparison of \<open>sort_by\<close> as a key.\<close>

definition syscalls :: "execution_report \<Rightarrow> (string \<times> u64) list" where
  "syscalls r =
     sort_key (\<lambda>(name, count). (- uint count, name)) (filter (\<lambda>(name, count). count > 0) (syscall_counts r))"

definition report_settlement :: "sdk \<Rightarrow> settlement \<Rightarrow> prover_error + report" where
  "report_settlement K s =
     (case sdk_execute K (stdin_for s) of
        Inl e \<Rightarrow> Inl (ExecutionFailed e)
      | Inr (committed, r) \<Rightarrow>
          if committed \<noteq> settlement_public_values s then Inl PublicValuesDisagree
          else Inr \<lparr>report_instructions = total_instruction_count r, report_gas = report_gas_used r,
                    report_syscalls = syscalls r, report_txns = settlement_txn_count s\<rparr>)"

section \<open>Lemmas\<close>

text \<open>What \<open>stdin_for\<close> writes, the guest reads: it commits the settlement's own public values.\<close>

lemma guest_on_settlement:
  assumes "for_block P blk = Inr s"
  shows "guest_reading P (stdin_for s) = Inr (settlement_public_values s)"
proof -
  let ?bb = "batch_encode (block_batch blk)" and ?sb = "sidecar_encode (block_sidecar blk)"
  from assms obtain vals where
    "execute P (block_domain blk) (block_old_root blk) (block_old_inbox_chain blk) ?bb ?sb = Inr vals"
    and "settlement_batch_bytes s = ?bb" "settlement_sidecar_bytes s = ?sb"
      "settlement_domain s = block_domain blk" "settlement_public_values s = vals"
      "settlement_old_root s = block_old_root blk"
      "settlement_old_inbox_chain s = block_old_inbox_chain blk"
    by (auto simp: for_block_def Let_def and_then_Inr_iff split: if_splits)
  then show ?thesis
    by (simp add: stdin_for_def guest_reading_five guest_main_def try_into_32_def)
qed

lemma syscalls_facts:
  "set (syscalls r) = {(name, count). (name, count) \<in> set (syscall_counts r) \<and> count > 0}"
  "mset (syscalls r) = filter_mset (\<lambda>(name, count). count > 0) (mset (syscall_counts r))"
  "sorted_wrt (\<lambda>(n, c) (m, d). c > d \<or> c = d \<and> n \<le> m) (syscalls r)"
proof -
  show "set (syscalls r) = {(name, count). (name, count) \<in> set (syscall_counts r) \<and> count > 0}"
    by (auto simp: syscalls_def)
  show "mset (syscalls r) = filter_mset (\<lambda>(name, count). count > 0) (mset (syscall_counts r))"
    by (simp add: syscalls_def mset_filter)
  have "sorted (map (\<lambda>(name, count). (- uint count, name)) (syscalls r))"
    by (simp add: syscalls_def)
  then show "sorted_wrt (\<lambda>(n, c) (m, d). c > d \<or> c = d \<and> n \<le> m) (syscalls r)"
    unfolding sorted_map
    by (rule sorted_wrt_mono_rel [rotated]) (auto simp: less_eq_prod_def word_less_def word_uint_eq_iff)
qed

end
