(* ===== verification/Host_Fixture.thy ===== *)
theory Host_Fixture
  imports Scenarios Host_Prover
begin

text \<open>
  The JSON the emitter writes: \<open>fixture\<close> of \<^verbatim>\<open>crates/sp1-host/src/main.rs\<close> and the deployment-wide
  words beside it. A \<open>serde_json::Value\<close> is the datatype \<open>json\<close>; an object keeps the order of the
  source. How the library prints one is not modelled.
\<close>

section \<open>Values\<close>

datatype json =
    JBool bool
  | JNumber int
  | JString string
  | JArray "json list"
  | JObject "(string \<times> json) list"

fun field :: "string \<Rightarrow> json \<Rightarrow> json option" where
  "field k (JObject kvs) = map_of kvs k"
| "field k _ = None"

definition hex_word :: "bytes32 \<Rightarrow> json" where "hex_word w = JString (hex (bytes_of w))"

definition hex_bytes :: "byte list \<Rightarrow> json" where "hex_bytes bs = JString (hex bs)"

definition json_u64 :: "u64 \<Rightarrow> json" where "json_u64 x = JNumber (uint x)"

definition json_usize :: "nat \<Rightarrow> json" where "json_usize n = JNumber (int n)"

section \<open>One scenario\<close>

fun inbox_item_json :: "inbox_item \<Rightarrow> json" where
  "inbox_item_json (InboxDeposit recipient amt) =
     JObject [(''kind'', JString ''deposit''), (''recipient'', hex_word recipient), (''amount'', json_u64 amt)]"
| "inbox_item_json (InboxForcedWithdrawal address recipient) =
     JObject [(''kind'', JString ''forcedWithdrawal''), (''address'', hex_word address),
              (''recipient'', hex_word recipient)]"

definition request_json :: "address \<times> l1_address \<Rightarrow> json" where
  "request_json = (\<lambda>(address, recipient).
     JObject [(''address'', hex_word address), (''recipient'', hex_word recipient)])"

definition deposit_json :: "address \<times> u64 \<Rightarrow> json" where
  "deposit_json = (\<lambda>(recipient, amt).
     JObject [(''recipient'', hex_word recipient), (''amount'', json_u64 amt)])"

definition link_json :: "withdrawal_link \<Rightarrow> json" where
  "link_json l =
     JObject [(''recipient'', hex_word (link_recipient l)), (''amount'', json_u64 (link_amount l)),
              (''tail'', hex_word (link_tail l))]"

definition exit_json :: "exit_proof \<Rightarrow> json" where
  "exit_json e =
     JObject [(''address'', hex_word (exit_address e)), (''pubKey'', hex_bytes (exit_pub_key e)),
              (''nonce'', json_u64 (exit_nonce e)), (''amount'', json_u64 (exit_amount e)),
              (''authAddress'', hex_word (exit_auth_address e)),
              (''siblings'', JArray (map hex_word (exit_siblings e)))]"

definition groth16_json :: "proof_fixture \<Rightarrow> json" where
  "groth16_json pf =
     JObject [(''publicInputs'', JArray (map JString (fixture_public_inputs pf))),
              (''encodedProof'', JString (fixture_encoded_proof pf)),
              (''verifierHash'', hex_word (fixture_verifier_hash pf)), (''vkey'', JString (fixture_vkey pf))]"

text \<open>Only the forced-exit scenario carries exits; computing them replays its block and may panic.\<close>

definition fixture_exits :: "primitives \<Rightarrow> scenario \<Rightarrow> settlement \<Rightarrow> panic + exit_proof list" where
  "fixture_exits P s st =
     (if scenario_name s = ''forced-exit'' then forced_exit_proofs P (settlement_domain st) else Inr [])"

definition fixture_fields ::
  "primitives \<Rightarrow> scenario \<Rightarrow> settlement \<Rightarrow> exit_proof list \<Rightarrow> (string \<times> json) list" where
  "fixture_fields P s st exits =
     [(''name'', JString (scenario_name s)),
      (''description'', JString (scenario_description s)),
      (''txnCount'', json_usize (settlement_txn_count st)),
      (''publicValues'', hex_bytes (settlement_public_values st)),
      (''oldRoot'', hex_word (settlement_old_root st)),
      (''newRoot'', hex_word (settlement_new_root st)),
      (''batchCommitment'', hex_word (settlement_batch_commitment st)),
      (''deploymentDomain'', hex_word (settlement_domain st)),
      (''inboxChainFrom'', hex_word (settlement_old_inbox_chain st)),
      (''inboxChainTo'', hex_word (settlement_new_inbox_chain st)),
      (''withdrawalChain'', hex_word (settlement_withdrawal_chain st)),
      (''requests'', JArray (map request_json (settlement_requests st))),
      (''deposits'', JArray (map deposit_json (settlement_deposits st))),
      (''inbox'', JArray (map inbox_item_json (settlement_inbox st))),
      (''withdrawals'', JArray (map link_json (settlement_withdrawal_links P st))),
      (''exits'', JArray (map exit_json exits)),
      (''batchLength'', json_usize (settlement_batch_length st)),
      (''chunkCount'', json_usize (settlement_chunk_count st)),
      (''chunks'', JArray (map hex_bytes (settlement_chunks st))),
      (''batch'', hex_bytes (settlement_batch_bytes st)),
      (''settlesFromGenesis'', JBool (settles_from_genesis st)),
      (''sidecarLength'', json_usize (length (settlement_sidecar_bytes st)))]"

definition fixture ::
  "primitives \<Rightarrow> scenario \<Rightarrow> settlement \<Rightarrow> bool \<Rightarrow> proof_fixture option \<Rightarrow> panic + json" where
  "fixture P s st include_sidecar proof_opt =
     and_then (fixture_exits P s st) (\<lambda>exits.
     Inr (JObject
       (fixture_fields P s st exits
        @ (if include_sidecar then [(''sidecar'', hex_bytes (settlement_sidecar_bytes st))] else [])
        @ (case proof_opt of None \<Rightarrow> []
           | Some pf \<Rightarrow> [(''proof'', hex_bytes (fixture_bytes pf)), (''groth16'', groth16_json pf)]))))"

section \<open>Deployment-wide words\<close>

definition deployment_fields :: "deployment_domain \<Rightarrow> bytes32 \<Rightarrow> u64 \<Rightarrow> (string \<times> json) list" where
  "deployment_fields domain genesis_hash app_id =
     [(''chunkSize'', json_usize CHUNK_SIZE),
      (''publicValuesSize'', json_usize PUBLIC_VALUES_SIZE),
      (''minWithdrawal'', json_u64 MIN_WITHDRAWAL),
      (''deploymentDomain'', hex_word domain),
      (''genesisHash'', hex_word genesis_hash),
      (''appId'', json_u64 app_id),
      (''genesisRoot'', hex_word GENESIS_ROOT),
      (''inboxChainGenesis'', hex_word INBOX_CHAIN_GENESIS)]"

definition verifier_fields :: "string \<Rightarrow> byte list \<Rightarrow> bytes32 \<Rightarrow> string \<Rightarrow> (string \<times> json) list" where
  "verifier_fields vkey groth16_vk vkey_root network =
     [(''vkey'', JString vkey),
      (''groth16VerificationKey'', hex_bytes groth16_vk),
      (''recursionVkeyRoot'', hex_word vkey_root),
      (''network'', JString network)]"

end
