(* ===== verification/Host_Cli.thy ===== *)
theory Host_Cli
  imports Host_Fixture
begin

text \<open>
  The emitter of \<^verbatim>\<open>crates/sp1-host/src/main.rs\<close>: its argument parser, the choice of scenarios, and
  the loop that settles, reports, proves and emits each. Error messages are constructors; what is
  printed to the terminal is left out, and a file written is an entry of the run's log. A Rust
  string is its UTF-8 bytes, a \<open>string\<close> here.
\<close>

section \<open>Numbers and hashes from text\<close>

datatype cli_error =
    HashLength
  | HashNotHex
  | MissingValue string
  | UnknownNetwork string
  | AppIdNotU64
  | UnknownOption string
  | ProveNeedsNames
  | UnknownScenario string
  | BuiltWithoutProver
  | BuiltWithoutReporter
  | ProverUnavailable prover_error
  | ScenarioNotProved string prover_error
  | ScenarioNotReported string prover_error
  | ScenarioFailed string execution_error
  | NotFromGenesis string bytes32
  | Panicked panic

text \<open>\<open>char::to_digit\<close> and \<open>from_str_radix\<close> of an unsigned type below \<open>bound\<close>: one leading
  plus sign is accepted, a sign alone is not a number.\<close>

definition to_digit :: "int \<Rightarrow> char \<Rightarrow> int option" where
  "to_digit radix c =
     (let n = of_char c :: int;
          d = (if 48 \<le> n \<and> n \<le> 57 then n - 48
               else if 97 \<le> n \<and> n \<le> 122 then n - 87
               else if 65 \<le> n \<and> n \<le> 90 then n - 55 else radix) in
      if d < radix then Some d else None)"

primrec digits_value :: "int \<Rightarrow> int \<Rightarrow> int \<Rightarrow> string \<Rightarrow> int option" where
  "digits_value radix bound acc [] = Some acc"
| "digits_value radix bound acc (c # cs) =
     Option.bind (to_digit radix c) (\<lambda>d.
       if acc * radix + d < bound then digits_value radix bound (acc * radix + d) cs else None)"

definition from_str_radix :: "int \<Rightarrow> int \<Rightarrow> string \<Rightarrow> int option" where
  "from_str_radix radix bound s =
     (case s of [] \<Rightarrow> None
      | c # cs \<Rightarrow>
          if c = CHR ''+'' then (if cs = [] then None else digits_value radix bound 0 cs)
          else digits_value radix bound 0 s)"

text \<open>\<open>&value[i..j]\<close> on a \<open>str\<close> panics inside a character.\<close>

definition is_char_boundary :: "string \<Rightarrow> nat \<Rightarrow> bool" where
  "is_char_boundary s i \<longleftrightarrow>
     i = 0 \<or> i = length s \<or> (i < length s \<and> \<not> (0x80 \<le> (of_char (s ! i) :: int) \<and> (of_char (s ! i) :: int) < 0xC0))"

definition str_slice :: "string \<Rightarrow> nat \<Rightarrow> nat \<Rightarrow> panic + string" where
  "str_slice s i j =
     (if i \<le> j \<and> is_char_boundary s i \<and> is_char_boundary s j then Inr (slice i j s) else Inl SliceOutOfRange)"

definition hash_byte :: "string \<Rightarrow> nat \<Rightarrow> cli_error + byte" where
  "hash_byte s index =
     (case str_slice s (index * 2) (index * 2 + 2) of
        Inl p \<Rightarrow> Inl (Panicked p)
      | Inr digits \<Rightarrow> map_sum id of_int (ok_or HashNotHex (from_str_radix 16 256 digits)))"

definition parse_hash :: "string \<Rightarrow> cli_error + bytes32" where
  "parse_hash s =
     (if length s \<noteq> 64 then Inl HashLength
      else and_then (map_results (hash_byte s) [0..<32]) (\<lambda>bs. Inr (b32 bs)))"

section \<open>Arguments\<close>

definition NETWORKS :: "string list" where
  "NETWORKS = [''mainnet'', ''auction'', ''reserved'', ''hosted'']"

record args =
  args_out :: "string option"
  args_include_sidecar :: bool
  args_names :: "string list"
  args_genesis_hash :: bytes32
  args_app_id :: u64
  args_prove :: bool
  args_report :: bool
  args_network :: string

definition default_args :: args where
  "default_args =
     \<lparr>args_out = None, args_include_sidecar = False, args_names = [], args_genesis_hash = zero32,
      args_app_id = 0, args_prove = False, args_report = False, args_network = ''mainnet''\<rparr>"

text \<open>The loop over the remaining arguments; \<open>None\<close> when help or the listing was asked for.\<close>

fun parse_remaining :: "args \<Rightarrow> string list \<Rightarrow> cli_error + args option" where
  "parse_remaining a [] = Inr (Some a)"
| "parse_remaining a (arg # rest) =
     (if arg = ''-h'' \<or> arg = ''--help'' then Inr None
      else if arg = ''--list'' then Inr None
      else if arg = ''--include-sidecar'' then parse_remaining (a\<lparr>args_include_sidecar := True\<rparr>) rest
      else if arg = ''--prove'' then parse_remaining (a\<lparr>args_prove := True\<rparr>) rest
      else if arg = ''--report'' then parse_remaining (a\<lparr>args_report := True\<rparr>) rest
      else if arg = ''--network'' then
        (case rest of [] \<Rightarrow> Inl (MissingValue arg)
         | name # rest \<Rightarrow>
             if name \<notin> set NETWORKS then Inl (UnknownNetwork name)
             else parse_remaining (a\<lparr>args_network := name\<rparr>) rest)
      else if arg = ''--genesis-hash'' then
        (case rest of [] \<Rightarrow> Inl (MissingValue arg)
         | v # rest \<Rightarrow>
             and_then (parse_hash v) (\<lambda>h. parse_remaining (a\<lparr>args_genesis_hash := h\<rparr>) rest))
      else if arg = ''--app-id'' then
        (case rest of [] \<Rightarrow> Inl (MissingValue arg)
         | v # rest \<Rightarrow>
             and_then (ok_or AppIdNotU64 (from_str_radix 10 (2 ^ 64) v)) (\<lambda>n.
               parse_remaining (a\<lparr>args_app_id := of_int n\<rparr>) rest))
      else if arg = ''--out'' then
        (case rest of [] \<Rightarrow> Inl (MissingValue arg)
         | file # rest \<Rightarrow> parse_remaining (a\<lparr>args_out := Some file\<rparr>) rest)
      else if take 1 arg = ''-'' then Inl (UnknownOption arg)
      else parse_remaining (a\<lparr>args_names := args_names a @ [arg]\<rparr>) rest)"

definition parse_args :: "string list \<Rightarrow> cli_error + args option" where
  "parse_args argv = parse_remaining default_args (drop 1 argv)"

section \<open>The run\<close>

definition select_scenarios :: "args \<Rightarrow> cli_error + scenario list" where
  "select_scenarios a =
     (if args_names a = [] then Inr all_scenarios
      else map_results (\<lambda>name. ok_or (UnknownScenario name) (find_scenario name)) (args_names a))"

definition settle_scenario ::
  "primitives \<Rightarrow> signers \<Rightarrow> deployment_domain \<Rightarrow> scenario \<Rightarrow> cli_error + scenario \<times> settlement" where
  "settle_scenario P S domain s =
     (case scenario_build s P S domain of
        Inl p \<Rightarrow> Inl (Panicked p)
      | Inr blk \<Rightarrow>
          (case for_block P blk of
             Inl e \<Rightarrow> Inl (ScenarioFailed (scenario_name s) e)
           | Inr st \<Rightarrow>
               if settles_from_genesis st then Inr (s, st)
               else Inl (NotFromGenesis (scenario_name s) (settlement_old_root st))))"

text \<open>
  What the \<open>prove\<close> feature decides: how to make a prover and a reporter, and the verifier's
  constants. Without it both constructors fail and the rest is never reached.
\<close>

record features =
  feature_prover :: "string \<Rightarrow> cli_error + groth16_prover"
  feature_prove :: "groth16_prover \<Rightarrow> settlement \<Rightarrow> prover_error + proof_fixture"
  feature_reporter :: "cli_error + unit"
  feature_report :: "settlement \<Rightarrow> prover_error + report"
  feature_groth16_vk :: "byte list"
  feature_vkey_root :: bytes32

definition without_prove :: features where
  "without_prove =
     \<lparr>feature_prover = (\<lambda>network. Inl BuiltWithoutProver),
      feature_prove = (\<lambda>prover s. Inl PublicValuesDisagree),
      feature_reporter = Inl BuiltWithoutReporter,
      feature_report = (\<lambda>s. Inl PublicValuesDisagree),
      feature_groth16_vk = [], feature_vkey_root = zero32\<rparr>"

definition with_prove :: "sdk \<Rightarrow> byte list \<Rightarrow> bytes32 \<Rightarrow> features" where
  "with_prove K groth16_vk vk_root =
     \<lparr>feature_prover = (\<lambda>network. map_sum ProverUnavailable id (prover_new K network)),
      feature_prove = prove_settlement K,
      feature_reporter = Inr (),
      feature_report = report_settlement K,
      feature_groth16_vk = groth16_vk, feature_vkey_root = vk_root\<rparr>"

text \<open>A flag that asks for something fallible: \<open>true => Some(f()?), false => None\<close>.\<close>

definition when_asked :: "bool \<Rightarrow> 'e + 'a \<Rightarrow> 'e + 'a option" where
  "when_asked b r = (if b then map_sum id Some r else Inr None)"

definition PROOF_FIXTURES_DIR :: string where
  "PROOF_FIXTURES_DIR = ''contracts/fixtures/proofs''"

definition proof_artifact ::
  "features \<Rightarrow> args \<Rightarrow> deployment_domain \<Rightarrow> groth16_prover \<Rightarrow> scenario \<Rightarrow> json \<Rightarrow> string \<times> json" where
  "proof_artifact F a domain prover s fx =
     (PROOF_FIXTURES_DIR @ ''/'' @ scenario_name s @ ''.json'',
      JObject (deployment_fields domain (args_genesis_hash a) (args_app_id a)
        @ verifier_fields (prover_vkey prover) (feature_groth16_vk F) (feature_vkey_root F) (args_network a)
        @ [(''scenario'', fx)]))"

text \<open>One turn of the loop: settle, report, prove, emit; with a prover, one file of its own.\<close>

definition emit_scenario ::
  "primitives \<Rightarrow> signers \<Rightarrow> features \<Rightarrow> args \<Rightarrow> deployment_domain \<Rightarrow> groth16_prover option \<Rightarrow> unit option
     \<Rightarrow> scenario \<Rightarrow> cli_error + (scenario \<times> settlement) \<times> json \<times> (string \<times> json) list" where
  "emit_scenario P S F a domain prover reporter s =
     and_then (settle_scenario P S domain s) (\<lambda>(s, st).
     and_then (when_asked (reporter \<noteq> None)
       (map_sum (ScenarioNotReported (scenario_name s)) id (feature_report F st))) (\<lambda>_.
     and_then (case prover of None \<Rightarrow> Inr None
       | Some p \<Rightarrow> map_sum (ScenarioNotProved (scenario_name s)) Some (feature_prove F p st)) (\<lambda>pf.
     and_then (map_sum Panicked id (fixture P s st (args_include_sidecar a) pf)) (\<lambda>fx.
     Inr ((s, st), fx, case prover of None \<Rightarrow> [] | Some p \<Rightarrow> [proof_artifact F a domain p s fx])))))"

text \<open>The loop, with the log of files written by the time it ends or fails.\<close>

primrec emit_scenarios ::
  "(scenario \<Rightarrow> cli_error + 'a \<times> json \<times> (string \<times> json) list) \<Rightarrow> scenario list
     \<Rightarrow> (string \<times> json) list \<times> (cli_error + ('a \<times> json) list)" where
  "emit_scenarios emit [] = ([], Inr [])"
| "emit_scenarios emit (s # ss) =
     (case emit s of Inl e \<Rightarrow> ([], Inl e)
      | Inr (x, fx, files) \<Rightarrow>
          (case emit_scenarios emit ss of (log, r) \<Rightarrow> (files @ log, map_sum id (\<lambda>xs. (x, fx) # xs) r)))"

datatype emission =
    OnlyPrinted
  | Emitted "(scenario \<times> settlement) list" "string option" json

definition emitted_document ::
  "features \<Rightarrow> args \<Rightarrow> deployment_domain \<Rightarrow> groth16_prover option \<Rightarrow> json list \<Rightarrow> json" where
  "emitted_document F a domain prover fixtures =
     JObject (deployment_fields domain (args_genesis_hash a) (args_app_id a)
       @ [(''scenarios'', JArray fixtures)]
       @ (case prover of None \<Rightarrow> []
          | Some p \<Rightarrow> verifier_fields (prover_vkey p) (feature_groth16_vk F) (feature_vkey_root F) (args_network a)))"

text \<open>Everything before the loop: the scenarios, the prover and the reporter.\<close>

definition prepare ::
  "features \<Rightarrow> args \<Rightarrow> cli_error + scenario list \<times> groth16_prover option \<times> unit option" where
  "prepare F a =
     (if args_prove a \<and> args_names a = [] then Inl ProveNeedsNames
      else
        and_then (select_scenarios a) (\<lambda>selected.
        and_then (when_asked (args_prove a) (feature_prover F (args_network a))) (\<lambda>prover.
        and_then (when_asked (args_report a) (feature_reporter F)) (\<lambda>reporter.
        Inr (selected, prover, reporter)))))"

text \<open>The run: the files it writes for proofs, and what it ends with. Without \<open>--out\<close> the document is
  printed.\<close>

definition run_emitter ::
  "primitives \<Rightarrow> signers \<Rightarrow> features \<Rightarrow> string list \<Rightarrow> (string \<times> json) list \<times> (cli_error + emission)" where
  "run_emitter P S F argv =
     (case parse_args argv of Inl e \<Rightarrow> ([], Inl e)
      | Inr None \<Rightarrow> ([], Inr OnlyPrinted)
      | Inr (Some a) \<Rightarrow>
          (case prepare F a of Inl e \<Rightarrow> ([], Inl e)
           | Inr (selected, prover, reporter) \<Rightarrow>
               let domain = deployment_domain_of (sha256 P) (args_genesis_hash a) (args_app_id a) in
               (case emit_scenarios (emit_scenario P S F a domain prover reporter) selected of (log, r) \<Rightarrow>
                  (log, map_sum id (\<lambda>xs. Emitted (map fst xs) (args_out a)
                     (emitted_document F a domain prover (map snd xs))) r))))"

end
