(* ===== verification/Host_Properties.thy ===== *)
theory Host_Properties
  imports Toy Host_Cli
begin

text \<open>
  What the emitter promises whoever runs it: scenarios reachable by one name each, and every
  settlement it emits starting from genesis.
\<close>

section \<open>Scenarios\<close>

lemma built_Inr_iff:
  "built P domain xs = Inr blk \<longleftrightarrow> (\<exists>l'. get_block P xs (ledger_with_domain domain) = Inr (blk, l'))"
  by (auto simp: built_def built_with_ledger_def and_then_Inr_iff)

lemmas scenario_defs =
  scenario_genesis_empty_batch_def scenario_deposits_only_def scenario_payments_def
  scenario_multi_chunk_def scenario_withdrawals_def scenario_duplicate_withdrawals_def
  scenario_forced_exit_def scenario_forced_inclusion_def scenario_inbox_ordering_def
  scenario_round_trip_def scenario_every_scheme_def scenario_falcon_100_def
  scenario_falcon_1000_def scenario_falcon_10000_def scenario_ed25519_100_def
  scenario_ed25519_1000_def scenario_ed25519_10000_def

lemma scenario_builds [simp]:
  "scenario_build scenario_genesis_empty_batch = genesis_empty_batch"
  "scenario_build scenario_deposits_only = deposits_only"
  "scenario_build scenario_payments = payments"
  "scenario_build scenario_multi_chunk = multi_chunk"
  "scenario_build scenario_withdrawals = withdrawals"
  "scenario_build scenario_duplicate_withdrawals = duplicate_withdrawals"
  "scenario_build scenario_forced_exit = forced_exit"
  "scenario_build scenario_forced_inclusion = forced_inclusion"
  "scenario_build scenario_inbox_ordering = inbox_ordering"
  "scenario_build scenario_round_trip = round_trip"
  "scenario_build scenario_every_scheme = every_scheme"
  "scenario_build scenario_falcon_100 = falcon_100"
  "scenario_build scenario_falcon_1000 = falcon_1000"
  "scenario_build scenario_falcon_10000 = falcon_10000"
  "scenario_build scenario_ed25519_100 = ed25519_100"
  "scenario_build scenario_ed25519_1000 = ed25519_1000"
  "scenario_build scenario_ed25519_10000 = ed25519_10000"
  by (simp_all only: scenario_defs scenario.simps)

lemmas scenario_builder_defs =
  genesis_empty_batch_def deposits_only_def payments_def multi_chunk_def withdrawals_def
  duplicate_withdrawals_def forced_exit_def forced_exit_ledger_def forced_inclusion_def
  inbox_ordering_def round_trip_def every_scheme_def falcon_100_def falcon_1000_def
  falcon_10000_def ed25519_100_def ed25519_1000_def ed25519_10000_def falcon_hybrid_load_def
  ed25519_load_def signed_load_def

text \<open>However it is made, a scenario's block is one the empty ledger of its domain builds.\<close>

lemma scenario_from_empty_ledger:
  assumes "s \<in> set (all_scenarios @ heavy)" and "scenario_build s P S domain = Inr blk"
  shows "\<exists>xs l'. get_block P xs (ledger_with_domain domain) = Inr (blk, l')"
  using assms
  by (auto simp: all_scenarios_def heavy_def scenario_builder_defs and_then_Inr_iff built_Inr_iff
      built_with_ledger_def) blast+

lemma map_find_in: "List.find p xs = Some x \<Longrightarrow> x \<in> set xs"
  by (auto simp: find_Some_iff)

lemma selected_known:
  assumes "select_scenarios a = Inr ss"
  shows "set ss \<subseteq> set (all_scenarios @ heavy)"
proof (cases "args_names a = []")
  case False
  with assms have sel: "list_all2 (\<lambda>name s. find_scenario name = Some s) (args_names a) ss"
    by (simp add: select_scenarios_def map_results_Inr_iff ok_or_Inr_iff)
  show ?thesis
  proof
    fix s
    assume "s \<in> set ss"
    with sel obtain name where "find_scenario name = Some s"
      by (auto simp: list_all2_conv_all_nth in_set_conv_nth)
    then show "s \<in> set (all_scenarios @ heavy)" unfolding find_scenario_def by (rule map_find_in)
  qed
qed (use assms in \<open>simp add: select_scenarios_def\<close>)

lemma first_settlement_from_genesis:
  assumes "get_block P xs (ledger_with_domain domain) = Inr (blk, l')" and "for_block P blk = Inr s"
  shows "settles_from_genesis s"
proof -
  note claims = get_block_claims(3,4) [OF wf_ledger_with_domain assms(1)]
  have "settlement_old_root s = block_old_root blk" "settlement_old_inbox_chain s = block_old_inbox_chain blk"
    using assms(2) by (auto simp: for_block_def Let_def and_then_Inr_iff split: if_splits)
  moreover have "state_root P (ledger_with_domain domain) = GENESIS_ROOT"
    by (simp add: state_root_def ledger_with_domain_def root_def tree_new_def GENESIS_ROOT_def EMPTY_SUBTREE_def)
  moreover have "ledger_inbox_chain (ledger_with_domain domain) = INBOX_CHAIN_GENESIS"
    by (simp add: ledger_with_domain_def)
  ultimately show ?thesis using claims by (simp add: settles_from_genesis_def)
qed

lemma settle_scenario_outcome:
  assumes "s \<in> set (all_scenarios @ heavy)"
  shows "case settle_scenario P S domain s of
      Inl e \<Rightarrow> (\<forall>n r. e \<noteq> NotFromGenesis n r) | Inr (s', st) \<Rightarrow> s' = s \<and> settles_from_genesis st"
proof (cases "scenario_build s P S domain")
  case (Inr blk)
  then show ?thesis
    using scenario_from_empty_ledger [OF assms Inr] first_settlement_from_genesis
    by (auto simp: settle_scenario_def split: sum.splits)
qed (simp add: settle_scenario_def)

lemma scenario_names_distinct: "distinct (map scenario_name (all_scenarios @ heavy))"
  by (simp add: all_scenarios_def heavy_def scenario_defs)

text \<open>Parsing and selecting fail for reasons of their own.\<close>

definition no_genesis_error :: "cli_error + 'a \<Rightarrow> bool" where
  "no_genesis_error r = (case r of Inl e \<Rightarrow> (\<forall>n h. e \<noteq> NotFromGenesis n h) | Inr _ \<Rightarrow> True)"

lemma no_genesis_error_intros:
  "no_genesis_error (Inr x)"
  "(\<And>n h. e \<noteq> NotFromGenesis n h) \<Longrightarrow> no_genesis_error (Inl e)"
  "(b \<Longrightarrow> no_genesis_error r) \<Longrightarrow> (\<not> b \<Longrightarrow> no_genesis_error q) \<Longrightarrow> no_genesis_error (if b then r else q)"
  "no_genesis_error t \<Longrightarrow> (\<And>x. t = Inr x \<Longrightarrow> no_genesis_error (f x)) \<Longrightarrow> no_genesis_error (and_then t f)"
  "(xs = [] \<Longrightarrow> no_genesis_error r) \<Longrightarrow> (\<And>y ys. xs = y # ys \<Longrightarrow> no_genesis_error (g y ys)) \<Longrightarrow>
     no_genesis_error (case xs of [] \<Rightarrow> r | y # ys \<Rightarrow> g y ys)"
  by (auto simp: no_genesis_error_def and_then_def split: sum.splits list.splits)

lemma no_genesis_error_map_results: "(\<And>x. no_genesis_error (f x)) \<Longrightarrow> no_genesis_error (map_results f xs)"
  by (induction xs) (auto intro!: no_genesis_error_intros)

lemma no_genesis_error_ok_or: "(\<And>n h. e \<noteq> NotFromGenesis n h) \<Longrightarrow> no_genesis_error (ok_or e x)"
  by (cases x) (auto intro: no_genesis_error_intros)

lemma no_genesis_error_hash: "no_genesis_error (parse_hash v)"
proof -
  have "no_genesis_error (hash_byte v i)" for i
    by (auto simp: no_genesis_error_def hash_byte_def ok_or_def split: sum.splits option.splits)
  then show ?thesis
    unfolding parse_hash_def by (auto intro!: no_genesis_error_intros no_genesis_error_map_results)
qed

lemma no_genesis_error_parse: "no_genesis_error (parse_remaining a argv)"
proof (induction a argv rule: parse_remaining.induct)
  case (1 a)
  show ?case by (simp add: no_genesis_error_def)
next
  case (2 a arg rest)
  show ?case
    unfolding parse_remaining.simps
    by (intro no_genesis_error_intros no_genesis_error_hash no_genesis_error_ok_or 2; (assumption | simp))
qed

lemma no_genesis_error_select: "no_genesis_error (select_scenarios a)"
  unfolding select_scenarios_def
  by (intro no_genesis_error_intros no_genesis_error_map_results no_genesis_error_ok_or) simp

text \<open>Neither build of the emitter confuses its own failures with a settlement's.\<close>

definition no_genesis_features :: "features \<Rightarrow> bool" where
  "no_genesis_features F \<longleftrightarrow>
     (\<forall>network. no_genesis_error (feature_prover F network)) \<and> no_genesis_error (feature_reporter F)"

lemma no_genesis_features_builds [simp]:
  "no_genesis_features without_prove" "no_genesis_features (with_prove K groth16_vk vk_root)"
  by (auto simp: no_genesis_features_def without_prove_def with_prove_def no_genesis_error_def map_sum_def split: sum.splits)

lemma no_genesis_error_when_asked: "no_genesis_error r \<Longrightarrow> no_genesis_error (when_asked b r)"
  by (cases r) (auto simp: when_asked_def no_genesis_error_def)

lemma no_genesis_error_prepare:
  assumes "no_genesis_features F"
  shows "no_genesis_error (prepare F a)"
proof -
  have F: "no_genesis_error (feature_prover F (args_network a))" "no_genesis_error (feature_reporter F)"
    using assms by (simp_all add: no_genesis_features_def)
  show ?thesis
    unfolding prepare_def
    by (intro no_genesis_error_intros no_genesis_error_select no_genesis_error_when_asked F) simp
qed

lemma prepared_known: "prepare F a = Inr (ss, prover, reporter) \<Longrightarrow> set ss \<subseteq> set (all_scenarios @ heavy)"
  using selected_known by (auto simp: prepare_def and_then_Inr_iff split: if_splits)

lemma emit_scenario_outcome:
  assumes "s \<in> set (all_scenarios @ heavy)"
  shows "case emit_scenario P S F a domain prover reporter s of
      Inl e \<Rightarrow> (\<forall>n r. e \<noteq> NotFromGenesis n r)
    | Inr ((s', st), fx, files) \<Rightarrow> settles_from_genesis st"
  using settle_scenario_outcome [OF assms, of P S domain]
  by (auto simp: emit_scenario_def and_then_def when_asked_def map_sum_def split: sum.splits option.splits if_splits)

lemma emit_scenarios_outcome:
  assumes "set ss \<subseteq> set (all_scenarios @ heavy)"
  shows "case snd (emit_scenarios (emit_scenario P S F a domain prover reporter) ss) of
      Inl e \<Rightarrow> (\<forall>n r. e \<noteq> NotFromGenesis n r)
    | Inr out \<Rightarrow> list_all (\<lambda>((s, st), fx). settles_from_genesis st) out"
  using assms
proof (induction ss)
  case (Cons s ss)
  then have "s \<in> set (all_scenarios @ heavy)" by simp
  from emit_scenario_outcome [OF this, of P S F a domain prover reporter] Cons show ?case
    by (auto simp: map_sum_def split: sum.splits prod.splits)
qed simp

lemma run_emitter_outcome:
  assumes "no_genesis_features F"
  shows "case snd (run_emitter P S F argv) of
      Inl e \<Rightarrow> (\<forall>n r. e \<noteq> NotFromGenesis n r)
    | Inr OnlyPrinted \<Rightarrow> True
    | Inr (Emitted out file document) \<Rightarrow> list_all (\<lambda>(s, st). settles_from_genesis st) out"
proof (cases "parse_args argv")
  case (Inl e)
  then show ?thesis
    using no_genesis_error_parse [of default_args "drop 1 argv"]
    by (simp add: run_emitter_def parse_args_def no_genesis_error_def)
next
  case parsed: (Inr parsed)
  show ?thesis
  proof (cases parsed)
    case (Some a)
    show ?thesis
    proof (cases "prepare F a")
      case (Inl e)
      with parsed Some no_genesis_error_prepare [OF assms, of a] show ?thesis
        by (simp add: run_emitter_def no_genesis_error_def)
    next
      case (Inr prepared)
      obtain ss prover reporter where p: "prepared = (ss, prover, reporter)" by (cases prepared)
      let ?domain = "deployment_domain_of (sha256 P) (args_genesis_hash a) (args_app_id a)"
      obtain log r where e: "emit_scenarios (emit_scenario P S F a ?domain prover reporter) ss = (log, r)"
        by (cases "emit_scenarios (emit_scenario P S F a ?domain prover reporter) ss")
      from emit_scenarios_outcome [OF prepared_known [OF Inr [unfolded p]], of P S F a ?domain prover reporter]
      show ?thesis
        by (cases r) (auto simp: run_emitter_def parsed Some Inr p e list.pred_map elim!: list.pred_mono_strong)
    qed
  qed (simp add: run_emitter_def parsed)
qed

section \<open>Hashes on the command line\<close>

lemma hex_digit_value:
  "n < 16 \<Longrightarrow> to_digit 16 (hex_digit n) = Some (int n) \<and> hex_digit n \<noteq> CHR ''+''
     \<and> of_char (hex_digit n) < (0x80 :: int)"
proof -
  have "\<forall>n\<in>set [0..<16]. to_digit 16 (hex_digit n) = Some (int n) \<and> hex_digit n \<noteq> CHR ''+''
     \<and> of_char (hex_digit n) < (0x80 :: int)" by code_simp
  then show "n < 16 \<Longrightarrow> ?thesis" by simp
qed

lemma length_hex [size_simps]: "length (hex bs) = 2 * length bs"
  by (induction bs) (simp_all add: hex_def)

lemma hex_nth:
  "i < length bs \<Longrightarrow> hex bs ! (2 * i) = hex_digit (unat (bs ! i) div 16)
     \<and> hex bs ! (2 * i + 1) = hex_digit (unat (bs ! i) mod 16)"
proof (induction bs arbitrary: i)
  case (Cons b bs)
  then show ?case by (cases i) (simp_all add: hex_def)
qed simp

lemma slice_two: "i + 1 < length xs \<Longrightarrow> slice i (i + 2) xs = [xs ! i, xs ! (i + 1)]"
  by (simp add: slice_def take_Suc_conv_app_nth numeral_2_eq_2)

lemma from_str_radix_two:
  assumes "a < 16" and "b < 16"
  shows "from_str_radix 16 256 [hex_digit a, hex_digit b] = Some (int (16 * a + b))"
proof -
  have "int a * 16 + int b < 256" using assms by linarith
  then show ?thesis
    using hex_digit_value [OF assms(1)] hex_digit_value [OF assms(2)] assms(1)
    by (simp add: from_str_radix_def)
qed

lemma hash_byte_hex:
  assumes "i < length bs"
  shows "hash_byte (hex bs) i = Inr (bs ! i)"
proof -
  let ?s = "hex bs" and ?hi = "unat (bs ! i) div 16" and ?lo = "unat (bs ! i) mod 16"
  have b: "unat (bs ! i) < 256" using unsigned_less [of "bs ! i", where 'a = nat] by simp
  have len: "length ?s = 2 * length bs" by (rule length_hex)
  have boundary: "is_char_boundary ?s (2 * j)" if "j \<le> length bs" for j
  proof (cases "j = length bs")
    case False
    have "unat (bs ! j) div 16 < 16" using unsigned_less [of "bs ! j", where 'a = nat] by simp
    then have "of_char (hex_digit (unat (bs ! j) div 16)) < (0x80 :: int)" using hex_digit_value by blast
    with False that hex_nth [of j bs] show ?thesis by (simp add: is_char_boundary_def len)
  qed (simp add: is_char_boundary_def len)
  have "slice (i * 2) (i * 2 + 2) ?s = [?s ! (2 * i), ?s ! (2 * i + 1)]"
    using assms slice_two [of "2 * i" ?s] by (simp add: len mult.commute)
  then have "str_slice ?s (i * 2) (i * 2 + 2) = Inr [hex_digit ?hi, hex_digit ?lo]"
    using boundary [of i] boundary [of "Suc i"] assms hex_nth [OF assms]
    by (simp add: str_slice_def mult.commute)
  moreover have "from_str_radix 16 256 [hex_digit ?hi, hex_digit ?lo] = Some (int (unat (bs ! i)))"
    using from_str_radix_two [of ?hi ?lo] b by (simp add: mult.commute)
  ultimately show ?thesis by (simp add: hash_byte_def)
qed

lemma parse_hash_hex_bytes:
  assumes "length bs = 32"
  shows "parse_hash (hex bs) = Inr (b32 bs)"
proof -
  have "map_results (hash_byte (hex bs)) [0..<32] = Inr bs"
    using hash_byte_hex [of _ bs] assms by (simp add: map_results_Inr_iff list_all2_conv_all_nth)
  then show ?thesis by (simp add: parse_hash_def length_hex assms)
qed

text \<open>The hexadecimal digits, in either case, by their place in the alphabet.\<close>

definition digit_reads :: "char \<Rightarrow> nat \<Rightarrow> bool" where
  "digit_reads c n \<longleftrightarrow> n < 16 \<and> (c = ''0123456789abcdef'' ! n \<or> c = ''0123456789ABCDEF'' ! n)"

text \<open>A pair of characters and the byte it stands for: two digits, or a plus sign and one.\<close>

definition pair_reads :: "char \<Rightarrow> char \<Rightarrow> nat \<Rightarrow> bool" where
  "pair_reads c d n \<longleftrightarrow> (\<exists>h l. (digit_reads c h \<or> c = CHR ''+'' \<and> h = 0) \<and> digit_reads d l \<and> n = 16 * h + l)"

lemma digit_reads_less: "digit_reads c n \<Longrightarrow> n < 16"
  by (simp add: digit_reads_def)

lemma digit_reads_ascii: "digit_reads c n \<Longrightarrow> of_char c < (128 :: int)"
proof -
  have "\<forall>n\<in>set [0..<16]. of_char (''0123456789abcdef'' ! n) < (128 :: int) \<and> of_char (''0123456789ABCDEF'' ! n) < (128 :: int)"
    by code_simp
  then show "digit_reads c n \<Longrightarrow> ?thesis" by (auto simp: digit_reads_def)
qed

lemma to_digit_16: "to_digit 16 c = Some k \<longleftrightarrow> (\<exists>n. digit_reads c n \<and> k = int n)"
proof -
  have "\<forall>n\<in>set [0..<16]. to_digit 16 (''0123456789abcdef'' ! n) = Some (int n) \<and> to_digit 16 (''0123456789ABCDEF'' ! n) = Some (int n)"
    by code_simp
  then have digit: "to_digit 16 c = Some (int n)" if "digit_reads c n" for n
    using that by (auto simp: digit_reads_def)
  have alphabet: "\<exists>n. digit_reads c n" if "to_digit 16 c = Some k" for k
  proof -
    let ?n = "of_char c :: int"
    have "\<forall>n\<in>set ([48..57] @ [97..102] @ [65..70]). \<exists>k\<in>set [0..<16].
        char_of n = ''0123456789abcdef'' ! k \<or> char_of n = ''0123456789ABCDEF'' ! k"
      by code_simp
    then have "\<forall>n\<in>{48 :: int..57} \<union> ({97..102} \<union> {65..70}). \<exists>k\<in>set [0..<16].
        char_of n = ''0123456789abcdef'' ! k \<or> char_of n = ''0123456789ABCDEF'' ! k"
      unfolding set_append set_upto .
    moreover have "?n \<in> {48..57} \<union> ({97..102} \<union> {65..70})"
      using that by (auto simp: to_digit_def Let_def split: if_splits)
    ultimately obtain k where "k \<in> set [0..<16]" "char_of ?n = ''0123456789abcdef'' ! k \<or> char_of ?n = ''0123456789ABCDEF'' ! k"
      by blast
    then show ?thesis by (auto simp: digit_reads_def)
  qed
  show ?thesis using digit alphabet by (metis option.inject)
qed


lemma pair_reads_radix: "from_str_radix 16 256 [c, d] = Some k \<longleftrightarrow> (\<exists>n. pair_reads c d n \<and> k = int n)"
proof (cases "c = CHR ''+''")
  case True
  have "\<not> digit_reads (CHR ''+'') n" for n using to_digit_16 [of "CHR ''+''" "int n"] by (auto simp: to_digit_def Let_def)
  moreover have "from_str_radix 16 256 [c, d] = Some k \<longleftrightarrow> to_digit 16 d = Some k \<and> k < 256"
    using True by (auto simp: from_str_radix_def bind_eq_Some_conv)
  ultimately show ?thesis
    using True by (auto simp: pair_reads_def to_digit_16 dest: digit_reads_less)
next
  case False
  then have "from_str_radix 16 256 [c, d] = Some k
      \<longleftrightarrow> (\<exists>h l. to_digit 16 c = Some h \<and> to_digit 16 d = Some l \<and> h < 256 \<and> h * 16 + l < 256 \<and> k = h * 16 + l)"
    by (auto simp: from_str_radix_def bind_eq_Some_conv split: if_splits)
  also have "\<dots> \<longleftrightarrow> (\<exists>h l. digit_reads c h \<and> digit_reads d l \<and> k = int (16 * h + l))"
    unfolding to_digit_16 by (fastforce dest: digit_reads_less)
  finally show ?thesis using False unfolding pair_reads_def by blast
qed

text \<open>What stands at one pair of a text.\<close>

definition reads_at :: "string \<Rightarrow> nat \<Rightarrow> nat \<Rightarrow> bool" where
  "reads_at s i n \<longleftrightarrow> pair_reads (s ! (2 * i)) (s ! (2 * i + 1)) n"

definition cut_at :: "string \<Rightarrow> nat \<Rightarrow> bool" where
  "cut_at s i \<longleftrightarrow> \<not> (is_char_boundary s (2 * i) \<and> is_char_boundary s (2 * i + 2))"

lemma hash_byte_cases:
  assumes "2 * i + 1 < length s"
  shows "cut_at s i \<Longrightarrow> hash_byte s i = Inl (Panicked SliceOutOfRange)"
    and "\<not> cut_at s i \<Longrightarrow> reads_at s i n \<Longrightarrow> hash_byte s i = Inr (of_nat n)"
    and "\<not> cut_at s i \<Longrightarrow> (\<nexists>n. reads_at s i n) \<Longrightarrow> hash_byte s i = Inl HashNotHex"
proof -
  have slice: "slice (2 * i) (2 * i + 2) s = [s ! (2 * i), s ! (2 * i + 1)]" by (rule slice_two [OF assms])
  show "hash_byte s i = Inl (Panicked SliceOutOfRange)" if "cut_at s i"
    using that by (auto simp: hash_byte_def str_slice_def cut_at_def mult.commute)
  have read: "hash_byte s i = map_sum id of_int (ok_or HashNotHex (from_str_radix 16 256 [s ! (2 * i), s ! (2 * i + 1)]))"
    if "\<not> cut_at s i"
    using that slice by (simp add: hash_byte_def str_slice_def cut_at_def mult.commute)
  show "hash_byte s i = Inr (of_nat n)" if "\<not> cut_at s i" "reads_at s i n"
    using read [OF that(1)] pair_reads_radix [of "s ! (2 * i)" "s ! (2 * i + 1)" "int n"] that(2)
    by (auto simp: reads_at_def)
  show "hash_byte s i = Inl HashNotHex" if "\<not> cut_at s i" "\<nexists>n. reads_at s i n"
  proof (cases "from_str_radix 16 256 [s ! (2 * i), s ! (2 * i + 1)]")
    case (Some k)
    with pair_reads_radix [THEN iffD1, OF this] that(2) show ?thesis by (auto simp: reads_at_def)
  qed (use read [OF that(1)] in simp)
qed

lemma reads_at_less: "reads_at s i n \<Longrightarrow> n < 256"
  by (auto simp: reads_at_def pair_reads_def dest!: digit_reads_less)

lemma hash_byte_iffs:
  assumes "2 * i + 1 < length s"
  shows "hash_byte s i = Inr b \<longleftrightarrow> \<not> cut_at s i \<and> reads_at s i (unat b)"
    and "hash_byte s i = Inl e \<longleftrightarrow> cut_at s i \<and> e = Panicked SliceOutOfRange
      \<or> \<not> cut_at s i \<and> (\<nexists>n. reads_at s i n) \<and> e = HashNotHex"
proof -
  note cases = hash_byte_cases [OF assms]
  show "hash_byte s i = Inr b \<longleftrightarrow> \<not> cut_at s i \<and> reads_at s i (unat b)"
  proof
    assume ok: "hash_byte s i = Inr b"
    then have whole: "\<not> cut_at s i" using cases(1) by auto
    with ok obtain n where n: "reads_at s i n" using cases(3) by auto
    with ok whole have "b = of_nat n" using cases(2) by simp
    with n whole reads_at_less [OF n] show "\<not> cut_at s i \<and> reads_at s i (unat b)" by (simp add: unat_of_nat)
  qed (use cases(2) [of "unat b"] in simp)
  show "hash_byte s i = Inl e \<longleftrightarrow> cut_at s i \<and> e = Panicked SliceOutOfRange
      \<or> \<not> cut_at s i \<and> (\<nexists>n. reads_at s i n) \<and> e = HashNotHex"
    using cases by (cases "cut_at s i"; cases "\<exists>n. reads_at s i n") auto
qed

text \<open>Up to which pair a text reads.\<close>

definition reads_before :: "string \<Rightarrow> nat \<Rightarrow> bool" where
  "reads_before s i \<longleftrightarrow> (\<forall>j<i. \<not> cut_at s j \<and> (\<exists>n. reads_at s j n))"

text \<open>Cutting the text cuts the bytes.\<close>

lemma hex_simps [simp]:
  "hex [] = []" "hex (b # bs) = hex_digit (unat b div 16) # hex_digit (unat b mod 16) # hex bs"
  by (simp_all add: hex_def)

lemma hex_append: "hex (as @ bs) = hex as @ hex bs"
  by (simp add: hex_def)

lemma hex_drop: "drop (2 * i) (hex bs) = hex (drop i bs)"
  by (induction bs arbitrary: i) (simp_all add: drop_Cons split: nat.split)

lemma hex_take: "take (2 * i) (hex bs) = hex (take i bs)"
  by (induction bs arbitrary: i) (simp_all add: take_Cons split: nat.split)

lemma hex_slice: "slice (2 * i) (2 * j) (hex bs) = hex (slice i j bs)"
  by (simp add: slice_def hex_drop flip: hex_take right_diff_distrib')

lemma hex_concat: "concat (map hex bss) = hex (concat bss)"
  by (induction bss) (simp_all add: hex_append)

lemma map_of_front: "k \<in> fst ` set xs \<Longrightarrow> map_of (xs @ ys) k = map_of xs k"
  by (induction xs) auto

text \<open>The words of a settlement are the words of its public values.\<close>

lemma settlement_slices:
  assumes "for_block P blk = Inr st"
  shows "slice 0 32 (settlement_public_values st) = bytes_of (settlement_old_root st)"
    "slice 32 64 (settlement_public_values st) = bytes_of (settlement_new_root st)"
    "slice 64 96 (settlement_public_values st) = bytes_of (settlement_batch_commitment st)"
    "slice 96 128 (settlement_public_values st) = bytes_of (settlement_old_inbox_chain st)"
    "slice 128 160 (settlement_public_values st) = bytes_of (settlement_new_inbox_chain st)"
    "slice 160 192 (settlement_public_values st) = bytes_of (settlement_withdrawal_chain st)"
    "length (settlement_public_values st) = 192"
proof -
  from assms obtain vals where
    exec: "execute P (block_domain blk) (block_old_root blk) (block_old_inbox_chain blk)
      (batch_encode (block_batch blk)) (sidecar_encode (block_sidecar blk)) = Inr vals"
    and sl: "slice 32 64 vals = bytes_of (block_new_root blk)" "slice 128 160 vals = bytes_of (block_new_inbox_chain blk)"
      "slice 160 192 vals = bytes_of (block_withdrawal_chain blk)"
    and st: "settlement_public_values st = vals" "settlement_old_root st = block_old_root blk"
      "settlement_new_root st = block_new_root blk" "settlement_old_inbox_chain st = block_old_inbox_chain blk"
      "settlement_new_inbox_chain st = block_new_inbox_chain blk"
      "settlement_withdrawal_chain st = block_withdrawal_chain blk"
    by (auto simp: for_block_def Let_def and_then_Inr_iff split: if_splits)
  from execute_Inr [OF exec] obtain rt i w where
    vals: "vals = public_values (sha256 P) (block_domain blk) (block_old_root blk) rt
      (batch_encode (block_batch blk)) (block_old_inbox_chain blk) i w" by blast
  note words = slice_public_values [OF vals]
  show "slice 0 32 (settlement_public_values st) = bytes_of (settlement_old_root st)"
    "slice 32 64 (settlement_public_values st) = bytes_of (settlement_new_root st)"
    "slice 64 96 (settlement_public_values st) = bytes_of (settlement_batch_commitment st)"
    "slice 96 128 (settlement_public_values st) = bytes_of (settlement_old_inbox_chain st)"
    "slice 128 160 (settlement_public_values st) = bytes_of (settlement_new_inbox_chain st)"
    "slice 160 192 (settlement_public_values st) = bytes_of (settlement_withdrawal_chain st)"
    using words sl st by (simp_all add: settlement_batch_commitment_def)
  show "length (settlement_public_values st) = 192" by (simp add: st vals public_values_eq)
qed

text \<open>A settlement for the examples.\<close>

lemma toy_settlement: "\<exists>blk s. for_block toy blk = Inr s"
proof -
  have "case get_block toy [] (ledger_with_domain zero32) of Inl _ \<Rightarrow> False
    | Inr (blk, _) \<Rightarrow> \<not> isl (for_block toy blk)" by code_simp
  then obtain blk where "\<not> isl (for_block toy blk)" by (auto split: sum.splits)
  then show ?thesis by (metis isl_def sum.collapse(2))
qed

section \<open>Properties\<close>

text \<open>C34: The emitter's own safeguard never fires: whatever it is asked for, with or without the
  prover, whatever the signing libraries and the prover network do, no scenario starts anywhere but
  at genesis, and everything it emits can be settled against a fresh contract.\<close>

theorem emitter_settles_from_genesis:
  "case snd (run_emitter P S (if proving then with_prove K groth16_vk vk_root else without_prove) argv) of
     Inl e \<Rightarrow> e \<noteq> NotFromGenesis n r
   | Inr OnlyPrinted \<Rightarrow> True
   | Inr (Emitted out file document) \<Rightarrow> list_all (\<lambda>(s, st). settles_from_genesis st) out"
proof -
  let ?F = "if proving then with_prove K groth16_vk vk_root else without_prove"
  have "no_genesis_features ?F" by simp
  from run_emitter_outcome [OF this, of P S argv] show ?thesis
    by (cases "snd (run_emitter P S ?F argv)") (simp_all split del: if_split)
qed

text \<open>What the emitter prints it also reads: the hex of any 32 bytes is accepted as a genesis hash
  and means those bytes, so a fixture's own \<open>genesisHash\<close> reproduces its deployment domain.\<close>

theorem parse_hash_of_hex:
  "parse_hash (hex (bytes_of h)) = Inr h \<and> length (hex (bytes_of h)) = 64"
  by (simp add: parse_hash_hex_bytes length_hex)

text \<open>C36: What \<open>parse_hash\<close> accepts and how it fails, for every text. It accepts exactly the texts of 64
  bytes whose 32 pairs each read as a byte, in digits of either case, and the hash is those bytes; a
  pair may also be a plus sign and one digit, so text that is not hexadecimal is accepted. Otherwise
  the first pair that does not read decides: one that is no number is refused, and one whose end is
  inside a character panics instead of being refused.\<close>

theorem parse_hash_decides:
  "case parse_hash s of
     Inr h \<Rightarrow> length s = 64 \<and> (\<forall>i<32. reads_at s i (unat (bytes_of h ! i)))
   | Inl HashLength \<Rightarrow> length s \<noteq> 64
   | Inl HashNotHex \<Rightarrow> length s = 64 \<and> (\<exists>i<32. reads_before s i \<and> \<not> cut_at s i \<and> (\<nexists>n. reads_at s i n))
   | Inl (Panicked p) \<Rightarrow> length s = 64 \<and> p = SliceOutOfRange \<and> (\<exists>i<32. reads_before s i \<and> cut_at s i)
   | Inl _ \<Rightarrow> False"
proof (cases "length s = 64")
  case True
  then have byte: "hash_byte s i = Inr b \<longleftrightarrow> \<not> cut_at s i \<and> reads_at s i (unat b)"
    "hash_byte s i = Inl e \<longleftrightarrow> cut_at s i \<and> e = Panicked SliceOutOfRange
      \<or> \<not> cut_at s i \<and> (\<nexists>n. reads_at s i n) \<and> e = HashNotHex" if "i < 32" for i b e
    using that by (intro hash_byte_iffs; simp)+
  show ?thesis
  proof (cases "map_results (hash_byte s) [0..<32]")
    case (Inr bs)
    then have all: "list_all2 (\<lambda>i b. hash_byte s i = Inr b) [0..<32] bs" by (simp add: map_results_Inr_iff)
    then have len: "length bs = 32" by (simp add: list_all2_lengthD [symmetric])
    have "reads_at s i (unat (bs ! i))" if "i < 32" for i
      using list_all2_nthD [OF all, of i] that byte(1) [OF that] by simp
    with True Inr len show ?thesis by (simp add: parse_hash_def)
  next
    case (Inl e)
    then obtain i where i: "i < 32" "hash_byte s i = Inl e" and before: "\<forall>j<i. \<exists>b. hash_byte s j = Inr b"
      by (auto simp: map_results_Inl_iff)
    then have "reads_before s i" using byte(1) unfolding reads_before_def by (metis less_trans)
    with i True Inl byte(2) [OF i(1), of e] show ?thesis by (auto simp: parse_hash_def)
  qed
qed (simp add: parse_hash_def)

lemma parse_hash_decides_witness:
  "parse_hash (concat (replicate 32 ''+f'')) = Inr (b32 (replicate 32 15))
   \<and> reads_at (concat (replicate 32 ''+f'')) 31 15
   \<and> (\<exists>i<32. reads_before (''0'' @ [CHR 0xC3, CHR 0xA9] @ replicate 61 (CHR ''0'')) i
        \<and> cut_at (''0'' @ [CHR 0xC3, CHR 0xA9] @ replicate 61 (CHR ''0'')) i)"
proof -
  have runs: "parse_hash (concat (replicate 32 ''+f'')) = Inr (b32 (replicate 32 15))"
    "parse_hash (''0'' @ [CHR 0xC3, CHR 0xA9] @ replicate 61 (CHR ''0'')) = Inl (Panicked SliceOutOfRange)"
    by code_simp+
  have "\<forall>i<32. reads_at (concat (replicate 32 ''+f'')) i (unat (bytes_of (b32 (replicate 32 (15 :: byte))) ! i))"
    using parse_hash_decides [of "concat (replicate 32 ''+f'')"] unfolding runs by simp
  from this [rule_format, of 31] have "reads_at (concat (replicate 32 ''+f'')) 31 15" by simp
  with runs parse_hash_decides [of "''0'' @ [CHR 0xC3, CHR 0xA9] @ replicate 61 (CHR ''0'')"]
  show ?thesis unfolding runs(2) by simp
qed

text \<open>A fixture agrees with itself: the roots, the batch commitment and the chain ends a test reads
  are the fields of the emitted public values cut at their offsets, and the chunks a test posts are
  as many as announced and join up to the emitted batch.\<close>

theorem fixture_agrees_with_itself:
  assumes "for_block P blk = Inr st" and "fixture P s st include_sidecar proof_opt = Inr fx"
  shows "\<exists>pv cs. field ''publicValues'' fx = Some (JString pv) \<and> length pv = 384
    \<and> map (\<lambda>k. field k fx) [''oldRoot'', ''newRoot'', ''batchCommitment'', ''inboxChainFrom'', ''inboxChainTo'', ''withdrawalChain'']
        = map (\<lambda>i. Some (JString (slice (64 * i) (64 * i + 64) pv))) [0, 1, 2, 3, 4, 5]
    \<and> field ''chunks'' fx = Some (JArray (map JString cs)) \<and> field ''batch'' fx = Some (JString (concat cs))
    \<and> field ''chunkCount'' fx = Some (JNumber (int (length cs)))"
proof -
  let ?v = "settlement_public_values st"
  have cut: "slice (64 * i) (64 * i + 64) (hex ?v) = hex (slice (32 * i) (32 * i + 32) ?v)" for i
    using hex_slice [of "32 * i" "32 * i + 32" ?v] by simp
  from assms(2) obtain exits tail where tail: "fx = JObject (fixture_fields P s st exits @ tail)"
    by (auto simp: fixture_def and_then_Inr_iff)
  have fx: "field k fx = map_of (fixture_fields P s st exits) k" if "k \<in> fst ` set (fixture_fields P s st exits)" for k
    using that by (simp add: tail map_of_front del: map_of_append)
  note words = settlement_slices [OF assms(1)]
  have chunks: "concat (settlement_chunks st) = settlement_batch_bytes st"
    "length (settlement_chunks st) = settlement_chunk_count st"
    by (simp_all add: settlement_chunks_def settlement_chunk_count_def chunk_count_def length_chunks)
  show ?thesis
    using words fx chunks cut [of 0] cut [of 1] cut [of 2] cut [of 3] cut [of 4] cut [of 5]
    by (intro exI [of _ "hex ?v"] exI [of _ "map hex (settlement_chunks st)"])
       (simp add: fixture_fields_def hex_word_def hex_bytes_def json_usize_def length_hex hex_concat image_iff comp_def)
qed

lemma fixture_agrees_with_itself_witness:
  "\<exists>blk st fx pv. for_block toy blk = Inr st \<and> fixture toy scenario_genesis_empty_batch st True None = Inr fx
     \<and> field ''publicValues'' fx = Some (JString pv) \<and> length pv = 384"
proof -
  obtain blk st where st: "for_block toy blk = Inr st" using toy_settlement by blast
  obtain fx where fx: "fixture toy scenario_genesis_empty_batch st True None = Inr fx"
    by (simp add: fixture_def fixture_exits_def scenario_genesis_empty_batch_def)
  from fixture_agrees_with_itself [OF st fx] st fx show ?thesis by blast
qed

end
