(* ===== verification/Funding.thy ===== *)
theory Funding
  imports Ledger_Refines
begin

text \<open>
  When a run cannot fail. A budget is a lower bound on what each address can spend, with the exact
  nonces and an upper bound on all value; \<open>funded\<close> checks a list of transactions against a budget
  by arithmetic alone, and a funded list goes through, in the specification and in the ledger.
\<close>

section \<open>Budgets\<close>

definition backed :: "(address \<Rightarrow> nat) \<Rightarrow> (address \<Rightarrow> nat) \<Rightarrow> nat \<Rightarrow> account_map \<Rightarrow> bool" where
  "backed B K T m \<longleftrightarrow> finite (dom m) \<and> total m \<le> T \<and> T < 2 ^ 64 \<and>
     (\<forall>a. B a \<le> unat (balance_of (m a)) \<and> nonce_of (m a) = K a \<and> auth_of a (m a) = a)"

text \<open>A signature that authorizes any account bound to \<open>a\<close> over the message.\<close>

definition authorizes :: "primitives \<Rightarrow> address \<Rightarrow> signature \<Rightarrow> byte list \<Rightarrow> bool" where
  "authorizes P a sig msg \<longleftrightarrow>
     signature_address P sig = a \<and> crypto_verify P (sig_scheme sig) (sig_pub_key sig) (sig_bytes sig) msg = Inr ()"

definition spendable ::
  "primitives \<Rightarrow> (address \<Rightarrow> nat) \<Rightarrow> (address \<Rightarrow> nat) \<Rightarrow> address \<Rightarrow> signature \<Rightarrow> u64 \<Rightarrow> u64
     \<Rightarrow> (u64 \<Rightarrow> byte list) \<Rightarrow> bool" where
  "spendable P B K a sig amt fee message \<longleftrightarrow>
     0 < unat amt + unat fee \<and> unat amt + unat fee \<le> B a \<and> K a + 1 < 2 ^ 64 \<and>
     authorizes P a sig (message (of_nat (K a + 1)))"

abbreviation spent :: "(address \<Rightarrow> nat) \<Rightarrow> address \<Rightarrow> u64 \<Rightarrow> u64 \<Rightarrow> address \<Rightarrow> nat" where
  "spent B a amt fee \<equiv> B(a := B a - (unat amt + unat fee))"

abbreviation received :: "(address \<Rightarrow> nat) \<Rightarrow> address \<Rightarrow> u64 \<Rightarrow> address \<Rightarrow> nat" where
  "received B a amt \<equiv> B(a := B a + unat amt)"

abbreviation bumped :: "(address \<Rightarrow> nat) \<Rightarrow> address \<Rightarrow> address \<Rightarrow> nat" where
  "bumped K a \<equiv> K(a := K a + 1)"

fun funded ::
  "primitives \<Rightarrow> deployment_domain \<Rightarrow> (address \<Rightarrow> nat) \<Rightarrow> (address \<Rightarrow> nat) \<Rightarrow> nat
     \<Rightarrow> signed_transaction list \<Rightarrow> bool" where
  "funded P domain B K T [] = True"
| "funded P domain B K T (SignedDeposit d # xs) =
     (T + unat (deposit_amount d) < 2 ^ 64 \<and>
      funded P domain (received B (deposit_receiver d) (deposit_amount d)) K (T + unat (deposit_amount d)) xs)"
| "funded P domain B K T (SignedPayment p sig # xs) =
     (let a = header_sender (payment_header p); amt = payment_amount p; fee = header_fee (payment_header p) in
      spendable P B K a sig amt fee (payment_bytes_to_sign p domain) \<and>
      funded P domain (received (spent B a amt fee) (payment_receiver p) amt) (bumped K a) T xs)"
| "funded P domain B K T (SignedWithdrawal w sig # xs) =
     (let a = header_sender (withdrawal_header w); amt = withdrawal_amount w;
          fee = header_fee (withdrawal_header w) in
      MIN_WITHDRAWAL \<le> amt \<and> spendable P B K a sig amt fee (withdrawal_bytes_to_sign w domain) \<and>
      funded P domain (spent B a amt fee) (bumped K a) T xs)"
| "funded P domain B K T (SignedForcedWithdrawal f # xs) =
     (let a = header_sender (forced_header f) in
      unat MIN_WITHDRAWAL \<le> B a \<and> K a + 1 < 2 ^ 64 \<and>
      funded P domain (B(a := 0)) (bumped K a) T xs)"

section \<open>Each operation keeps the books\<close>

lemma balance_le_total: "finite (dom m) \<Longrightarrow> unat (balance_of (m a)) \<le> total m"
  using member_le_sum [of a "dom m" "\<lambda>a. unat (balance_of (m a))"]
  by (cases "m a") (auto simp: total_def)

lemma backed_mono: "backed B K T m \<Longrightarrow> (\<And>a. B' a \<le> B a) \<Longrightarrow> T \<le> T' \<Longrightarrow> T' < 2 ^ 64 \<Longrightarrow> backed B' K T' m"
  unfolding backed_def by (meson le_trans)

lemma authorizes_verify: "authorizes P a sig msg \<Longrightarrow> auth_address acc = a \<Longrightarrow> signature_verify P sig acc msg = Inr ()"
  by (simp add: authorizes_def signature_verify_def verify_auth_def)

lemma credit_backed:
  assumes "backed B K T m" and "T + unat amt < 2 ^ 64"
  shows "\<exists>m'. spec_credit a amt m = Inr m' \<and> backed (received B a amt) K (T + unat amt) m'"
proof -
  let ?acc = "case m a of None \<Rightarrow> account_empty a | Some acc \<Rightarrow> acc"
  from assms(1) have m: "finite (dom m)" "total m \<le> T"
    "\<And>a. B a \<le> unat (balance_of (m a))" "\<And>a. nonce_of (m a) = K a" "\<And>a. auth_of a (m a) = a"
    by (auto simp: backed_def)
  have bal: "unat (amount ?acc) = unat (balance_of (m a))"
    by (simp add: account_empty_def account_new_def split: option.splits)
  have lt: "unat (amount ?acc) + unat amt < 2 ^ 64"
    using balance_le_total [OF m(1), of a] m(2) assms(2) bal by linarith
  define m' where "m' = m(a \<mapsto> ?acc\<lparr>amount := amount ?acc + amt\<rparr>)"
  have ok: "spec_credit a amt m = Inr m'"
    using lt by (simp add: spec_credit_Inr_iff receive_Inr_iff m'_def Let_def)
  have "total m' = total m + unat amt" "finite (dom m')" using spec_credit_total [OF ok m(1)] by simp_all
  moreover have "unat (amount ?acc + amt) = unat (amount ?acc) + unat amt"
    using lt by (simp add: unat_word_ariths)
  moreover have "auth_address ?acc = a"
    using m(5) [of a] by (cases "m a") (simp_all add: account_empty_def account_new_def)
  moreover have "nonce_of (m' b) = K b" for b using spec_credit_slot(1) [OF ok] m(4) by simp
  ultimately have "backed (received B a amt) K (T + unat amt) m'"
    using m(2,3,5) assms(2) bal m(3) [of a]
    by (simp add: backed_def) (simp add: m'_def)
  with ok show ?thesis by blast
qed

lemma debit_backed:
  assumes "backed B K T m" and "spendable P B K a sig amt fee message"
  shows "\<exists>m'. spec_debit P a sig amt fee message m = Inr m'
    \<and> backed (spent B a amt fee) (bumped K a) (T - (unat amt + unat fee)) m'"
proof -
  from assms(1) have m: "finite (dom m)" "total m \<le> T" "T < 2 ^ 64"
    "\<And>a. B a \<le> unat (balance_of (m a))" "\<And>a. nonce_of (m a) = K a" "\<And>a. auth_of a (m a) = a"
    by (auto simp: backed_def)
  from assms(2) have s: "0 < unat amt + unat fee" "unat amt + unat fee \<le> B a" "K a + 1 < 2 ^ 64"
    "authorizes P a sig (message (of_nat (K a + 1)))" by (auto simp: spendable_def)
  then have "0 < unat (balance_of (m a))" using m(4) [of a] by linarith
  then obtain acc where acc: "m a = Some acc" by (cases "m a") auto
  have n: "unat (nonce acc) = K a" using m(5) [of a] acc by simp
  then have "nonce acc + 1 = of_nat (K a + 1)" by (simp flip: n)
  moreover have le: "unat amt + unat fee \<le> unat (amount acc)" using m(4) [of a] s(2) acc by simp
  ultimately have sp: "spend P sig amt fee message acc
      = Inr (acc\<lparr>nonce := nonce acc + 1, amount := amount acc - amt - fee\<rparr>)"
    using authorizes_verify [OF s(4)] n s(3) m(6) [of a] acc by (simp add: spend_Inr_iff add.commute)
  define m' where "m' = m(a \<mapsto> acc\<lparr>nonce := nonce acc + 1, amount := amount acc - amt - fee\<rparr>)"
  have ok: "spec_debit P a sig amt fee message m = Inr m'"
    using sp acc by (simp add: spec_debit_Inr_iff m'_def)
  have tot: "total m' + unat amt + unat fee = total m" "finite (dom m')" using spec_debit_total [OF ok m(1)] by simp_all
  have "amt \<le> amount acc" "fee \<le> amount acc - amt"
    using le by (auto simp: word_le_nat_alt unat_sub)
  then have "unat (amount acc - amt - fee) = unat (amount acc) - (unat amt + unat fee)" by (simp add: unat_sub)
  then have "backed (spent B a amt fee) (bumped K a) (T - (unat amt + unat fee)) m'"
    using m s(3) tot acc n m(4) [of a] m(6) [of a] le
    by (auto simp: backed_def m'_def unat_succ_u64)
  with ok show ?thesis by blast
qed

lemma fee_backed:
  assumes "backed B K T m" and "T + unat fee < 2 ^ 64"
  shows "\<exists>m'. spec_fee fee m = Inr m' \<and> backed B K (T + unat fee) m'"
proof (cases "fee = 0")
  case False
  from credit_backed [OF assms, of FEE_SINK] obtain m' where
    "spec_credit FEE_SINK fee m = Inr m'" "backed (received B FEE_SINK fee) K (T + unat fee) m'" by blast
  with False assms(2) show ?thesis by (auto simp: spec_fee_def intro: backed_mono)
qed (use assms in \<open>simp add: spec_fee_def\<close>)

lemma empty_backed:
  assumes "backed B K T m" and "unat MIN_WITHDRAWAL \<le> B a" and "K a + 1 < 2 ^ 64"
  shows "\<exists>m'. spec_empty a m = Inr m' \<and> backed (B(a := 0)) (bumped K a) T m'"
proof -
  from assms(1) have m: "finite (dom m)" "total m \<le> T" "T < 2 ^ 64"
    "\<And>a. B a \<le> unat (balance_of (m a))" "\<And>a. nonce_of (m a) = K a" "\<And>a. auth_of a (m a) = a"
    by (auto simp: backed_def)
  have min: "MIN_WITHDRAWAL \<le> balance_of (m a)" using assms(2) m(4) [of a] by (simp add: word_le_nat_alt)
  then obtain acc where acc: "m a = Some acc" by (cases "m a") (auto simp: MIN_WITHDRAWAL_def)
  have n: "unat (nonce acc) = K a" using m(5) [of a] acc by simp
  define m' where "m' = m(a \<mapsto> acc\<lparr>amount := 0, nonce := nonce acc + 1\<rparr>)"
  have ok: "spec_empty a m = Inr m'"
    using min acc n assms(3) by (simp add: spec_empty_Inr_iff m'_def)
  have "total m' \<le> total m" "finite (dom m')" using spec_empty_total [OF ok m(1)] by auto
  then have "backed (B(a := 0)) (bumped K a) T m'"
    using m acc n assms(3) m(6) [of a] by (auto simp: backed_def m'_def unat_succ_u64)
  with ok show ?thesis by blast
qed

section \<open>A funded run goes through\<close>

lemma funded_txn:
  assumes "funded P domain B K T (x # xs)" and "backed B K T (spec_accounts st)"
  shows "\<exists>st' B' K' T'. spec_txn P domain x st = Inr st' \<and> backed B' K' T' (spec_accounts st')
    \<and> funded P domain B' K' T' xs"
proof (cases x)
  case (SignedDeposit d)
  with assms credit_backed [OF assms(2), of "deposit_amount d" "deposit_receiver d"] show ?thesis by fastforce
next
  case (SignedPayment p sig)
  let ?a = "header_sender (payment_header p)" and ?amt = "payment_amount p" and ?fee = "header_fee (payment_header p)"
  from assms(1) SignedPayment have sp: "spendable P B K ?a sig ?amt ?fee (payment_bytes_to_sign p domain)"
    and rest: "funded P domain (received (spent B ?a ?amt ?fee) (payment_receiver p) ?amt) (bumped K ?a) T xs"
    by (simp_all add: Let_def)
  obtain m1 where d: "spec_debit P ?a sig ?amt ?fee (payment_bytes_to_sign p domain) (spec_accounts st) = Inr m1"
    and b1: "backed (spent B ?a ?amt ?fee) (bumped K ?a) (T - (unat ?amt + unat ?fee)) m1"
    using debit_backed [OF assms(2) sp] by blast
  have T: "T < 2 ^ 64" using assms(2) by (simp add: backed_def)
  have "unat ?amt + unat ?fee \<le> T"
    using sp assms(2) balance_le_total [of "spec_accounts st" ?a]
    by (auto simp: spendable_def backed_def intro: le_trans)
  then have le: "T - (unat ?amt + unat ?fee) + unat ?amt + unat ?fee = T" by simp
  then have "T - (unat ?amt + unat ?fee) + unat ?amt < 2 ^ 64" using T by linarith
  from credit_backed [OF b1 this, of "payment_receiver p"] obtain m2 where
    c: "spec_credit (payment_receiver p) ?amt m1 = Inr m2"
    and b2: "backed (received (spent B ?a ?amt ?fee) (payment_receiver p) ?amt) (bumped K ?a)
      (T - (unat ?amt + unat ?fee) + unat ?amt) m2" by blast
  from fee_backed [OF b2, of ?fee] obtain m3 where
    f: "spec_fee ?fee m2 = Inr m3"
    and b3: "backed (received (spent B ?a ?amt ?fee) (payment_receiver p) ?amt) (bumped K ?a) T m3"
    using T by (auto simp only: le)
  have "\<exists>st'. spec_txn P domain x st = Inr st' \<and> spec_accounts st' = m3"
    by (simp add: SignedPayment d c f)
  with b3 rest show ?thesis by blast
next
  case (SignedWithdrawal w sig)
  let ?a = "header_sender (withdrawal_header w)" and ?amt = "withdrawal_amount w" and ?fee = "header_fee (withdrawal_header w)"
  from assms(1) SignedWithdrawal have sp: "spendable P B K ?a sig ?amt ?fee (withdrawal_bytes_to_sign w domain)"
    and rest: "funded P domain (spent B ?a ?amt ?fee) (bumped K ?a) T xs" and min: "MIN_WITHDRAWAL \<le> ?amt"
    by (simp_all add: Let_def)
  obtain m1 where d: "spec_debit P ?a sig ?amt ?fee (withdrawal_bytes_to_sign w domain) (spec_accounts st) = Inr m1"
    and b1: "backed (spent B ?a ?amt ?fee) (bumped K ?a) (T - (unat ?amt + unat ?fee)) m1"
    using debit_backed [OF assms(2) sp] by blast
  have T: "T < 2 ^ 64" using assms(2) by (simp add: backed_def)
  have "unat ?amt + unat ?fee \<le> T"
    using sp assms(2) balance_le_total [of "spec_accounts st" ?a]
    by (auto simp: spendable_def backed_def intro: le_trans)
  then have le: "T - (unat ?amt + unat ?fee) + unat ?fee \<le> T" by simp
  then have "T - (unat ?amt + unat ?fee) + unat ?fee < 2 ^ 64" using T by linarith
  from fee_backed [OF b1 this] obtain m2 where
    f: "spec_fee ?fee m1 = Inr m2"
    and b2: "backed (spent B ?a ?amt ?fee) (bumped K ?a) T m2"
    using backed_mono [OF _ order_refl le T] by blast
  have "\<exists>st'. spec_txn P domain x st = Inr st' \<and> spec_accounts st' = m2"
    using min by (simp add: SignedWithdrawal d f)
  with b2 rest show ?thesis by blast
next
  case (SignedForcedWithdrawal f)
  from assms(1) SignedForcedWithdrawal have
    "unat MIN_WITHDRAWAL \<le> B (header_sender (forced_header f))" "K (header_sender (forced_header f)) + 1 < 2 ^ 64"
    and rest: "funded P domain (B(header_sender (forced_header f) := 0)) (bumped K (header_sender (forced_header f))) T xs"
    by (simp_all add: Let_def)
  from empty_backed [OF assms(2) this(1,2)] rest SignedForcedWithdrawal show ?thesis
    by (fastforce simp: Let_def)
qed

lemma funded_txns:
  "funded P domain B K T xs \<Longrightarrow> backed B K T (spec_accounts st) \<Longrightarrow> \<exists>st'. spec_txns P domain xs st = Inr st'"
proof (induction xs arbitrary: B K T st)
  case (Cons x xs)
  from funded_txn [OF Cons.prems] obtain st' B' K' T' where
    "spec_txn P domain x st = Inr st'" "backed B' K' T' (spec_accounts st')" "funded P domain B' K' T' xs" by blast
  with Cons.IH show ?case by simp
qed simp

text \<open>From the empty ledger: nothing to spend, no nonce used, no value anywhere.\<close>

abbreviation starts_funded :: "primitives \<Rightarrow> deployment_domain \<Rightarrow> signed_transaction list \<Rightarrow> bool" where
  "starts_funded P domain xs \<equiv> funded P domain (\<lambda>_. 0) (\<lambda>_. 0) 0 xs"

lemma funded_get_block:
  assumes "starts_funded P domain xs"
  shows "\<exists>blk l'. get_block P xs (ledger_with_domain domain) = Inr (blk, l')"
proof -
  have "backed (\<lambda>_. 0) (\<lambda>_. 0) 0 (spec_accounts (ledger_rollup (ledger_with_domain domain)))"
    by (simp add: backed_def ledger_rollup_def ledger_with_domain_def total_def)
  moreover have "ledger_domain (ledger_with_domain domain) = domain" by (simp add: ledger_with_domain_def)
  ultimately obtain st where
    "spec_txns P (ledger_domain (ledger_with_domain domain)) xs (ledger_rollup (ledger_with_domain domain)) = Inr st"
    using funded_txns [OF assms] by auto
  from get_block_Inr [OF wf_ledger_with_domain this] show ?thesis by blast
qed

end
