(* ===== verification/Wire_Sizes.thy ===== *)
theory Wire_Sizes
  imports Execution
begin

text \<open>
  How long the two wire halves of a block can be: a constant per transaction, from the ten bytes of
  a varint, the 256 siblings of a proof and the signature. So every block of a size a program could
  hold encodes within the 64-bit lengths the codec reads, and goes through the guest and the host.
\<close>

section \<open>The batch\<close>

lemma length_dictionary_put: "length (fst (dictionary_put d a)) \<le> 33"
  using length_put_varint(2) [of "the (map_of d a)"] by (auto simp: dictionary_put_def split: option.splits)

lemma length_encode_txn: "length (fst (encode_txn d t)) \<le> 87"
proof (cases t)
  case (Payment p)
  obtain s d1 where s: "dictionary_put d (header_sender (payment_header p)) = (s, d1)" by fastforce
  obtain r d2 where r: "dictionary_put d1 (payment_receiver p) = (r, d2)" by fastforce
  show ?thesis
    using length_dictionary_put [of d "header_sender (payment_header p)"]
      length_dictionary_put [of d1 "payment_receiver p"]
      length_put_varint(2) [of "header_fee (payment_header p)"] length_put_varint(2) [of "payment_amount p"]
    by (simp add: Payment s r)
next
  case (Deposit dep)
  obtain r d1 where r: "dictionary_put d (deposit_receiver dep) = (r, d1)" by fastforce
  show ?thesis
    using length_dictionary_put [of d "deposit_receiver dep"] length_put_varint(2) [of "deposit_amount dep"]
    by (simp add: Deposit r)
next
  case (Withdrawal w)
  obtain s d1 where s: "dictionary_put d (header_sender (withdrawal_header w)) = (s, d1)" by fastforce
  show ?thesis
    using length_dictionary_put [of d "header_sender (withdrawal_header w)"]
      length_put_varint(2) [of "header_fee (withdrawal_header w)"] length_put_varint(2) [of "withdrawal_amount w"]
    by (simp add: Withdrawal s)
next
  case (ForcedWithdrawal f)
  obtain s d1 where s: "dictionary_put d (header_sender (forced_header f)) = (s, d1)" by fastforce
  show ?thesis
    using length_dictionary_put [of d "header_sender (forced_header f)"]
    by (simp add: ForcedWithdrawal s)
qed

lemma length_encode_txns: "length (encode_txns d ts) \<le> 87 * length ts"
proof (induction ts arbitrary: d)
  case (Cons t ts)
  obtain bs d1 where e: "encode_txn d t = (bs, d1)" by fastforce
  with length_encode_txn [of d t] Cons.IH [of d1] show ?case by simp
qed simp

lemma length_batch_encode: "length (batch_encode b) \<le> 11 + 87 * length (txns b)"
  using length_encode_txns [of "[]" "txns b"] length_put_varint(2) [of "of_nat (length (txns b))"]
  by (simp add: batch_encode_def)

section \<open>The sidecar\<close>

lemma length_put_witness:
  "length (siblings (witness_proof w)) \<le> 256 \<Longrightarrow> length (put_witness w) \<le> 8332"
  using length_put_varint(2) [of "of_nat (length (siblings (witness_proof w)))"]
  by (simp add: put_witness_def length_concat comp_def sum_list_triv split: option.splits slot.splits)

definition signature_length :: "signature \<Rightarrow> nat" where
  "signature_length s = length (sig_pub_key s) + length (sig_bytes s)"

fun signature_within :: "nat \<Rightarrow> signed_transaction \<Rightarrow> bool" where
  "signature_within n (SignedPayment _ s) \<longleftrightarrow> signature_length s \<le> n"
| "signature_within n (SignedWithdrawal _ s) \<longleftrightarrow> signature_length s \<le> n"
| "signature_within n _ \<longleftrightarrow> True"

lemma length_put_signature: "length (put_signature s) \<le> 23 + signature_length s"
  using length_put_varint(2) [of "of_nat (length (sig_pub_key s))"] length_put_varint(2) [of "of_nat (length (sig_bytes s))"]
  by (simp add: put_signature_def put_bytes_def signature_length_def del: scheme_identifier.simps)

lemma length_encode_entry:
  assumes "signed_of y = Some x" and "signature_within n x"
    and "list_all (\<lambda>(a, x, p, v). length (siblings p) \<le> 256) (txn_events y)"
  shows "length (encode_entry (snd y)) \<le> 25019 + n"
  using assms
proof (induction y rule: signed_of.induct)
  case (1 p e)
  then show ?case
    using length_put_signature [of "payment_sig e"] length_put_witness [of "payment_sender_witness e"]
      length_put_witness [of "payment_receiver_witness e"]
    by (cases "payment_fee_sink_witness e")
       (auto simp: put_optional_witness_def debit_event_def credit_event_def fee_events_def dest!: length_put_witness)
next
  case (2 d e)
  then show ?case
    using length_put_witness [of "deposit_receiver_witness e"] by (simp add: credit_event_def)
next
  case (3 w e)
  then show ?case
    using length_put_signature [of "withdrawal_sig e"] length_put_witness [of "withdrawal_sender_witness e"]
    by (cases "withdrawal_fee_sink_witness e")
       (auto simp: put_optional_witness_def debit_event_def credit_event_def fee_events_def dest!: length_put_witness)
next
  case (4 f e)
  then show ?case
    using length_put_witness [of "forced_sender_witness e"] by (simp add: forced_event_def)
qed simp_all

section \<open>A built block\<close>

text \<open>The signed transactions a block stands for are all of them.\<close>

lemma built_block_length:
  assumes "built_block P l blk" and "batch_signed (block_batch blk) (block_sidecar blk) = xs"
  shows "length (txns (block_batch blk)) = length xs" "length (entries (block_sidecar blk)) = length xs"
proof -
  have "length (List.map_filter signed_of ys) = length ys" if "list_all (\<lambda>y. signed_of y \<noteq> None) ys" for ys
    using that by (induction ys) (auto simp: map_filter_def)
  moreover have "list_all (\<lambda>y. signed_of y \<noteq> None) (zip (txns (block_batch blk)) (entries (block_sidecar blk)))"
    and len: "length (txns (block_batch blk)) = length (entries (block_sidecar blk))"
    using assms(1) by (auto simp: built_block_def Let_def list_all_iff)
  ultimately have "length xs = length (zip (txns (block_batch blk)) (entries (block_sidecar blk)))"
    unfolding assms(2) [symmetric] batch_signed_def by simp
  with len show "length (txns (block_batch blk)) = length xs" "length (entries (block_sidecar blk)) = length xs"
    by simp_all
qed

lemma built_block_sizes:
  assumes wf: "wf_ledger P l" and built: "built_block P l blk"
    and xs: "batch_signed (block_batch blk) (block_sidecar blk) = xs" "list_all (signature_within n) xs"
  shows "length (batch_encode (block_batch blk)) \<le> 11 + 87 * length xs"
    and "length (sidecar_encode (block_sidecar blk)) \<le> 11 + (25019 + n) * length xs"
proof -
  let ?es = "entries (block_sidecar blk)" and ?ys = "zip (txns (block_batch blk)) (entries (block_sidecar blk))"
  note len = built_block_length [OF built xs(1)]
  show "length (batch_encode (block_batch blk)) \<le> 11 + 87 * length xs"
    using length_batch_encode [of "block_batch blk"] len by simp
  have depth: "list_all (\<lambda>(a, x, p, v). length (siblings p) \<le> 256) (batch_events (block_batch blk) (block_sidecar blk))"
    using honest_depth wf built by (auto simp: built_block_def wf_ledger_def Let_def)
  have each: "length (encode_entry e) \<le> 25019 + n" if e: "e \<in> set ?es" for e
  proof -
    from e len obtain t where y: "(t, e) \<in> set ?ys"
      by (metis in_set_impl_in_set_zip2)
    obtain x where x: "signed_of (t, e) = Some x"
      using built y by (auto simp: built_block_def Let_def list_all_iff)
    then have "x \<in> set xs" using y by (auto simp: batch_signed_def map_filter_def simp flip: xs(1)) force
    then have "signature_within n x" using xs(2) by (simp add: list_all_iff)
    moreover have "list_all (\<lambda>(a, x, p, v). length (siblings p) \<le> 256) (txn_events (t, e))"
      using depth y by (auto simp: batch_events_def list_all_iff)
    ultimately show ?thesis using length_encode_entry [OF x] by simp
  qed
  have "length (concat (map encode_entry es)) \<le> (25019 + n) * length es"
    if "\<And>e. e \<in> set es \<Longrightarrow> length (encode_entry e) \<le> 25019 + n" for es
    using that
  proof (induction es)
    case (Cons e es)
    have "length (concat (map encode_entry es)) \<le> (25019 + n) * length es" by (rule Cons.IH) (simp add: Cons.prems)
    moreover have "length (encode_entry e) \<le> 25019 + n" using Cons.prems by simp
    ultimately show ?case by simp
  qed simp
  from this [of ?es] each show "length (sidecar_encode (block_sidecar blk)) \<le> 11 + (25019 + n) * length xs"
    using length_put_varint(2) [of "of_nat (length ?es)"] len by (simp add: sidecar_encode_def)
qed

text \<open>So a block of any size a machine could hold settles.\<close>

lemma built_block_for_block:
  assumes wf: "wf_ledger P l" and "list_all wf_signed xs" and "get_block P xs l = Inr (blk, l')"
    and "list_all (signature_within n) xs" and "11 + (25019 + n) * length xs < 2 ^ 64"
  shows "\<exists>s. for_block P blk = Inr s"
proof (rule get_block_cases [OF assms(1,3)])
  assume b: "batch_signed (block_batch blk) (block_sidecar blk) = xs" "built_block P l blk" "verify_block P blk = Inr ()"
  note len = built_block_length [OF b(2,1)] and size = built_block_sizes [OF wf b(2,1) assms(4)]
  have "87 * length xs \<le> (25019 + n) * length xs" by (rule mult_le_mono1) simp
  with size assms(5) have small: "length (batch_encode (block_batch blk)) < 2 ^ 64"
    "length (sidecar_encode (block_sidecar blk)) < 2 ^ 64" by linarith+
  note wire = built_block_wire [OF wf assms(2,3) small]
  from for_block_of_executed [OF wire(3,1,2)]
  show ?thesis by blast
qed

end
