(* ===== verification/Scenario_Builds.thy ===== *)
theory Scenario_Builds
  imports Funding Wire_Sizes Scenarios
begin

text \<open>
  Every scenario that needs no signing library builds: its transactions are funded, whatever the
  hash makes of the addresses. The exit proofs of the forced-exit scenario verify.
\<close>

section \<open>Managed accounts authorize themselves\<close>

lemma managed_authorizes [simp]:
  "authorizes P (address_of P key) (signature_new SCHEME key []) msg"
  by (simp add: authorizes_def signature_address_def signature_new_def address_of_def SCHEME_def)

lemma deposit_funded:
  "funded P domain B K T (deposit_to P key amt # xs) \<longleftrightarrow>
     T + unat amt < 2 ^ 64 \<and> funded P domain (received B (address_of P key) amt) K (T + unat amt) xs"
  by (simp add: deposit_to_def)

lemma pay_funded:
  "funded P domain B K T (pay P key r amt # xs) \<longleftrightarrow>
     (let a = address_of P key in unat amt + 10 \<le> B a \<and> K a + 1 < 2 ^ 64 \<and>
      funded P domain (received (B(a := B a - (unat amt + 10))) r amt) (bumped K a) T xs)"
  by (simp add: pay_def spendable_def Let_def SCENARIO_FEE_def)

lemma withdraw_funded:
  "funded P domain B K T (withdraw P key r amt # xs) \<longleftrightarrow>
     (let a = address_of P key in MIN_WITHDRAWAL \<le> amt \<and> unat amt + 10 \<le> B a \<and> K a + 1 < 2 ^ 64 \<and>
      funded P domain (B(a := B a - (unat amt + 10))) (bumped K a) T xs)"
  by (simp add: withdraw_def spendable_def Let_def SCENARIO_FEE_def)

lemmas managed_funded = deposit_funded pay_funded withdraw_funded Let_def MIN_WITHDRAWAL_def

text \<open>Transactions whose block is small enough to encode, whatever the tree looks like.\<close>

definition SIGNATURE_BOUND :: nat where "SIGNATURE_BOUND = 4096"

definition modest :: "signed_transaction list \<Rightarrow> bool" where
  "modest xs \<longleftrightarrow> length xs < 2 ^ 32 \<and> list_all wf_signed xs \<and> list_all (signature_within SIGNATURE_BOUND) xs"

lemma funded_block_settles:
  assumes "starts_funded P domain xs" and "modest xs"
  shows "\<exists>blk l' st. get_block P xs (ledger_with_domain domain) = Inr (blk, l') \<and> verify_block P blk = Inr ()
    \<and> for_block P blk = Inr st"
proof -
  obtain blk l' where blk: "get_block P xs (ledger_with_domain domain) = Inr (blk, l')"
    using funded_get_block [OF assms(1)] by blast
  have "11 + (25019 + SIGNATURE_BOUND) * length xs < 2 ^ 64"
    using assms(2) by (simp add: modest_def SIGNATURE_BOUND_def)
  with assms(2) obtain st where "for_block P blk = Inr st"
    using built_block_for_block [OF wf_ledger_with_domain _ blk] by (auto simp: modest_def)
  moreover have "verify_block P blk = Inr ()" by (rule get_block_cases [OF wf_ledger_with_domain blk])
  ultimately show ?thesis using blk by blast
qed

section \<open>Each managed scenario is funded\<close>

lemma deposits_only_funded: "starts_funded P domain (deposits_only_txns P)"
  by (simp add: deposits_only_txns_def managed_funded)

text \<open>Two accounts whose addresses may even coincide.\<close>

lemma two_payers_funded:
  "starts_funded P domain
     [deposit_to P ka 1000, deposit_to P kb 500, pay P ka (address_of P kb) 100,
      pay P kb (address_of P kc) 50, pay P ka (address_of P ka) 25]"
  by (cases "address_of P ka = address_of P kb"; simp add: managed_funded)

lemma payments_funded: "starts_funded P domain (payments_txns P)"
  unfolding payments_txns_def Let_def by (rule two_payers_funded)

lemma withdrawals_funded: "starts_funded P domain (withdrawals_txns P)"
  by (simp add: withdrawals_txns_def managed_funded)

lemma duplicate_withdrawals_funded: "starts_funded P domain (duplicate_withdrawals_txns P)"
  by (simp add: duplicate_withdrawals_txns_def managed_funded)

lemma relay_funded:
  "starts_funded P domain
     [deposit_to P ka 1000000, pay P ka (address_of P kb) 400000,
      withdraw P kb r 250000, withdraw P ka q 100000]"
  by (cases "address_of P ka = address_of P kb"; simp add: managed_funded)

lemma round_trip_funded: "starts_funded P domain (round_trip_txns P)"
  unfolding round_trip_txns_def Let_def by (rule relay_funded)

lemma exit_deposits_eq:
  "exit_deposits P =
     [SignedDeposit (deposit_new (exit_address_of P (EXIT_KEYS ! 0)) 5000000),
      SignedDeposit (deposit_new (exit_address_of P (EXIT_KEYS ! 1)) 3000000)]"
proof -
  have keys: "EXIT_KEYS = [EXIT_KEYS ! 0, EXIT_KEYS ! 1]" by (simp add: EXIT_KEYS_def)
  show ?thesis unfolding exit_deposits_def by (subst keys) (simp add: EXIT_AMOUNTS_def)
qed

lemma exit_deposits_funded: "starts_funded P domain (exit_deposits P)"
  by (simp add: exit_deposits_eq)

lemma forced_inclusion_funded: "starts_funded P domain (forced_inclusion_txns P)"
  by (simp add: forced_inclusion_txns_def exit_deposits_eq MIN_WITHDRAWAL_def)

lemma inbox_ordering_funded: "starts_funded P domain (inbox_ordering_txns P)"
  by (simp add: inbox_ordering_txns_def Let_def MIN_WITHDRAWAL_def)

text \<open>One account paying over and over.\<close>

lemma funded_payments:
  assumes "\<And>msg. authorizes P a sig msg" and "0 < unat amt + unat fee"
  shows "length is * (unat amt + unat fee) \<le> B a \<Longrightarrow> K a + length is < 2 ^ 64 \<Longrightarrow>
    funded P domain B K T (map (\<lambda>i. SignedPayment (payment_new a (rcv i) amt fee) sig) is)"
proof (induction "is" arbitrary: B K)
  case (Cons i "is")
  let ?B = "received (spent B a amt fee) (rcv i) amt"
  have "length is * (unat amt + unat fee) \<le> B a - (unat amt + unat fee)"
    using Cons.prems(1) by simp
  also have "\<dots> \<le> ?B a" by simp
  finally have "funded P domain ?B (bumped K a) T (map (\<lambda>i. SignedPayment (payment_new a (rcv i) amt fee) sig) is)"
    using Cons.prems(2) by (intro Cons.IH) simp_all
  then show ?case using Cons.prems assms by (simp add: spendable_def)
qed simp

lemma multi_chunk_funded: "starts_funded P domain (multi_chunk_txns P)"
  using funded_payments [of P "address_of P (ascii ''spender'')" "signature_new SCHEME (ascii ''spender'') []"
      1000000 SCENARIO_FEE "[0..<300]" "received (\<lambda>_. 0) (address_of P (ascii ''spender'')) 300003000"
      "\<lambda>_. 0" domain 300003000 "\<lambda>i. address_of P (to_be_bytes (of_nat i :: u32))"]
  by (simp add: multi_chunk_txns_def deposit_to_def pay_def SCENARIO_FEE_def)

section \<open>Forced exits\<close>

text \<open>What the exit scenario's two accounts hold; should the two keys share an address, both deposits.\<close>

definition exit_address_at :: "primitives \<Rightarrow> nat \<Rightarrow> address" where
  "exit_address_at P i = exit_address_of P (EXIT_KEYS ! i)"

definition exit_amounts :: "primitives \<Rightarrow> u64 list" where
  "exit_amounts P = (if exit_address_at P 0 = exit_address_at P 1 then [8000000, 8000000] else EXIT_AMOUNTS)"

lemma exit_run:
  "\<exists>st. spec_txns P domain (exit_deposits P) \<lparr>spec_accounts = Map.empty, spec_items = [], spec_payouts = []\<rparr> = Inr st
     \<and> spec_accounts st (exit_address_at P 0) = Some (account_new 0 (exit_amounts P ! 0) (exit_address_at P 0))
     \<and> spec_accounts st (exit_address_at P 1) = Some (account_new 0 (exit_amounts P ! 1) (exit_address_at P 1))"
  by (cases "exit_address_at P 0 = exit_address_at P 1")
     (simp_all add: exit_deposits_eq spec_credit_def receive_def checked_add_unat account_empty_def account_new_def
       exit_amounts_def EXIT_AMOUNTS_def exit_address_at_def Let_def)

text \<open>What the contract's \<open>forceExit\<close> reads out of a proof: the leaf and its Merkle proof.\<close>

definition exit_account :: "exit_proof \<Rightarrow> account" where
  "exit_account e = account_new (exit_nonce e) (exit_amount e) (exit_auth_address e)"

definition exit_merkle_proof :: "exit_proof \<Rightarrow> merkle_proof" where
  "exit_merkle_proof e = from_parts (exit_siblings e) Own"

text \<open>An account the ledger holds gets a proof, and it verifies against the state root.\<close>

lemma exit_proof_of_held:
  assumes "wf_ledger P l" and "ledger_accounts l (exit_address_of P key) = Some acc"
  shows "\<exists>e. exit_proof_of P l key = Inr e \<and> exit_pub_key e = key \<and> exit_address e = exit_address_of P key
    \<and> exit_account e = acc \<and> verify_proof (sha256 P) (state_root P l) (exit_address e) (Some (exit_account e)) (exit_merkle_proof e)"
proof -
  let ?a = "exit_address_of P key" and ?t = "ledger_tree l"
  have wf: "wf_tree (sha256 P) ?t" and held: "tree_accounts ?t ?a = Some acc"
    using assms by (simp_all add: wf_ledger_def)
  show ?thesis
    using tree_proof_own [OF wf held] assms(2) root_from_tree_proof [OF wf, of ?a] held
    by (cases acc) (simp add: exit_proof_of_def ledger_account_def ledger_proof_def Let_def exit_account_def
        account_new_def exit_merkle_proof_def verify_proof_def state_root_def del: tree_proof_parts)
qed

end
