(* ===== verification/Scenario_Signed.thy ===== *)
theory Scenario_Signed
  imports Scenario_Builds
begin

text \<open>
  The scenarios that sign build too, with signing libraries that keep their promise: a signature
  made with a key verifies under that key. What can stop them is two keys at one address.
\<close>

section \<open>Libraries that keep their promise\<close>

definition sound_ed25519 :: "primitives \<Rightarrow> signers \<Rightarrow> bool" where
  "sound_ed25519 P S \<longleftrightarrow> (\<forall>seed msg. length seed = SEED_SIZE \<longrightarrow>
     length (ed25519_verifying_key S seed) = ED25519_PUBLIC_KEY_SIZE \<and>
     length (ed25519_sign S seed msg) = ED25519_SIGNATURE_SIZE \<and>
     ed25519_key_ok P (ed25519_verifying_key S seed) \<and>
     ed25519_verify_strict P (ed25519_verifying_key S seed) msg (ed25519_sign S seed msg))"

definition sound_falcon_key :: "primitives \<Rightarrow> signers \<Rightarrow> falcon_signing_key \<Rightarrow> bool" where
  "sound_falcon_key P S k \<longleftrightarrow> length (falcon_public k) = FALCON_PUBLIC_KEY_SIZE \<and>
     (\<forall>msg. \<exists>sig. sign_compressed S k msg = Inr sig \<and> 2 \<le> length sig \<and>
        falcon_det1024_verify_compressed P sig (falcon_public k) msg = 0)"

definition sound_falcon :: "primitives \<Rightarrow> signers \<Rightarrow> bool" where
  "sound_falcon P S \<longleftrightarrow> (\<forall>seed. length seed = SEED_SIZE \<longrightarrow>
     (\<exists>k. falcon_from_seed S seed = Inr k \<and> sound_falcon_key P S k))"

text \<open>A key whose every signature verifies, and is no longer than the largest scheme's.\<close>

definition sound_key :: "primitives \<Rightarrow> signers \<Rightarrow> key \<Rightarrow> bool" where
  "sound_key P S k \<longleftrightarrow> (\<forall>msg. \<exists>bytes. key_sig_bytes S k msg = Inr bytes \<and>
     crypto_verify P (key_scheme k) (key_pub_key S k) bytes msg = Inr () \<and>
     length (key_pub_key S k) + length bytes \<le> SIGNATURE_BOUND)"

lemma sound_key_managed: "length seed = SEED_SIZE \<Longrightarrow> sound_key P S (KeyManaged seed)"
  by (simp add: sound_key_def SEED_SIZE_def SIGNATURE_BOUND_def)

lemma sound_key_ed25519: "sound_ed25519 P S \<Longrightarrow> length seed = SEED_SIZE \<Longrightarrow> sound_key P S (KeyEd25519 seed)"
  by (simp add: sound_key_def sound_ed25519_def SIGNATURE_BOUND_def crypto_verify_ed25519_iff crypto_sizes
      del: crypto_verify.simps)

lemma sound_key_hybrid:
  assumes "sound_ed25519 P S" and "length seed = SEED_SIZE" and "sound_falcon_key P S k"
  shows "sound_key P S (KeyHybrid seed k)"
  unfolding sound_key_def
proof
  fix msg
  obtain sig where sig: "sign_compressed S k msg = Inr sig" "2 \<le> length sig"
    "falcon_det1024_verify_compressed P sig (falcon_public k) msg = 0"
    using assms(3) by (auto simp: sound_falcon_key_def)
  with sign_compressed_bound [OF sig(1)] assms show "\<exists>bytes. key_sig_bytes S (KeyHybrid seed k) msg = Inr bytes \<and>
      crypto_verify P (key_scheme (KeyHybrid seed k)) (key_pub_key S (KeyHybrid seed k)) bytes msg = Inr () \<and>
      length (key_pub_key S (KeyHybrid seed k)) + length bytes \<le> SIGNATURE_BOUND"
    by (simp add: sound_ed25519_def SIGNATURE_BOUND_def sound_falcon_key_def crypto_verify_hybrid_iff crypto_sizes
        del: crypto_verify.simps)
qed

lemma sound_key_sign:
  assumes "sound_key P S k"
  obtains sig where "key_sign S k msg = Inr sig" and "authorizes P (key_address P S k) sig msg"
    and "signature_length sig \<le> SIGNATURE_BOUND"
proof -
  from assms obtain bytes where "key_sig_bytes S k msg = Inr bytes"
    "crypto_verify P (key_scheme k) (key_pub_key S k) bytes msg = Inr ()"
    "length (key_pub_key S k) + length bytes \<le> SIGNATURE_BOUND"
    unfolding sound_key_def by blast
  then have "key_sign S k msg = Inr (signature_new (key_scheme k) (key_pub_key S k) bytes)"
    and "authorizes P (key_address P S k) (signature_new (key_scheme k) (key_pub_key S k) bytes) msg"
    and "signature_length (signature_new (key_scheme k) (key_pub_key S k) bytes) \<le> SIGNATURE_BOUND"
    by (simp_all add: signature_length_def key_sign_def authorizes_def signature_address_def signature_new_def key_address_def)
  with that show ?thesis by blast
qed

section \<open>Every scheme\<close>

lemma every_scheme_keys_sound:
  assumes "sound_ed25519 P S" and "sound_falcon P S"
  shows "\<exists>k0 k1 k2. every_scheme_keys S = Inr [k0, k1, k2] \<and> list_all (sound_key P S) [k0, k1, k2]"
proof -
  obtain f where f: "falcon_from_seed S (ascii ''payment-rollup hybrid key!!!!!!!'') = Inr f" "sound_falcon_key P S f"
    using assms(2) by (force simp: sound_falcon_def SEED_SIZE_def)
  then have "sound_key P S (KeyHybrid (ascii ''payment-rollup hybrid key!!!!!!!'') f)"
    "sound_key P S (KeyEd25519 (ascii ''payment-rollup ed25519 key!!!!!!''))"
    using assms(1) by (auto intro!: sound_key_hybrid sound_key_ed25519 simp: SEED_SIZE_def)
  with f(1) show ?thesis
    by (auto simp: every_scheme_keys_def key_managed_def key_ed25519_def key_hybrid_def SEED_SIZE_def intro!: sound_key_managed)
qed

text \<open>Three funded accounts, each signing a payment to the next and a withdrawal.\<close>

lemma three_spenders_funded:
  assumes "a \<noteq> b" "b \<noteq> a" "b \<noteq> c" "c \<noteq> b" "a \<noteq> c" "c \<noteq> a"
    and "authorizes P a s1 (payment_bytes_to_sign (payment_new a b 250000 10) domain 1)"
    and "authorizes P b s2 (payment_bytes_to_sign (payment_new b c 250000 10) domain 1)"
    and "authorizes P c s3 (payment_bytes_to_sign (payment_new c a 250000 10) domain 1)"
    and "authorizes P a t1 (withdrawal_bytes_to_sign (withdrawal_new a r1 300000 10) domain 2)"
    and "authorizes P b t2 (withdrawal_bytes_to_sign (withdrawal_new b r2 400000 10) domain 2)"
    and "authorizes P c t3 (withdrawal_bytes_to_sign (withdrawal_new c r3 500000 10) domain 2)"
  shows "starts_funded P domain
    [SignedDeposit (deposit_new a 2000000), SignedDeposit (deposit_new b 2000000), SignedDeposit (deposit_new c 2000000),
     SignedPayment (payment_new a b 250000 10) s1, SignedPayment (payment_new b c 250000 10) s2,
     SignedPayment (payment_new c a 250000 10) s3, SignedWithdrawal (withdrawal_new a r1 300000 10) t1,
     SignedWithdrawal (withdrawal_new b r2 400000 10) t2, SignedWithdrawal (withdrawal_new c r3 500000 10) t3]"
  using assms
  apply (simp only: funded.simps payment_new_def withdrawal_new_def deposit_new_def Let_def
      payment.simps withdrawal.simps deposit.simps transaction_header.simps)
  apply (simp only: spendable_def fun_upd_apply if_True if_False refl simp_thms)
  apply (simp add: MIN_WITHDRAWAL_def)
  done

lemma every_scheme_funded:
  assumes keys: "every_scheme_keys S = Inr [k0, k1, k2]" and sound: "list_all (sound_key P S) [k0, k1, k2]"
    and "distinct (map (key_address P S) [k0, k1, k2])"
  shows "\<exists>xs. every_scheme_txns P S domain = Inr xs \<and> starts_funded P domain xs \<and> modest xs"
proof -
  let ?a = "key_address P S k0" and ?b = "key_address P S k1" and ?c = "key_address P S k2"
  have "sound_key P S k0" "sound_key P S k1" "sound_key P S k2" using sound by simp_all
  note sign = sound_key_sign [OF this(1)] sound_key_sign [OF this(2)] sound_key_sign [OF this(3)]
  obtain s1 where s1: "key_sign S k0 (payment_bytes_to_sign (payment_new ?a ?b 250000 10) domain 1) = Inr s1"
    "authorizes P ?a s1 (payment_bytes_to_sign (payment_new ?a ?b 250000 10) domain 1)" "signature_length s1 \<le> SIGNATURE_BOUND" by (rule sign(1))
  obtain s2 where s2: "key_sign S k1 (payment_bytes_to_sign (payment_new ?b ?c 250000 10) domain 1) = Inr s2"
    "authorizes P ?b s2 (payment_bytes_to_sign (payment_new ?b ?c 250000 10) domain 1)" "signature_length s2 \<le> SIGNATURE_BOUND" by (rule sign(2))
  obtain s3 where s3: "key_sign S k2 (payment_bytes_to_sign (payment_new ?c ?a 250000 10) domain 1) = Inr s3"
    "authorizes P ?c s3 (payment_bytes_to_sign (payment_new ?c ?a 250000 10) domain 1)" "signature_length s3 \<le> SIGNATURE_BOUND" by (rule sign(3))
  obtain t1 where t1: "key_sign S k0 (withdrawal_bytes_to_sign (withdrawal_new ?a (l1_account 11) 300000 10) domain 2) = Inr t1"
    "authorizes P ?a t1 (withdrawal_bytes_to_sign (withdrawal_new ?a (l1_account 11) 300000 10) domain 2)" "signature_length t1 \<le> SIGNATURE_BOUND" by (rule sign(1))
  obtain t2 where t2: "key_sign S k1 (withdrawal_bytes_to_sign (withdrawal_new ?b (l1_account 12) 400000 10) domain 2) = Inr t2"
    "authorizes P ?b t2 (withdrawal_bytes_to_sign (withdrawal_new ?b (l1_account 12) 400000 10) domain 2)" "signature_length t2 \<le> SIGNATURE_BOUND" by (rule sign(2))
  obtain t3 where t3: "key_sign S k2 (withdrawal_bytes_to_sign (withdrawal_new ?c (l1_account 13) 500000 10) domain 2) = Inr t3"
    "authorizes P ?c t3 (withdrawal_bytes_to_sign (withdrawal_new ?c (l1_account 13) 500000 10) domain 2)" "signature_length t3 \<le> SIGNATURE_BOUND" by (rule sign(3))
  have three: "[0..<3] = [0, 1, 2 :: nat]" by (simp add: upt_rec)
  have "every_scheme_txns P S domain = Inr
    [SignedDeposit (deposit_new ?a 2000000), SignedDeposit (deposit_new ?b 2000000), SignedDeposit (deposit_new ?c 2000000),
     SignedPayment (payment_new ?a ?b 250000 10) s1, SignedPayment (payment_new ?b ?c 250000 10) s2,
     SignedPayment (payment_new ?c ?a 250000 10) s3, SignedWithdrawal (withdrawal_new ?a (l1_account 11) 300000 10) t1,
     SignedWithdrawal (withdrawal_new ?b (l1_account 12) 400000 10) t2,
     SignedWithdrawal (withdrawal_new ?c (l1_account 13) 500000 10) t3]"
    using s1(1) s2(1) s3(1) t1(1) t2(1) t3(1)
    by (simp add: every_scheme_txns_def keys three every_scheme_payment_def every_scheme_withdrawal_def Let_def
        EVERY_SCHEME_DEPOSIT_def EVERY_SCHEME_PAYMENT_def EVERY_SCHEME_WITHDRAWALS_def SCENARIO_FEE_def)
  moreover have "?a \<noteq> ?b" "?b \<noteq> ?a" "?b \<noteq> ?c" "?c \<noteq> ?b" "?a \<noteq> ?c" "?c \<noteq> ?a" using assms(3) by auto
  note three_spenders_funded [OF this s1(2) s2(2) s3(2) t1(2) t2(2) t3(2)]
  moreover have "modest
    [SignedDeposit (deposit_new ?a 2000000), SignedDeposit (deposit_new ?b 2000000), SignedDeposit (deposit_new ?c 2000000),
     SignedPayment (payment_new ?a ?b 250000 10) s1, SignedPayment (payment_new ?b ?c 250000 10) s2,
     SignedPayment (payment_new ?c ?a 250000 10) s3, SignedWithdrawal (withdrawal_new ?a (l1_account 11) 300000 10) t1,
     SignedWithdrawal (withdrawal_new ?b (l1_account 12) 400000 10) t2,
     SignedWithdrawal (withdrawal_new ?c (l1_account 13) 500000 10) t3]"
    using s1(3) s2(3) s3(3) t1(3) t2(3) t3(3) by (simp add: modest_def)
  ultimately show ?thesis by blast
qed

section \<open>Signed load\<close>

text \<open>How many of the payments left an account of the pool still has to make.\<close>

definition turns :: "nat \<Rightarrow> nat list \<Rightarrow> nat \<Rightarrow> nat" where
  "turns n is j = length (filter (\<lambda>i. i mod n = j) is)"

lemma turns_simps [simp]:
  "turns n [] j = 0"
  "turns n (i # is) j = (if i mod n = j then Suc (turns n is j) else turns n is j)"
  by (simp_all add: turns_def)

lemma turns_bound:
  assumes "0 < n"
  shows "turns n [0..<count] j \<le> (count + n - 1) div n"
proof -
  let ?A = "{i. i < count \<and> i mod n = j}"
  have "turns n [0..<count] j = card ?A"
    by (simp add: turns_def flip: distinct_card)
  also have "\<dots> \<le> card {..<(count + n - 1) div n}"
  proof (rule card_inj_on_le [of "\<lambda>i. i div n"])
    show "inj_on (\<lambda>i. i div n) ?A"
      by (rule inj_onI) (metis (mono_tags, lifting) div_mod_decomp mem_Collect_eq)
    show "(\<lambda>i. i div n) ` ?A \<subseteq> {..<(count + n - 1) div n}"
    proof clarsimp
      fix i assume "i < count"
      then have "i + n \<le> count + n - 1" using assms by simp
      then have "(i + n) div n \<le> (count + n - 1) div n" by (rule div_le_mono)
      moreover have "(i + n) div n = Suc (i div n)" using div_add_self2 [of n i] assms by linarith
      ultimately show "i div n < (count + n - Suc 0) div n" by (simp del: div_add_self2)
    qed
  qed simp
  finally show ?thesis by simp
qed

lemma le_received: "B x \<le> received B r amt x"
  by simp

text \<open>The loop: every payment is signed at its sender's next nonce and covered by what is left.\<close>

lemma signed_load_payments_funded:
  assumes sound: "list_all (sound_key P S) keys" and addrs: "distinct (map (key_address P S) keys)"
    and ne: "keys \<noteq> []"
  shows "length nonces = length keys \<Longrightarrow>
    (\<And>j. j < length keys \<Longrightarrow> K (key_address P S (keys ! j)) = unat (nonces ! j)) \<Longrightarrow>
    (\<And>j. j < length keys \<Longrightarrow> unat (nonces ! j) + length is < 2 ^ 64) \<Longrightarrow>
    (\<And>j. j < length keys \<Longrightarrow> 1010 * turns (length keys) is j \<le> B (key_address P S (keys ! j))) \<Longrightarrow>
    \<exists>xs. signed_load_payments P S domain keys nonces is = Inr xs \<and> funded P domain B K T xs
      \<and> length xs = length is \<and> list_all wf_signed xs \<and> list_all (signature_within SIGNATURE_BOUND) xs"
proof (induction "is" arbitrary: nonces B K)
  case (Cons i "is")
  let ?n = "length keys" and ?j = "i mod length keys"
  let ?k = "keys ! ?j" and ?a = "key_address P S (keys ! (i mod length keys))"
  let ?r = "if (i + 1) mod LOAD_NEW_ACCOUNT_STRIDE = 0 then address_of P (to_be_bytes (of_nat i :: u32))
            else key_address P S (keys ! ((?j + 1) mod length keys))"
  let ?p = "payment_new ?a ?r LOAD_AMOUNT SCENARIO_FEE"
  let ?nonces = "nonces[?j := nonces ! ?j + 1]"
  let ?B = "received (spent B ?a LOAD_AMOUNT SCENARIO_FEE) ?r LOAD_AMOUNT" and ?K = "bumped K ?a"
  have j: "?j < ?n" using ne by simp
  have cost: "unat LOAD_AMOUNT + unat SCENARIO_FEE = 1010" by (simp add: LOAD_AMOUNT_def SCENARIO_FEE_def)
  have same: "key_address P S (keys ! l) = ?a \<longleftrightarrow> l = ?j" if "l < ?n" for l
    using addrs that j by (simp add: distinct_conv_nth) (metis length_map nth_map)
  have bump: "unat (nonces ! ?j + 1) = unat (nonces ! ?j) + 1"
    using Cons.prems(3) [OF j] by (simp add: unat_succ_u64)
  obtain sig where sig: "key_sign S ?k (payment_bytes_to_sign ?p domain (?nonces ! ?j)) = Inr sig"
    and auth: "authorizes P ?a sig (payment_bytes_to_sign ?p domain (?nonces ! ?j))"
    and small: "signature_length sig \<le> SIGNATURE_BOUND"
    using sound_key_sign [of P S ?k] sound j by (metis list_all_length)
  have "?nonces ! ?j = of_nat (K ?a + 1)"
    using Cons.prems(1) Cons.prems(2) [OF j] j by (simp flip: bump)
  moreover have "1010 \<le> B ?a" using Cons.prems(4) [OF j] by simp
  ultimately have sp: "spendable P B K ?a sig LOAD_AMOUNT SCENARIO_FEE (payment_bytes_to_sign ?p domain)"
    using auth cost Cons.prems(2,3) [OF j] by (simp add: spendable_def)
  have "\<exists>xs. signed_load_payments P S domain keys ?nonces is = Inr xs \<and> funded P domain ?B ?K T xs
      \<and> length xs = length is \<and> list_all wf_signed xs \<and> list_all (signature_within SIGNATURE_BOUND) xs"
  proof (rule Cons.IH)
    show "length ?nonces = ?n" using Cons.prems(1) by simp
  next
    fix l assume l: "l < ?n"
    show "?K (key_address P S (keys ! l)) = unat (?nonces ! l)"
      using Cons.prems(1) Cons.prems(2) [OF l] Cons.prems(2) [OF j] same [OF l] bump l by (cases "l = ?j") simp_all
    show "unat (?nonces ! l) + length is < 2 ^ 64"
      using Cons.prems(1) Cons.prems(3) [OF l] bump l by (cases "l = ?j") simp_all
    have "1010 * turns ?n is l \<le> spent B ?a LOAD_AMOUNT SCENARIO_FEE (key_address P S (keys ! l))"
      using Cons.prems(4) [OF l] same [OF l] cost by (cases "l = ?j") simp_all
    then show "1010 * turns ?n is l \<le> ?B (key_address P S (keys ! l))" by (rule le_trans [OF _ le_received])
  qed
  with sig sp small show ?case by (auto simp: Let_def)
qed simp

lemma deposits_funded:
  assumes "T + length keys * unat amt < 2 ^ 64"
    and "\<And>B'. (\<And>x. B x \<le> B' x) \<Longrightarrow> (\<And>k. k \<in> set keys \<Longrightarrow> B (adr k) + unat amt \<le> B' (adr k)) \<Longrightarrow>
      funded P domain B' K (T + length keys * unat amt) xs"
  shows "funded P domain B K T (map (\<lambda>k. SignedDeposit (deposit_new (adr k) amt)) keys @ xs)"
  using assms
proof (induction keys arbitrary: B T)
  case (Cons k keys)
  let ?B = "received B (adr k) amt"
  have "funded P domain ?B K (T + unat amt) (map (\<lambda>k. SignedDeposit (deposit_new (adr k) amt)) keys @ xs)"
  proof (rule Cons.IH)
    show "T + unat amt + length keys * unat amt < 2 ^ 64" using Cons.prems(1) by simp
  next
    fix B' assume up: "\<And>x. ?B x \<le> B' x" and got: "\<And>l. l \<in> set keys \<Longrightarrow> ?B (adr l) + unat amt \<le> B' (adr l)"
    have "B x \<le> B' x" for x using up [of x] le_received [of B x "adr k" amt] by linarith
    moreover have "B (adr l) + unat amt \<le> B' (adr l)" if "l \<in> set (k # keys)" for l
      using that up [of "adr k"] got [of l] le_received [of B "adr l" "adr k" amt] by auto
    ultimately have "funded P domain B' K (T + length (k # keys) * unat amt) xs" by (rule Cons.prems(2))
    then show "funded P domain B' K (T + unat amt + length keys * unat amt) xs" by (simp add: add.assoc)
  qed
  then show ?case using Cons.prems(1) by simp
qed simp

lemma unat_u64_div_ceil:
  assumes "0 < n" and "count + n < 2 ^ 64"
  shows "unat (u64_div_ceil (of_nat count) (of_nat n)) = (count + n - 1) div n"
proof -
  have c: "unat (of_nat count :: u64) = count" and n: "unat (of_nat n :: u64) = n"
    using assms by (simp_all add: unsigned_of_nat take_bit_nat_eq_self)
  have eq: "(count + n - 1) div n = count div n + (if 0 < count mod n then 1 else 0)"
  proof -
    have "count + n - 1 = n * (count div n) + (count mod n + n - 1)"
      using assms(1) mult_div_mod_eq [of n count] by linarith
    then have "(count + n - 1) div n = count div n + (count mod n + n - 1) div n"
      using assms(1) by (metis div_mult_self4 add.commute less_numeral_extra(3))
    moreover have "(count mod n + n - 1) div n = (if 0 < count mod n then 1 else 0)"
      using assms(1) mod_less_divisor [OF assms(1), of count]
      by (auto simp: div_nat_eqI)
    ultimately show ?thesis by simp
  qed
  have "unat (of_nat count div of_nat n + 1 :: u64) = count div n + 1"
  proof -
    have "count div n + 1 < 2 ^ 64" using assms div_le_dividend [of count n] by linarith
    then show ?thesis by (simp add: unat_word_ariths unat_div c n)
  qed
  then show ?thesis
    unfolding eq by (simp add: u64_div_ceil_def word_less_nat_alt unat_mod unat_div c n)
qed

lemma signed_load_funded:
  assumes sound: "list_all (sound_key P S) keys" and addrs: "distinct (map (key_address P S) keys)"
    and "keys \<noteq> []" and "length keys < 2 ^ 31" and "count < 2 ^ 31"
    and afford: "1010 * ((count + length keys - 1) div length keys) \<le> 1000000"
  shows "\<exists>xs. signed_load_txns P S domain keys count = Inr xs \<and> starts_funded P domain xs \<and> modest xs"
proof -
  let ?n = "length keys" and ?a = "key_address P S"
  have n: "0 < ?n" using assms(3) by simp
  let ?c = "u64_div_ceil (of_nat count) (of_nat ?n)"
  have c: "unat ?c = (count + ?n - 1) div ?n"
    using assms(4,5) n by (intro unat_u64_div_ceil) simp_all
  have "unat (?c * (LOAD_AMOUNT + SCENARIO_FEE)) = unat ?c * 1010"
    using afford by (simp add: unat_word_ariths LOAD_AMOUNT_def SCENARIO_FEE_def c mult.commute)
  then have ok: "?c * (LOAD_AMOUNT + SCENARIO_FEE) \<le> LOAD_DEPOSIT"
    using afford by (simp add: word_le_nat_alt LOAD_DEPOSIT_def c mult.commute)
  have run: "\<exists>xs. signed_load_payments P S domain keys (replicate ?n 0) [0..<count] = Inr xs
      \<and> funded P domain B (\<lambda>_. 0) T xs \<and> length xs = length [0..<count] \<and> list_all wf_signed xs
      \<and> list_all (signature_within SIGNATURE_BOUND) xs"
    if "\<And>k. k \<in> set keys \<Longrightarrow> 1000000 \<le> B (?a k)" for B T
  proof (rule signed_load_payments_funded [OF sound addrs assms(3)])
    fix j assume j: "j < ?n"
    have "1010 * turns ?n [0..<count] j \<le> 1010 * ((count + ?n - 1) div ?n)"
      using turns_bound [OF n, of count j] by simp
    also have "\<dots> \<le> B (?a (keys ! j))" using afford that [of "keys ! j"] j by (simp add: le_trans)
    finally show "1010 * turns ?n [0..<count] j \<le> B (?a (keys ! j))" .
  qed (use assms(5) in simp_all)
  obtain ps where ps: "signed_load_payments P S domain keys (replicate ?n 0) [0..<count] = Inr ps"
    and small: "length ps = count" "list_all wf_signed ps" "list_all (signature_within SIGNATURE_BOUND) ps"
    using run [of "\<lambda>_. 1000000"] by auto
  have "starts_funded P domain (map (\<lambda>k. SignedDeposit (deposit_new (?a k) LOAD_DEPOSIT)) keys @ ps)"
  proof (rule deposits_funded)
    show "0 + ?n * unat LOAD_DEPOSIT < 2 ^ 64" using assms(4) by (simp add: LOAD_DEPOSIT_def)
  next
    fix B' assume "\<And>k. k \<in> set keys \<Longrightarrow> 0 + unat LOAD_DEPOSIT \<le> B' (?a k)"
    then show "funded P domain B' (\<lambda>_. 0) (0 + ?n * unat LOAD_DEPOSIT) ps"
      using run [of B' "0 + ?n * unat LOAD_DEPOSIT"] ps by (simp add: LOAD_DEPOSIT_def)
  qed
  moreover have "signed_load_txns P S domain keys count
      = Inr (map (\<lambda>k. SignedDeposit (deposit_new (?a k) LOAD_DEPOSIT)) keys @ ps)"
    using assms(3) ok ps by (simp add: signed_load_txns_def)
  moreover have "modest (map (\<lambda>k. SignedDeposit (deposit_new (?a k) LOAD_DEPOSIT)) keys @ ps)"
    using small assms(4,5) by (auto simp: modest_def list_all_iff)
  ultimately show ?thesis by blast
qed

text \<open>The pools.\<close>

lemma load_keys_sound:
  assumes "length base = SEED_SIZE"
    and make: "\<And>seed. length seed = SEED_SIZE \<Longrightarrow> \<exists>k. make_key seed = Inr k \<and> sound_key P S k"
  shows "\<exists>keys. load_keys base make_key = Inr keys \<and> list_all (sound_key P S) keys \<and> length keys = 25"
proof -
  have "\<exists>keys. map_results (\<lambda>index. and_then (load_seed base index) make_key) is = Inr keys
      \<and> list_all (sound_key P S) keys \<and> length keys = length is" if "list_all (\<lambda>i. i < 256) is" for "is"
    using that
  proof (induction "is")
    case (Cons i "is")
    then obtain keys where "map_results (\<lambda>index. and_then (load_seed base index) make_key) is = Inr keys"
      "list_all (sound_key P S) keys" "length keys = length is" by auto
    moreover obtain k where "make_key (base[SEED_SIZE - 1 := of_nat i]) = Inr k" "sound_key P S k"
      using make [of "base[SEED_SIZE - 1 := of_nat i]"] assms(1) by auto
    ultimately show ?case using Cons.prems by (simp add: load_seed_def)
  qed simp
  from this [of "[0..<LOAD_ACCOUNTS]"] show ?thesis
    by (simp add: load_keys_def LOAD_ACCOUNTS_def list_all_iff)
qed

lemma falcon_load_keys_sound:
  assumes "sound_ed25519 P S" and "sound_falcon P S"
  shows "\<exists>keys. falcon_load_keys S = Inr keys \<and> list_all (sound_key P S) keys \<and> length keys = 25"
  unfolding falcon_load_keys_def
proof (rule load_keys_sound)
  fix seed :: "byte list" assume seed: "length seed = SEED_SIZE"
  then obtain f where "falcon_from_seed S seed = Inr f" "sound_falcon_key P S f"
    using assms(2) unfolding sound_falcon_def by blast
  with assms(1) seed show "\<exists>k. key_hybrid S seed = Inr k \<and> sound_key P S k"
    by (simp add: key_hybrid_def sound_key_hybrid)
qed (simp add: FALCON_LOAD_SEED_def SEED_SIZE_def)

lemma ed25519_load_keys_sound:
  assumes "sound_ed25519 P S"
  shows "\<exists>keys. ed25519_load_keys = Inr keys \<and> list_all (sound_key P S) keys \<and> length keys = 25"
  unfolding ed25519_load_keys_def
  by (rule load_keys_sound) (simp_all add: ED25519_LOAD_SEED_def SEED_SIZE_def key_ed25519_def sound_key_ed25519 [OF assms])
end
