(* ===== verification/Scenario_Properties.thy ===== *)
theory Scenario_Properties
  imports Toy Host_Properties Scenario_Signed
begin

text \<open>
  What the scenarios promise whoever settles them: each builds, replays and settles, and the
  forced-exit scenario's proofs are ones the settlement contract can check.
\<close>

section \<open>Every scenario settles\<close>

lemma settle_scenario_of_block:
  assumes "s \<in> set (all_scenarios @ heavy)" and "scenario_build s P S domain = Inr blk"
    and "for_block P blk = Inr st"
  shows "\<exists>st. settle_scenario P S domain s = Inr (s, st)"
  using settle_scenario_outcome [OF assms(1), of P S domain] assms(2,3)
  by (auto simp: settle_scenario_def split: if_splits)

lemma settle_built:
  assumes "s \<in> set (all_scenarios @ heavy)" and "scenario_build s P S domain = built P domain xs"
    and "starts_funded P domain xs" and "modest xs"
  shows "\<exists>st. settle_scenario P S domain s = Inr (s, st)"
  using funded_block_settles [OF assms(3,4)] settle_scenario_of_block [OF assms(1)] assms(2)
  by (auto simp: built_def built_with_ledger_def)

lemma modest_small: "length xs < 1000 \<Longrightarrow> list_all (\<lambda>x. wf_signed x \<and> signature_within SIGNATURE_BOUND x) xs \<Longrightarrow> modest xs"
  by (simp add: modest_def list_all_iff)

lemma modest_steps [simp]:
  "wf_signed (deposit_to P key amt)" "signature_within n (deposit_to P key amt)"
  "wf_signed (pay P key r amt)" "wf_signed (withdraw P key a amt)"
  "signature_within n (pay P key r amt) \<longleftrightarrow> length key \<le> n" "signature_within n (withdraw P key a amt) \<longleftrightarrow> length key \<le> n"
  by (simp_all add: deposit_to_def pay_def withdraw_def signature_length_def signature_new_def)

definition unsigned :: "scenario list" where
  "unsigned = [scenario_genesis_empty_batch, scenario_deposits_only, scenario_payments, scenario_multi_chunk,
     scenario_withdrawals, scenario_duplicate_withdrawals, scenario_forced_exit, scenario_forced_inclusion,
     scenario_inbox_ordering, scenario_round_trip]"

lemma all_scenarios_unsigned: "all_scenarios = unsigned @ [scenario_every_scheme]"
  by (simp add: all_scenarios_def unsigned_def)

lemma unsigned_modest:
  "modest []" "modest (deposits_only_txns P)" "modest (payments_txns P)" "modest (withdrawals_txns P)"
  "modest (duplicate_withdrawals_txns P)" "modest (round_trip_txns P)" "modest (multi_chunk_txns P)"
  "modest (exit_deposits P)" "modest (forced_inclusion_txns P)" "modest (inbox_ordering_txns P)"
  by (rule modest_small; simp add: deposits_only_txns_def payments_txns_def withdrawals_txns_def
      duplicate_withdrawals_txns_def round_trip_txns_def multi_chunk_txns_def exit_deposits_eq
      forced_inclusion_txns_def inbox_ordering_txns_def Let_def SIGNATURE_BOUND_def list_all_iff)+

lemma forced_exit_built: "forced_exit P S domain = built P domain (exit_deposits P)"
  by (simp add: forced_exit_def forced_exit_ledger_def built_def)

lemma unsigned_built:
  assumes "s \<in> set unsigned"
  shows "\<exists>xs. scenario_build s P S domain = built P domain xs \<and> starts_funded P domain xs \<and> modest xs"
proof -
  have "starts_funded P domain []" by simp
  note facts = unsigned_modest this deposits_only_funded payments_funded withdrawals_funded
    duplicate_withdrawals_funded round_trip_funded multi_chunk_funded exit_deposits_funded
    forced_inclusion_funded inbox_ordering_funded
  from assms show ?thesis
    unfolding unsigned_def list.set
    by (elim insertE emptyE; simp only: scenario_builds forced_exit_built genesis_empty_batch_def
        deposits_only_def payments_def multi_chunk_def withdrawals_def duplicate_withdrawals_def
        forced_inclusion_def inbox_ordering_def round_trip_def; blast intro: facts)
qed

lemma unsigned_settle:
  assumes "s \<in> set unsigned"
  shows "\<exists>st. settle_scenario P S domain s = Inr (s, st)"
  using unsigned_built [OF assms, of P S domain] settle_built [of s P S domain] assms
  by (auto simp: all_scenarios_unsigned)

text \<open>The signing scenarios: what they sign with must verify, and their keys must have distinct addresses.\<close>

definition keys_apart :: "primitives \<Rightarrow> signers \<Rightarrow> bool" where
  "keys_apart P S \<longleftrightarrow> list_all (\<lambda>r. case r of Inl p \<Rightarrow> False | Inr keys \<Rightarrow> distinct (map (key_address P S) keys))
     [every_scheme_keys S, falcon_load_keys S, ed25519_load_keys]"

lemma load_affordable: "n \<in> set LOAD_PAYMENTS \<Longrightarrow> length keys = 25 \<Longrightarrow>
    keys \<noteq> [] \<and> length keys < 2 ^ 31 \<and> n < 2 ^ 31 \<and> 1010 * ((n + length keys - 1) div length keys) \<le> 1000000"
  by (auto simp: LOAD_PAYMENTS_def)

lemma loads_built:
  assumes "sound_ed25519 P S" and "sound_falcon P S" and "keys_apart P S" and "n \<in> set LOAD_PAYMENTS"
  shows "\<exists>xs. falcon_hybrid_load n P S domain = built P domain xs \<and> starts_funded P domain xs \<and> modest xs"
    and "\<exists>xs. ed25519_load n P S domain = built P domain xs \<and> starts_funded P domain xs \<and> modest xs"
proof -
  obtain keys where f: "falcon_load_keys S = Inr keys" "list_all (sound_key P S) keys" "length keys = 25"
    using falcon_load_keys_sound [OF assms(1,2)] by blast
  then have "distinct (map (key_address P S) keys)" using assms(3) by (auto simp: keys_apart_def split: sum.splits)
  from signed_load_funded [OF f(2) this] load_affordable [OF assms(4) f(3)] obtain xs where
    "signed_load_txns P S domain keys n = Inr xs" "starts_funded P domain xs" "modest xs" by blast
  with f(1) show "\<exists>xs. falcon_hybrid_load n P S domain = built P domain xs \<and> starts_funded P domain xs \<and> modest xs"
    by (auto simp: falcon_hybrid_load_def signed_load_def)
  obtain keys where e: "ed25519_load_keys = Inr keys" "list_all (sound_key P S) keys" "length keys = 25"
    using ed25519_load_keys_sound [OF assms(1)] by blast
  have "distinct (map (key_address P S) keys)" using assms(3) unfolding keys_apart_def e(1) by simp
  from signed_load_funded [OF e(2) this] load_affordable [OF assms(4) e(3)] obtain xs where
    "signed_load_txns P S domain keys n = Inr xs" "starts_funded P domain xs" "modest xs" by blast
  then show "\<exists>xs. ed25519_load n P S domain = built P domain xs \<and> starts_funded P domain xs \<and> modest xs"
    unfolding ed25519_load_def e(1) by (auto simp: signed_load_def)
qed

lemma every_scheme_built:
  assumes "sound_ed25519 P S" and "sound_falcon P S" and "keys_apart P S"
  shows "\<exists>xs. every_scheme P S domain = built P domain xs \<and> starts_funded P domain xs \<and> modest xs"
proof -
  obtain k0 k1 k2 where k: "every_scheme_keys S = Inr [k0, k1, k2]" "list_all (sound_key P S) [k0, k1, k2]"
    using every_scheme_keys_sound [OF assms(1,2)] by blast
  then have "distinct (map (key_address P S) [k0, k1, k2])" using assms(3) by (auto simp: keys_apart_def split: sum.splits)
  from every_scheme_funded [OF k this, of domain] show ?thesis by (auto simp: every_scheme_def)
qed

lemma signed_settle:
  assumes "sound_ed25519 P S" and "sound_falcon P S" and "keys_apart P S"
    and "s \<in> set (scenario_every_scheme # heavy)"
  shows "\<exists>st. settle_scenario P S domain s = Inr (s, st)"
proof -
  note loads = loads_built [OF assms(1-3), of _ domain] and every = every_scheme_built [OF assms(1-3), of domain]
  have "\<exists>xs. scenario_build s P S domain = built P domain xs \<and> starts_funded P domain xs \<and> modest xs"
    using assms(4) loads [of "LOAD_PAYMENTS ! 0"] loads [of "LOAD_PAYMENTS ! 1"] loads [of "LOAD_PAYMENTS ! 2"] every
    by (auto simp: heavy_def falcon_100_def falcon_1000_def falcon_10000_def ed25519_100_def ed25519_1000_def
        ed25519_10000_def LOAD_PAYMENTS_def)
  with settle_built [of s P S domain] assms(4) show ?thesis by (auto simp: all_scenarios_def)
qed

section \<open>Example signers\<close>

text \<open>An Ed25519 key that is its seed, one signature the example checks accept, and one Falcon key pair.\<close>

definition toy_signers :: signers where
  "toy_signers =
     \<lparr>ed25519_verifying_key = (\<lambda>seed. seed), ed25519_sign = (\<lambda>seed msg. 7 # replicate 63 0),
      shake256_init_prng_from_seed = (\<lambda>c seed. c), shake256_extract = (\<lambda>c n. (replicate n 0, c)),
      falcon_det1024_keygen = (\<lambda>c. (0, [], replicate 1793 0, c)),
      falcon_det1024_sign_compressed = (\<lambda>private msg. (0, [0xba, 0xba], 2))\<rparr>"

lemma toy_sound: "sound_ed25519 toy toy_signers" "sound_falcon toy toy_signers"
  by (simp_all add: sound_ed25519_def sound_falcon_def sound_falcon_key_def toy_signers_def crypto_sizes SEED_SIZE_def
      falcon_from_seed_def falcon_generate_def sign_compressed_def)

text \<open>The first byte of the example hash is the sum of what is hashed, which tells the keys apart.\<close>

definition toy_key_sum :: "key \<Rightarrow> byte" where
  "toy_key_sum k = sum_list (scheme_identifier (key_scheme k)) + sum_list (key_pub_key toy_signers k)"

lemma toy_sums_fst: "fst (toy_sums x y bs) = x + sum_list bs"
  by (induction x y bs rule: toy_sums.induct) simp_all

lemma toy_key_address: "bytes_of (key_address toy toy_signers k) ! 0 = sum_list (ascii ''ADDR'') + toy_key_sum k"
proof -
  obtain x y where xy: "toy_sums 0 0 (ascii ''ADDR'' @ scheme_identifier (key_scheme k) @ key_pub_key toy_signers k) = (x, y)"
    by fastforce
  with toy_sums_fst [of 0 0 "ascii ''ADDR'' @ scheme_identifier (key_scheme k) @ key_pub_key toy_signers k"]
  show ?thesis
    by (simp add: key_address_def address_from_public_key_def toy_hash_def toy_key_sum_def add.assoc
        del: scheme_identifier.simps)
qed

lemma toy_apart: "distinct (map toy_key_sum keys) \<Longrightarrow> distinct (map (key_address toy toy_signers) keys)"
proof -
  assume "distinct (map toy_key_sum keys)"
  then have "distinct (map (\<lambda>k. sum_list (ascii ''ADDR'') + toy_key_sum k) keys)"
    by (simp add: distinct_map inj_on_def)
  then have "distinct (map (\<lambda>k. bytes_of (key_address toy toy_signers k) ! 0) keys)"
    by (simp only: toy_key_address)
  then show ?thesis by (auto simp: distinct_map inj_on_def)
qed

definition toy_falcon :: falcon_signing_key where
  "toy_falcon = \<lparr>falcon_private = [], falcon_public = replicate 1793 0\<rparr>"

lemma toy_hybrid: "key_hybrid toy_signers seed = Inr (KeyHybrid seed toy_falcon)"
  by (simp add: key_hybrid_def falcon_from_seed_def falcon_generate_def toy_signers_def toy_falcon_def)

lemma toy_key_sum_simps:
  "toy_key_sum (KeyManaged seed) = sum_list (scheme_identifier Managed) + sum_list seed"
  "toy_key_sum (KeyEd25519 seed) = sum_list (scheme_identifier Ed25519) + sum_list seed"
  "toy_key_sum (KeyHybrid seed toy_falcon) = sum_list (scheme_identifier Falcon1024HybridEd25519) + sum_list seed"
  by (simp_all add: toy_key_sum_def toy_signers_def toy_falcon_def sum_list_replicate del: scheme_identifier.simps)

lemma seeds_distinct: "distinct (map (\<lambda>i. sum_list (base[SEED_SIZE - 1 := of_nat i :: byte])) [0..<LOAD_ACCOUNTS])"
  if "length base = SEED_SIZE"
proof -
  have "sum_list (base[SEED_SIZE - 1 := b]) = sum_list (take 31 base) + b" for b :: byte
    using that by (simp add: SEED_SIZE_def upd_conv_take_nth_drop)
  moreover have "inj_on (\<lambda>i. of_nat i :: byte) {0..<25}"
    by (auto simp: inj_on_def of_nat_eq_iff word_of_nat_eq_iff take_bit_nat_eq_self)
  ultimately show ?thesis by (simp add: distinct_map inj_on_def LOAD_ACCOUNTS_def)
qed

lemma load_keys_map:
  assumes "\<And>seed. make_key seed = Inr (mk seed)"
  shows "load_keys base make_key = Inr (map (\<lambda>i. mk (base[SEED_SIZE - 1 := of_nat i])) [0..<LOAD_ACCOUNTS])"
proof -
  have "list_all (\<lambda>i. i < 256) is \<Longrightarrow> map_results (\<lambda>index. and_then (load_seed base index) make_key) is
      = Inr (map (\<lambda>i. mk (base[SEED_SIZE - 1 := of_nat i])) is)" for "is"
    by (induction "is") (simp_all add: load_seed_def assms)
  then show ?thesis unfolding load_keys_def by (simp add: LOAD_ACCOUNTS_def list_all_iff)
qed

lemma toy_keys_apart: "keys_apart toy toy_signers"
proof -
  have "distinct (map (key_address toy toy_signers) [KeyManaged (ascii ''payment-rollup managed key!!!!!!''),
      KeyEd25519 (ascii ''payment-rollup ed25519 key!!!!!!''), KeyHybrid (ascii ''payment-rollup hybrid key!!!!!!!'') toy_falcon])"
    by (rule toy_apart) (simp only: list.map toy_key_sum_simps, code_simp)
  moreover have "distinct (map (key_address toy toy_signers)
      (map (\<lambda>i. KeyHybrid (FALCON_LOAD_SEED[SEED_SIZE - 1 := of_nat i]) toy_falcon) [0..<LOAD_ACCOUNTS]))"
    using seeds_distinct [of FALCON_LOAD_SEED] 
    by (intro toy_apart) (simp add: comp_def toy_key_sum_simps distinct_map inj_on_def FALCON_LOAD_SEED_def SEED_SIZE_def)
  moreover have "distinct (map (key_address toy toy_signers)
      (map (\<lambda>i. KeyEd25519 (ED25519_LOAD_SEED[SEED_SIZE - 1 := of_nat i])) [0..<LOAD_ACCOUNTS]))"
    using seeds_distinct [of ED25519_LOAD_SEED]
    by (intro toy_apart) (simp add: comp_def toy_key_sum_simps distinct_map inj_on_def ED25519_LOAD_SEED_def SEED_SIZE_def)
  ultimately show ?thesis
    by (simp add: keys_apart_def every_scheme_keys_def key_managed_def key_ed25519_def toy_hybrid
        falcon_load_keys_def ed25519_load_keys_def load_keys_map [OF toy_hybrid] load_keys_map [of key_ed25519, OF key_ed25519_def]
        del: map_map)
qed
section \<open>Properties\<close>

text \<open>C38: Every scenario the emitter offers settles. The ten that need no signing library always do,
  whatever the deployment: no builder panics, no account is overdrawn, no total overflows, the
  block replays and the host accepts it, starting from genesis. The signing ones do with libraries
  whose signatures verify and keys with distinct addresses, the load series to ten thousand
  payments included: its nonces are each sender's next and its deposits last.\<close>

theorem every_scenario_settles:
  "list_all (\<lambda>s. \<exists>st. settle_scenario P S domain s = Inr (s, st)) unsigned
   \<and> (sound_ed25519 P S \<and> sound_falcon P S \<and> keys_apart P S \<longrightarrow>
        list_all (\<lambda>s. \<exists>st. settle_scenario P S domain s = Inr (s, st)) (all_scenarios @ heavy))"
  using unsigned_settle [of _ P S domain] signed_settle [of P S _ domain]
  by (auto simp: list_all_iff all_scenarios_unsigned)

lemma every_scenario_settles_witness:
  "list_all (\<lambda>s. \<exists>st. settle_scenario toy toy_signers zero32 s = Inr (s, st)) (all_scenarios @ heavy)"
  using every_scenario_settles [of toy toy_signers zero32] toy_sound toy_keys_apart by blast

text \<open>C39: The forced-exit scenario's proofs are ones L1 can pay on: the block and both proofs are always
  made, neither \<open>expect\<close> nor the assertion of an inclusion proof fires, each proof is for the address
  of its key, claims an account bound to that key at nonce zero with the amount deposited, and its
  siblings verify that account against the root the block settles.\<close>

theorem forced_exit_proofs_verify:
  "\<exists>blk e0 e1. forced_exit P S domain = Inr blk \<and> forced_exit_proofs P domain = Inr [e0, e1]
     \<and> verify_block P blk = Inr ()
     \<and> map exit_pub_key [e0, e1] = EXIT_KEYS \<and> map exit_amount [e0, e1] = exit_amounts P
     \<and> list_all (\<lambda>e. exit_address e = exit_address_of P (exit_pub_key e)
          \<and> exit_nonce e = 0 \<and> exit_auth_address e = exit_address e
          \<and> verify_proof (sha256 P) (block_new_root blk) (exit_address e) (Some (exit_account e)) (exit_merkle_proof e))
        [e0, e1]"
proof -
  let ?l0 = "ledger_with_domain domain"
  have d: "ledger_domain ?l0 = domain" "ledger_rollup ?l0 = \<lparr>spec_accounts = Map.empty, spec_items = [], spec_payouts = []\<rparr>"
    by (simp_all add: ledger_with_domain_def ledger_rollup_def)
  obtain st where run: "spec_txns P (ledger_domain ?l0) (exit_deposits P) (ledger_rollup ?l0) = Inr st"
    and acc: "spec_accounts st (exit_address_at P 0) = Some (account_new 0 (exit_amounts P ! 0) (exit_address_at P 0))"
      "spec_accounts st (exit_address_at P 1) = Some (account_new 0 (exit_amounts P ! 1) (exit_address_at P 1))"
    using exit_run [of P domain] unfolding d by blast
  from get_block_Inr [OF wf_ledger_with_domain run] obtain blk l' where
    blk: "get_block P (exit_deposits P) ?l0 = Inr (blk, l')" and wf: "wf_ledger P l'"
    and accs: "ledger_accounts l' = spec_accounts st" and root: "block_new_root blk = state_root P l'"
    and ok: "verify_block P blk = Inr ()" by blast
  have held: "\<exists>e. exit_proof_of P l' (EXIT_KEYS ! i) = Inr e \<and> exit_pub_key e = EXIT_KEYS ! i
      \<and> exit_address e = exit_address_at P i
      \<and> exit_account e = account_new 0 (exit_amounts P ! i) (exit_address_at P i)
      \<and> verify_proof (sha256 P) (state_root P l') (exit_address e) (Some (exit_account e)) (exit_merkle_proof e)"
    if "spec_accounts st (exit_address_at P i) = Some (account_new 0 (exit_amounts P ! i) (exit_address_at P i))" for i
    using exit_proof_of_held [OF wf, of "EXIT_KEYS ! i"] that unfolding accs exit_address_at_def by blast
  from held [OF acc(1)] obtain e0 where e0: "exit_proof_of P l' (EXIT_KEYS ! 0) = Inr e0" "exit_pub_key e0 = EXIT_KEYS ! 0"
      "exit_address e0 = exit_address_at P 0" "exit_account e0 = account_new 0 (exit_amounts P ! 0) (exit_address_at P 0)"
      "verify_proof (sha256 P) (state_root P l') (exit_address e0) (Some (exit_account e0)) (exit_merkle_proof e0)"
    by blast
  from held [OF acc(2)] obtain e1 where e1: "exit_proof_of P l' (EXIT_KEYS ! 1) = Inr e1" "exit_pub_key e1 = EXIT_KEYS ! 1"
      "exit_address e1 = exit_address_at P 1" "exit_account e1 = account_new 0 (exit_amounts P ! 1) (exit_address_at P 1)"
      "verify_proof (sha256 P) (state_root P l') (exit_address e1) (Some (exit_account e1)) (exit_merkle_proof e1)"
    by blast
  have keys: "EXIT_KEYS = [EXIT_KEYS ! 0, EXIT_KEYS ! 1]" by (simp add: EXIT_KEYS_def)
  have "map_results (exit_proof_of P l') EXIT_KEYS = Inr [e0, e1]"
    by (subst keys) (simp add: e0(1) e1(1) [simplified])
  then have "forced_exit P S domain = Inr blk" "forced_exit_proofs P domain = Inr [e0, e1]"
    by (simp_all add: forced_exit_def forced_exit_proofs_def forced_exit_ledger_def built_with_ledger_def blk)
  moreover have "map exit_pub_key [e0, e1] = EXIT_KEYS" by (subst keys) (simp add: e0(2) e1(2) [simplified])
  moreover have "map exit_amount [e0, e1] = exit_amounts P"
    using e0(4) e1(4) by (simp add: exit_account_def account_new_def exit_amounts_def EXIT_AMOUNTS_def)
  moreover have "list_all (\<lambda>e. exit_address e = exit_address_of P (exit_pub_key e)
          \<and> exit_nonce e = 0 \<and> exit_auth_address e = exit_address e
          \<and> verify_proof (sha256 P) (block_new_root blk) (exit_address e) (Some (exit_account e)) (exit_merkle_proof e)) [e0, e1]"
    using e0 e1 by (simp add: root) (simp add: exit_account_def account_new_def exit_address_at_def)
  ultimately show ?thesis using ok by blast
qed

end
