(* ===== verification/Prover_Properties.thy ===== *)
theory Prover_Properties
  imports Host_Properties
begin

text \<open>
  What the prover and the reporter promise: they ask about the very settlement they were given, and
  the check of the public values they end with can only fire on an SDK that does not run the guest.
\<close>

section \<open>An SDK that runs the guest\<close>

text \<open>What a proof or a local execution commits is what the guest program commits on that input.\<close>

definition runs_guest :: "primitives \<Rightarrow> sdk \<Rightarrow> bool" where
  "runs_guest P K \<longleftrightarrow>
     (\<forall>mode stdin pf. sdk_prove K mode stdin = Inr pf \<longrightarrow> guest_reading P stdin = Inr (proof_public_values pf)) \<and>
     (\<forall>stdin committed r. sdk_execute K stdin = Inr (committed, r) \<longrightarrow> guest_reading P stdin = Inr committed)"

text \<open>An SDK for the examples, with nothing to report but two system calls.\<close>

definition toy_sdk :: sdk where
  "toy_sdk =
     \<lparr>parse_network_mode = Inr, network_private_key = Some ''key'', sdk_setup = (\<lambda>mode. Inr ''vkey''),
      sdk_prove = (\<lambda>mode stdin. case guest_reading toy stdin of
          Inl e \<Rightarrow> Inl ''unprovable''
        | Inr committed \<Rightarrow> Inr \<lparr>proof_public_values = committed, proof_onchain_bytes = [1],
            proof_groth16 = Some ([''1''], ''2'', zero32)\<rparr>),
      sdk_execute = (\<lambda>stdin. case guest_reading toy stdin of
          Inl e \<Rightarrow> Inl ''panicked''
        | Inr committed \<Rightarrow> Inr (committed, \<lparr>total_instruction_count = 9, report_gas_used = None,
            syscall_counts = [(''WRITE'', 3), (''HALT'', 1), (''SHA'', 0)]\<rparr>))\<rparr>"

lemma toy_sdk_runs_guest: "runs_guest toy toy_sdk"
  by (auto simp: runs_guest_def toy_sdk_def split: sum.splits)

section \<open>Properties\<close>

text \<open>C40: The host proves what it settled: the guest, reading the five items \<open>stdin_for\<close> writes, commits
  exactly the settlement's public values; and with an SDK that runs the guest, neither proving nor
  reporting ever ends in a disagreement about them, whatever else the network does.\<close>

theorem prover_agrees_with_settlement:
  assumes "for_block P blk = Inr s" and "runs_guest P K"
  shows "guest_reading P (stdin_for s) = Inr (settlement_public_values s)
    \<and> prove_settlement K prover s \<noteq> Inl PublicValuesDisagree
    \<and> report_settlement K s \<noteq> Inl PublicValuesDisagree"
proof -
  note guest = guest_on_settlement [OF assms(1)]
  have "proof_public_values pf = settlement_public_values s"
    if "sdk_prove K (prover_mode prover) (stdin_for s) = Inr pf" for pf
    using assms(2) guest that by (auto simp: runs_guest_def)
  moreover have "committed = settlement_public_values s" if "sdk_execute K (stdin_for s) = Inr (committed, r)" for committed r
    using assms(2) guest that unfolding runs_guest_def by force
  ultimately show ?thesis
    using guest by (simp add: prove_settlement_def report_settlement_def split: sum.splits option.splits)
qed

lemma prover_agrees_with_settlement_witness:
  "\<exists>blk s pf. for_block toy blk = Inr s \<and> guest_reading toy (stdin_for s) = Inr (settlement_public_values s)
     \<and> prove_settlement toy_sdk \<lparr>prover_mode = ''mainnet'', prover_vkey = ''vkey''\<rparr> s = Inr pf"
proof -
  obtain blk s where s: "for_block toy blk = Inr s" using toy_settlement by blast
  note agrees = prover_agrees_with_settlement [OF s toy_sdk_runs_guest, of "\<lparr>prover_mode = ''mainnet'', prover_vkey = ''vkey''\<rparr>"]
  have "\<exists>pf. prove_settlement toy_sdk \<lparr>prover_mode = ''mainnet'', prover_vkey = ''vkey''\<rparr> s = Inr pf"
    using agrees by (simp add: prove_settlement_def toy_sdk_def)
  with s agrees show ?thesis by blast
qed

text \<open>A report lists each system call the guest made once with its count, none with a count of zero,
  busiest first and by name where counts are equal.\<close>

theorem report_lists_syscalls:
  assumes "report_settlement K s = Inr rep"
  shows "\<exists>committed r. sdk_execute K (stdin_for s) = Inr (committed, r)
    \<and> mset (report_syscalls rep) = filter_mset (\<lambda>(name, calls). calls > 0) (mset (syscall_counts r))
    \<and> sorted_wrt (\<lambda>(n, c) (m, d). c > d \<or> c = d \<and> n \<le> m) (report_syscalls rep)
    \<and> report_txns rep = settlement_txn_count s"
  using assms syscalls_facts(2,3)
  by (auto simp: report_settlement_def split: sum.splits if_splits)

lemma report_lists_syscalls_witness:
  "\<exists>s rep. report_settlement toy_sdk s = Inr rep
     \<and> sorted_wrt (\<lambda>(n, c) (m, d). c > d \<or> c = d \<and> n \<le> m) (report_syscalls rep)"
proof -
  obtain blk s where s: "for_block toy blk = Inr s" using toy_settlement by blast
  have "\<exists>rep. report_settlement toy_sdk s = Inr rep"
    using guest_on_settlement [OF s] by (simp add: report_settlement_def toy_sdk_def)
  then obtain rep where "report_settlement toy_sdk s = Inr rep" by blast
  with report_lists_syscalls [OF this] show ?thesis by blast
qed

end
