(* ===== verification/Contract.thy ===== *)
theory Contract
  imports Execution
begin

text \<open>
  The settlement contract of \<^verbatim>\<open>contracts/contracts/rollup-verifier.algo.ts\<close>: its state, and one
  definition per method, with every assertion in the order of the source. The methods are
  functions of a call (its sender and round) and the state; a failed assertion, a read of a
  missing value, an arithmetic overflow or a payment the account cannot make is an error, and an
  error leaves no trace.
\<close>

section \<open>The machine\<close>

text \<open>
  What the AVM and the deployment fix: the two hash and signature opcodes, who created the
  application and its own account, the words of its deployment domain, what the network charges for
  a box of either kind, and which payments it delivers.
\<close>

record avm =
  avm_sha256 :: hash_fn
  avm_ed25519verify_bare :: "byte list \<Rightarrow> byte list \<Rightarrow> byte list \<Rightarrow> bool"
  avm_creator :: l1_address
  avm_app_address :: l1_address
  avm_test_deployment :: bool
  avm_genesis_hash :: bytes32
  avm_app_id :: u64
  avm_inbox_box_cost :: u64
  avm_exit_box_cost :: u64
  avm_delivers :: "l1_address \<Rightarrow> u64 \<Rightarrow> bool"

record call =
  call_sender :: l1_address
  call_round :: u64

record payment_txn =
  pay_sender :: l1_address
  pay_receiver :: l1_address
  pay_amount :: u64

datatype contract_error =
    Rejected string
  | MissingValue
  | Arithmetic
  | Undelivered
  | Overspent

definition require :: "bool \<Rightarrow> string \<Rightarrow> contract_error + unit" where
  "require b message = ensure b (Rejected message)"

definition present :: "'a option \<Rightarrow> contract_error + 'a" where
  "present x = ok_or MissingValue x"

text \<open>The AVM's \<open>+\<close> and \<open>-\<close> on 64-bit integers fail rather than wrap.\<close>

definition plus64 :: "u64 \<Rightarrow> u64 \<Rightarrow> contract_error + u64" where
  "plus64 a b = ok_or Arithmetic (checked_add a b)"

definition minus64 :: "u64 \<Rightarrow> u64 \<Rightarrow> contract_error + u64" where
  "minus64 a b = ok_or Arithmetic (checked_sub a b)"

section \<open>State\<close>

record inbox_record =
  record_kind :: "byte list"
  record_address :: address
  record_recipient :: l1_address
  record_amount :: u64
  record_payer :: l1_address
  record_round :: u64
  record_chain_after :: bytes32

text \<open>
  A \<open>GlobalState\<close> that \<open>createApplication\<close> sets and nothing deletes is a plain field, one that can be
  absent an option. The last three fields are the application's account: its balance, the minimum
  the network holds it to, and the payments it has made.
\<close>

record contract =
  verifier_address :: l1_address
  program_vkey_hash :: bytes32
  recursion_vkey_root :: bytes32
  contract_root :: bytes32
  chunk_accumulator :: "bytes32 option"
  batch_length :: "u64 option"
  posted_length :: "u64 option"
  live_inbox_chain :: bytes32
  inbox_cursor :: u64
  settled_inbox_chain :: bytes32
  settled_inbox_cursor :: u64
  sealed_inbox_chain :: "bytes32 option"
  sealed_inbox_cursor :: "u64 option"
  request_cursor :: u64
  inbox_boxes :: "u64 \<rightharpoonup> inbox_record"
  pending_withdrawals :: "bytes32 option"
  exits :: "address \<rightharpoonup> u64"
  escaped :: bool
  escape_deadline :: "u64 option"
  escape_inbox_target :: "u64 option"
  escape_progress :: "u64 option"
  inbox_timeout :: u64
  escape_grace :: u64
  security_council :: l1_address
  update_delay :: u64
  pending_verifier_address :: "l1_address option"
  pending_program_vkey_hash :: "bytes32 option"
  pending_recursion_vkey_root :: "bytes32 option"
  verifier_update_after :: "u64 option"
  application_update_after :: "u64 option"
  pending_approval_program_hash :: "bytes32 option"
  app_balance :: nat
  app_min_balance :: nat
  app_payments :: "(l1_address \<times> u64) list"

section \<open>Domain, terminal, program\<close>

definition contract_domain :: "avm \<Rightarrow> deployment_domain" where
  "contract_domain A =
     (if avm_test_deployment A then
        b32 [0x0b, 0x3b, 0xf7, 0x4f, 0xb8, 0x7b, 0x14, 0x78, 0x20, 0x88, 0xe6, 0x06, 0xf3, 0x8c, 0x5f, 0x1a,
             0x58, 0x25, 0x2c, 0xf7, 0xd1, 0xfc, 0x3c, 0xe1, 0x90, 0x46, 0xfd, 0xfd, 0xaa, 0xa3, 0x79, 0xef]
      else avm_sha256 A (ascii ''PAYMENT_ROLLUP_V1'' @ bytes_of (avm_genesis_hash A) @ to_be_bytes (avm_app_id A)))"

definition withdrawal_terminal :: "avm \<Rightarrow> bytes32" where
  "withdrawal_terminal A = avm_sha256 A (ascii ''WEND'' @ bytes_of (contract_domain A))"

definition approval_program_commitment :: "avm \<Rightarrow> byte list list \<Rightarrow> bytes32" where
  "approval_program_commitment A pages =
     foldl (\<lambda>commitment page.
         avm_sha256 A (ascii ''APAGE'' @ bytes_of commitment @ bytes_of (avm_sha256 A page)))
       (avm_sha256 A (ascii ''APROG'' @ to_be_bytes (of_nat (length pages) :: u64))) pages"

section \<open>The application's account\<close>

text \<open>A payment into the account in the same group has landed by the time the method runs.\<close>

definition receive_payment :: "avm \<Rightarrow> payment_txn \<Rightarrow> contract \<Rightarrow> contract" where
  "receive_payment A p c =
     (if pay_receiver p = avm_app_address A then c\<lparr>app_balance := app_balance c + unat (pay_amount p)\<rparr> else c)"

text \<open>An inner payment; one to the account itself leaves it what it had.\<close>

definition itxn_payment :: "avm \<Rightarrow> l1_address \<Rightarrow> u64 \<Rightarrow> contract \<Rightarrow> contract_error + contract" where
  "itxn_payment A receiver amt c =
     (if \<not> avm_delivers A receiver amt then Inl Undelivered
      else if app_balance c < unat amt then Inl Overspent
      else
        let left = (if receiver = avm_app_address A then app_balance c else app_balance c - unat amt) in
        if left < app_min_balance c then Inl Overspent
        else Inr (c\<lparr>app_balance := left, app_payments := app_payments c @ [(receiver, amt)]\<rparr>))"

text \<open>\<open>create\<close> charges for a box that is not there yet; a deletion gives back what it charged.\<close>

definition inbox_box_create :: "avm \<Rightarrow> u64 \<Rightarrow> contract \<Rightarrow> contract" where
  "inbox_box_create A index c =
     (if inbox_boxes c index = None
      then c\<lparr>app_min_balance := app_min_balance c + unat (avm_inbox_box_cost A)\<rparr> else c)"

definition inbox_box_delete :: "avm \<Rightarrow> u64 \<Rightarrow> contract \<Rightarrow> contract" where
  "inbox_box_delete A index c =
     (if inbox_boxes c index = None then c
      else c\<lparr>inbox_boxes := (inbox_boxes c)(index := None),
             app_min_balance := app_min_balance c - unat (avm_inbox_box_cost A)\<rparr>)"

definition exit_box_write :: "avm \<Rightarrow> address \<Rightarrow> u64 \<Rightarrow> contract \<Rightarrow> contract" where
  "exit_box_write A address amt c =
     c\<lparr>exits := (exits c)(address \<mapsto> amt),
       app_min_balance :=
         (if exits c address = None then app_min_balance c + unat (avm_exit_box_cost A) else app_min_balance c)\<rparr>"

text \<open>The network checks the account against its minimum when a call ends.\<close>

definition end_of_call :: "contract \<Rightarrow> contract_error + contract" where
  "end_of_call c = (if app_balance c < app_min_balance c then Inl Overspent else Inr c)"

section \<open>Creation and the security council\<close>

definition create_application ::
  "l1_address \<Rightarrow> bytes32 \<Rightarrow> bytes32 \<Rightarrow> u64 \<Rightarrow> u64 \<Rightarrow> l1_address \<Rightarrow> u64 \<Rightarrow> nat \<Rightarrow> nat
     \<Rightarrow> contract" where
  "create_application verifier program_vkey recursion_vkey timeout grace council delay balance min_balance =
     \<lparr>verifier_address = verifier, program_vkey_hash = program_vkey, recursion_vkey_root = recursion_vkey,
      contract_root = zero32, chunk_accumulator = None, batch_length = None, posted_length = None,
      live_inbox_chain = zero32, inbox_cursor = 0, settled_inbox_chain = zero32, settled_inbox_cursor = 0,
      sealed_inbox_chain = None, sealed_inbox_cursor = None, request_cursor = 0, inbox_boxes = Map.empty,
      pending_withdrawals = None, exits = Map.empty, escaped = False, escape_deadline = None,
      escape_inbox_target = None, escape_progress = None, inbox_timeout = timeout, escape_grace = grace,
      security_council = council, update_delay = delay, pending_verifier_address = None,
      pending_program_vkey_hash = None, pending_recursion_vkey_root = None, verifier_update_after = None,
      application_update_after = None, pending_approval_program_hash = None,
      app_balance = balance, app_min_balance = min_balance, app_payments = []\<rparr>"

definition assert_security_council :: "call \<Rightarrow> contract \<Rightarrow> contract_error + unit" where
  "assert_security_council t c =
     require (call_sender t = security_council c) ''only the security council may call this method''"

definition delete_batch :: "contract \<Rightarrow> contract" where
  "delete_batch c =
     c\<lparr>chunk_accumulator := None, batch_length := None, posted_length := None,
       sealed_inbox_chain := None, sealed_inbox_cursor := None\<rparr>"

definition delete_signal :: "contract \<Rightarrow> contract" where
  "delete_signal c = c\<lparr>escape_deadline := None, escape_inbox_target := None, escape_progress := None\<rparr>"

definition security_council_escape :: "call \<Rightarrow> contract \<Rightarrow> contract_error + contract" where
  "security_council_escape t c =
     and_then (assert_security_council t c) (\<lambda>_.
     and_then (require (\<not> escaped c) ''the rollup has already escaped'') (\<lambda>_.
     let c = (delete_signal (c\<lparr>escaped := True\<rparr>))
           \<lparr>pending_verifier_address := None, pending_program_vkey_hash := None, pending_recursion_vkey_root := None,
            verifier_update_after := None, application_update_after := None, pending_approval_program_hash := None\<rparr> in
     Inr (if batch_length c \<noteq> None then delete_batch c else c)))"

definition schedule_verifier_update ::
  "call \<Rightarrow> l1_address \<Rightarrow> bytes32 \<Rightarrow> bytes32 \<Rightarrow> contract \<Rightarrow> contract_error + contract" where
  "schedule_verifier_update t verifier program_vkey recursion_vkey c =
     and_then (assert_security_council t c) (\<lambda>_.
     and_then (require (\<not> escaped c) ''the rollup has escaped'') (\<lambda>_.
     and_then (require (batch_length c = None) ''a batch is being posted'') (\<lambda>_.
     and_then (plus64 (call_round t) (update_delay c)) (\<lambda>after.
     Inr (c\<lparr>pending_verifier_address := Some verifier, pending_program_vkey_hash := Some program_vkey,
            pending_recursion_vkey_root := Some recursion_vkey, verifier_update_after := Some after\<rparr>)))))"

definition execute_verifier_update :: "call \<Rightarrow> contract \<Rightarrow> contract_error + contract" where
  "execute_verifier_update t c =
     and_then (require (\<not> escaped c) ''the rollup has escaped'') (\<lambda>_.
     and_then (require (verifier_update_after c \<noteq> None) ''no verifier update is scheduled'') (\<lambda>_.
     and_then (present (verifier_update_after c)) (\<lambda>after.
     and_then (require (call_round t \<ge> after) ''the verifier update delay has not elapsed'') (\<lambda>_.
     and_then (present (pending_verifier_address c)) (\<lambda>verifier.
     and_then (present (pending_program_vkey_hash c)) (\<lambda>program_vkey.
     and_then (present (pending_recursion_vkey_root c)) (\<lambda>recursion_vkey.
     Inr (c\<lparr>verifier_address := verifier, program_vkey_hash := program_vkey, recursion_vkey_root := recursion_vkey,
            pending_verifier_address := None, pending_program_vkey_hash := None,
            pending_recursion_vkey_root := None, verifier_update_after := None\<rparr>))))))))"

definition schedule_application_update :: "call \<Rightarrow> bytes32 \<Rightarrow> contract \<Rightarrow> contract_error + contract" where
  "schedule_application_update t approval_program_hash c =
     and_then (assert_security_council t c) (\<lambda>_.
     and_then (require (\<not> escaped c) ''the rollup has escaped'') (\<lambda>_.
     and_then (plus64 (call_round t) (update_delay c)) (\<lambda>after.
     Inr (c\<lparr>pending_approval_program_hash := Some approval_program_hash, application_update_after := Some after\<rparr>))))"

text \<open>The call carries the pages of the program the application becomes.\<close>

definition update_application :: "avm \<Rightarrow> call \<Rightarrow> byte list list \<Rightarrow> contract \<Rightarrow> contract_error + contract" where
  "update_application A t pages c =
     and_then (require (\<not> escaped c) ''the rollup has escaped'') (\<lambda>_.
     and_then (require (application_update_after c \<noteq> None) ''no application update is scheduled'') (\<lambda>_.
     and_then (present (application_update_after c)) (\<lambda>after.
     and_then (require (call_round t \<ge> after) ''the application update delay has not elapsed'') (\<lambda>_.
     and_then (present (pending_approval_program_hash c)) (\<lambda>approved.
     and_then (require (approval_program_commitment A pages = approved)
       ''the approval program does not match the scheduled update'') (\<lambda>_.
     Inr (c\<lparr>application_update_after := None, pending_approval_program_hash := None\<rparr>)))))))"

section \<open>The inbox\<close>

text \<open>Both kinds of entry share the fold into the chain, the box and the cursor.\<close>

definition append_record :: "u64 \<Rightarrow> inbox_record \<Rightarrow> contract \<Rightarrow> contract_error + contract" where
  "append_record index entry c =
     and_then (plus64 index 1) (\<lambda>next_index.
     Inr (c\<lparr>inbox_boxes := (inbox_boxes c)(index \<mapsto> entry),
            live_inbox_chain := record_chain_after entry, inbox_cursor := next_index\<rparr>))"

definition contract_deposit ::
  "avm \<Rightarrow> call \<Rightarrow> payment_txn \<Rightarrow> address \<Rightarrow> contract \<Rightarrow> contract_error + u64 \<times> contract" where
  "contract_deposit A t payment recipient c =
     and_then (require (\<not> escaped c) ''the rollup has escaped'') (\<lambda>_.
     let c = receive_payment A payment c;
         index = inbox_cursor c;
         pre_mbr = app_min_balance c;
         c = inbox_box_create A index c;
         box_mbr = of_nat (app_min_balance c - pre_mbr) in
     and_then (require (pay_receiver payment = avm_app_address A \<and> pay_amount payment > box_mbr)
       ''the deposit must pay this app more than the box minimum balance'') (\<lambda>_.
     and_then (minus64 (pay_amount payment) box_mbr) (\<lambda>amt.
     let chain_after = avm_sha256 A (ascii ''INBOXD'' @ bytes_of (live_inbox_chain c) @ bytes_of recipient
           @ to_be_bytes amt) in
     and_then (append_record index
       \<lparr>record_kind = ascii ''d'', record_address = recipient, record_recipient = zero32, record_amount = amt,
        record_payer = pay_sender payment, record_round = call_round t, record_chain_after = chain_after\<rparr> c) (\<lambda>c.
     and_then (end_of_call c) (\<lambda>c. Inr (index, c))))))"

definition SCHEME_ED25519 :: "byte list" where "SCHEME_ED25519 = ascii ''edd''"

definition request_withdrawal ::
  "avm \<Rightarrow> call \<Rightarrow> payment_txn \<Rightarrow> u64 \<Rightarrow> address \<Rightarrow> l1_address \<Rightarrow> byte list \<Rightarrow> byte list \<Rightarrow> byte list
     \<Rightarrow> contract \<Rightarrow> contract_error + u64 \<times> contract" where
  "request_withdrawal A t payment expected_nonce address recipient scheme pub_key sig c =
     and_then (require (\<not> escaped c) ''the rollup has escaped'') (\<lambda>_.
     let c = receive_payment A payment c;
         index = inbox_cursor c;
         pre_mbr = app_min_balance c;
         c = inbox_box_create A index c;
         box_mbr = of_nat (app_min_balance c - pre_mbr);
         request_nonce = request_cursor c in
     and_then (require (pay_receiver payment = avm_app_address A \<and> pay_amount payment = box_mbr)
       ''the request must cover its box minimum balance exactly'') (\<lambda>_.
     and_then (require (request_nonce = expected_nonce) ''a request arrived first'') (\<lambda>_.
     and_then (require (scheme = SCHEME_ED25519) ''unsupported signature scheme'') (\<lambda>_.
     and_then (require (avm_sha256 A (ascii ''ADDR'' @ scheme @ pub_key) = address)
       ''the key does not derive this account'') (\<lambda>_.
     and_then (require (avm_ed25519verify_bare A
         (ascii ''WREQ'' @ bytes_of (contract_domain A) @ to_be_bytes request_nonce @ bytes_of address @ bytes_of recipient)
         sig pub_key)
       ''the request is not signed by the account's key'') (\<lambda>_.
     let chain_after = avm_sha256 A (ascii ''INBOXW'' @ bytes_of (live_inbox_chain c) @ bytes_of address
           @ bytes_of recipient) in
     and_then (append_record index
       \<lparr>record_kind = ascii ''w'', record_address = address, record_recipient = recipient, record_amount = 0,
        record_payer = pay_sender payment, record_round = call_round t, record_chain_after = chain_after\<rparr> c) (\<lambda>c.
     and_then (plus64 request_nonce 1) (\<lambda>next_nonce.
     and_then (end_of_call (c\<lparr>request_cursor := next_nonce\<rparr>)) (\<lambda>c. Inr (index, c))))))))))"

definition prune_request :: "avm \<Rightarrow> u64 \<Rightarrow> contract \<Rightarrow> contract_error + contract" where
  "prune_request A index c =
     and_then (present (inbox_boxes c index)) (\<lambda>rec.
     and_then (require (record_kind rec = ascii ''w'') ''the inbox entry is not a request'') (\<lambda>_.
     and_then (require (index < settled_inbox_cursor c \<or> escaped c)
       ''a request cannot be pruned before the batch that answered it has settled'') (\<lambda>_.
     let pre_mbr = app_min_balance c;
         c = inbox_box_delete A index c;
         box_mbr = of_nat (pre_mbr - app_min_balance c) in
     itxn_payment A (record_payer rec) box_mbr c)))"

definition prune_deposit :: "avm \<Rightarrow> u64 \<Rightarrow> contract \<Rightarrow> contract_error + contract" where
  "prune_deposit A index c =
     and_then (present (inbox_boxes c index)) (\<lambda>rec.
     and_then (require (record_kind rec = ascii ''d'') ''the inbox entry is not a deposit'') (\<lambda>_.
     and_then (require (index < settled_inbox_cursor c)
       ''a deposit cannot be pruned before the batch that consumed it has settled'') (\<lambda>_.
     let pre_mbr = app_min_balance c;
         c = inbox_box_delete A index c;
         box_mbr = of_nat (pre_mbr - app_min_balance c) in
     itxn_payment A (record_payer rec) box_mbr c)))"

definition reclaim_deposit :: "avm \<Rightarrow> u64 \<Rightarrow> contract \<Rightarrow> contract_error + contract" where
  "reclaim_deposit A index c =
     and_then (require (escaped c) ''deposits can only be reclaimed after an escape'') (\<lambda>_.
     and_then (require (index \<ge> settled_inbox_cursor c) ''this deposit was credited by a batch that settled'') (\<lambda>_.
     and_then (require (index < inbox_cursor c) ''no such inbox entry'') (\<lambda>_.
     and_then (present (inbox_boxes c index)) (\<lambda>rec.
     and_then (require (record_kind rec = ascii ''d'') ''the inbox entry is not a deposit'') (\<lambda>_.
     let pre_mbr = app_min_balance c;
         c = inbox_box_delete A index c;
         box_mbr = of_nat (pre_mbr - app_min_balance c) in
     and_then (plus64 (record_amount rec) box_mbr) (\<lambda>amt.
     itxn_payment A (record_payer rec) amt c))))))"

section \<open>The escape watchdog\<close>

definition ESCAPE_PROGRESS_TRANCHE :: u64 where "ESCAPE_PROGRESS_TRANCHE = 256"

definition credit_escape_progress :: "u64 \<Rightarrow> contract \<Rightarrow> contract_error + contract" where
  "credit_escape_progress discharged c =
     (case escape_deadline c of None \<Rightarrow> Inr c
      | Some deadline \<Rightarrow>
          and_then (present (escape_progress c)) (\<lambda>so_far.
          and_then (plus64 so_far discharged) (\<lambda>progress.
          if progress \<ge> ESCAPE_PROGRESS_TRANCHE then
            and_then (plus64 deadline (escape_grace c)) (\<lambda>extended.
            Inr (c\<lparr>escape_deadline := Some extended, escape_progress := Some 0\<rparr>))
          else Inr (c\<lparr>escape_progress := Some progress\<rparr>))))"

definition signal_escape :: "call \<Rightarrow> contract \<Rightarrow> contract_error + contract" where
  "signal_escape t c =
     and_then (require (\<not> escaped c) ''the rollup has already escaped'') (\<lambda>_.
     and_then (require (escape_deadline c = None) ''an escape has already been signalled'') (\<lambda>_.
     and_then (require (settled_inbox_cursor c < inbox_cursor c) ''nothing is pending'') (\<lambda>_.
     and_then (present (inbox_boxes c (settled_inbox_cursor c))) (\<lambda>head.
     and_then (plus64 (record_round head) (inbox_timeout c)) (\<lambda>stale.
     and_then (require (call_round t > stale) ''nothing has been waiting long enough'') (\<lambda>_.
     and_then (plus64 (call_round t) (escape_grace c)) (\<lambda>deadline.
     Inr (c\<lparr>escape_inbox_target := Some (inbox_cursor c), escape_progress := Some 0,
            escape_deadline := Some deadline\<rparr>))))))))"

definition execute_escape :: "call \<Rightarrow> contract \<Rightarrow> contract_error + contract" where
  "execute_escape t c =
     and_then (require (\<not> escaped c) ''the rollup has already escaped'') (\<lambda>_.
     and_then (require (escape_deadline c \<noteq> None) ''no escape has been signalled'') (\<lambda>_.
     and_then (present (escape_deadline c)) (\<lambda>deadline.
     and_then (require (call_round t > deadline) ''the grace period has not run out'') (\<lambda>_.
     let c = delete_signal (c\<lparr>escaped := True\<rparr>) in
     Inr (if batch_length c \<noteq> None then delete_batch c else c)))))"

section \<open>Batches\<close>

definition abandon_batch :: "avm \<Rightarrow> call \<Rightarrow> contract \<Rightarrow> contract_error + contract" where
  "abandon_batch A t c =
     and_then (require (call_sender t = avm_creator A) ''only the creator may abandon'') (\<lambda>_.
     and_then (require (batch_length c \<noteq> None) ''no batch is being posted'') (\<lambda>_.
     Inr (delete_batch c)))"

definition open_batch :: "avm \<Rightarrow> call \<Rightarrow> u64 \<Rightarrow> u64 \<Rightarrow> contract \<Rightarrow> contract_error + contract" where
  "open_batch A t len target c =
     and_then (require (call_sender t = avm_creator A) ''only the creator may open a batch'') (\<lambda>_.
     and_then (require (\<not> escaped c) ''the rollup has escaped'') (\<lambda>_.
     and_then (require (batch_length c = None) ''a batch is already being posted'') (\<lambda>_.
     and_then (require (pending_withdrawals c = None) ''the last batch's payouts have not all been made'') (\<lambda>_.
     and_then (require (target \<ge> settled_inbox_cursor c) ''the batch cannot move the inbox cursor backwards'') (\<lambda>_.
     and_then (require (target \<le> inbox_cursor c)
       ''the batch cannot consume an inbox entry that has not arrived'') (\<lambda>_.
     and_then
       (if target = settled_inbox_cursor c then Inr (settled_inbox_chain c)
        else and_then (minus64 target 1) (\<lambda>last. and_then (present (inbox_boxes c last)) (\<lambda>rec.
          Inr (record_chain_after rec)))) (\<lambda>sealed.
     Inr (c\<lparr>chunk_accumulator := Some (avm_sha256 A (ascii ''BATCH'' @ bytes_of (contract_domain A) @ to_be_bytes len)),
            batch_length := Some len, posted_length := Some 0,
            sealed_inbox_chain := Some sealed, sealed_inbox_cursor := Some target\<rparr>))))))))"

definition CONTRACT_CHUNK_SIZE :: u64 where "CONTRACT_CHUNK_SIZE = 4094"

definition contract_accumulate_chunk :: "avm \<Rightarrow> call \<Rightarrow> byte list \<Rightarrow> contract \<Rightarrow> contract_error + contract" where
  "contract_accumulate_chunk A t chunk c =
     and_then (require (call_sender t = avm_creator A) ''only the creator may post a chunk'') (\<lambda>_.
     and_then (require (batch_length c \<noteq> None) ''no batch is being posted'') (\<lambda>_.
     and_then (present (batch_length c)) (\<lambda>len.
     and_then (present (posted_length c)) (\<lambda>posted.
     and_then (require (posted < len) ''the batch is already fully posted'') (\<lambda>_.
     and_then (minus64 len posted) (\<lambda>remaining.
     let expected = (if remaining < CONTRACT_CHUNK_SIZE then remaining else CONTRACT_CHUNK_SIZE) in
     and_then (require (length chunk = unat expected) ''chunk is not the size its position allows'') (\<lambda>_.
     and_then (present (chunk_accumulator c)) (\<lambda>accumulator.
     and_then (plus64 posted (of_nat (length chunk))) (\<lambda>posted.
     Inr (c\<lparr>chunk_accumulator :=
              Some (avm_sha256 A (ascii ''CHUNK'' @ bytes_of accumulator @ bytes_of (avm_sha256 A chunk))),
            posted_length := Some posted\<rparr>))))))))))"

text \<open>\<open>bitwiseAnd\<close> with a word whose top three bits are clear.\<close>

definition field_mask :: "bytes32 \<Rightarrow> bytes32" where
  "field_mask h = b32 ((bytes_of h)[0 := bytes_of h ! 0 AND 0x1f])"

definition contract_verify_batch ::
  "avm \<Rightarrow> call \<Rightarrow> payment_txn \<Rightarrow> bytes32 list \<Rightarrow> byte list \<Rightarrow> contract \<Rightarrow> contract_error + contract" where
  "contract_verify_batch A t verifier signals vals c =
     and_then (require (call_sender t = avm_creator A) ''only the creator may settle a batch'') (\<lambda>_.
     and_then (require (\<not> escaped c) ''the rollup has escaped'') (\<lambda>_.
     and_then (require (case escape_deadline c of None \<Rightarrow> True | Some deadline \<Rightarrow> call_round t \<le> deadline)
       ''the escape deadline has passed'') (\<lambda>_.
     and_then (require (batch_length c \<noteq> None) ''no batch is being posted'') (\<lambda>_.
     and_then (present (posted_length c)) (\<lambda>posted.
     and_then (present (batch_length c)) (\<lambda>len.
     and_then (require (posted = len) ''the batch is not fully posted'') (\<lambda>_.
     and_then (require (pay_sender verifier = verifier_address c) ''invalid proof verifier'') (\<lambda>_.
     and_then (require (length signals = 5) ''SP1 proofs have five public inputs'') (\<lambda>_.
     and_then (require (signals ! 0 = program_vkey_hash c) ''the proof is for a different program'') (\<lambda>_.
     and_then (require (signals ! 1 = field_mask (avm_sha256 A vals)) ''the proof commits different public values'') (\<lambda>_.
     and_then (require (signals ! 2 = zero32) ''the guest execution failed'') (\<lambda>_.
     and_then (require (signals ! 3 = recursion_vkey_root c) ''the proof is from a different SP1 verifier set'') (\<lambda>_.
     let old_root = b32 (slice 0 32 vals); new_root = b32 (slice 32 64 vals);
         commitment = b32 (slice 64 96 vals); old_inbox = b32 (slice 96 128 vals);
         new_inbox = b32 (slice 128 160 vals); wchain = b32 (slice 160 192 vals) in
     and_then (require (old_root = contract_root c) ''the proof does not start from the current root'') (\<lambda>_.
     and_then (present (chunk_accumulator c)) (\<lambda>accumulator.
     and_then (require (commitment = accumulator) ''the proof is not for the batch that was posted'') (\<lambda>_.
     and_then (require (old_inbox = settled_inbox_chain c)
       ''the proof does not start from the settled inbox chain'') (\<lambda>_.
     and_then (present (sealed_inbox_chain c)) (\<lambda>sealed.
     and_then (require (new_inbox = sealed)
       ''the batch does not consume exactly the selected inbox prefix'') (\<lambda>_.
     and_then (present (sealed_inbox_cursor c)) (\<lambda>cursor.
     let before = settled_inbox_cursor c;
         c = delete_batch (c\<lparr>contract_root := new_root, settled_inbox_chain := sealed, settled_inbox_cursor := cursor,
           pending_withdrawals := (if wchain \<noteq> withdrawal_terminal A then Some wchain else pending_withdrawals c)\<rparr>) in
     (case escape_inbox_target c of None \<Rightarrow> Inr c
      | Some target \<Rightarrow>
          if cursor \<ge> target then Inr (delete_signal c)
          else and_then (minus64 cursor before) (\<lambda>discharged. credit_escape_progress discharged c))
     ))))))))))))))))))))"

section \<open>Payouts and exits\<close>

definition pay_withdrawal ::
  "avm \<Rightarrow> call \<Rightarrow> l1_address \<Rightarrow> u64 \<Rightarrow> bytes32 \<Rightarrow> contract \<Rightarrow> contract_error + contract" where
  "pay_withdrawal A t recipient amt tail c =
     and_then (require (pending_withdrawals c \<noteq> None) ''no payouts are outstanding'') (\<lambda>_.
     and_then (present (pending_withdrawals c)) (\<lambda>head.
     and_then (require (avm_sha256 A (ascii ''WPAY'' @ bytes_of tail @ bytes_of recipient @ to_be_bytes amt) = head)
       ''this is not the next payout the batch committed'') (\<lambda>_.
     let c = c\<lparr>pending_withdrawals := (if tail = withdrawal_terminal A then None else Some tail)\<rparr> in
     and_then (if call_sender t = avm_creator A then credit_escape_progress 1 c else Inr c) (\<lambda>c.
     itxn_payment A recipient amt c))))"

text \<open>\<open>getBit\<close> on a byte string counts from the most significant bit of the first byte.\<close>

definition get_bit :: "byte list \<Rightarrow> nat \<Rightarrow> bool" where
  "get_bit bs i = bit (bs ! (i div 8)) (7 - i mod 8)"

definition exit_climb :: "avm \<Rightarrow> address \<Rightarrow> byte list \<Rightarrow> nat \<Rightarrow> bytes32 \<Rightarrow> bytes32" where
  "exit_climb A address sibs depth leaf =
     foldl (\<lambda>current level.
         let sibling = slice (level * 32) ((level + 1) * 32) sibs in
         if get_bit (bytes_of address) level
         then avm_sha256 A (ascii ''NODE'' @ sibling @ bytes_of current)
         else avm_sha256 A (ascii ''NODE'' @ bytes_of current @ sibling))
       leaf (rev [0..<depth])"

text \<open>\<open>forceExit\<close> as it runs on the arguments it was given; which arguments can reach it is in \<open>Contract_Delivery\<close>.\<close>

definition force_exit ::
  "avm \<Rightarrow> address \<Rightarrow> u64 \<Rightarrow> u64 \<Rightarrow> address \<Rightarrow> byte list \<Rightarrow> byte list \<Rightarrow> byte list \<Rightarrow> l1_address
     \<Rightarrow> byte list \<Rightarrow> contract \<Rightarrow> contract_error + contract" where
  "force_exit A address account_nonce amt auth scheme pub_key sig recipient sibs c =
     and_then (require (escaped c) ''the rollup has not escaped'') (\<lambda>_.
     and_then (require (exits c address = None) ''this account has already exited'') (\<lambda>_.
     and_then (require (scheme = SCHEME_ED25519) ''unsupported signature scheme'') (\<lambda>_.
     and_then (require (avm_sha256 A (ascii ''ADDR'' @ scheme @ pub_key) = auth)
       ''the key does not control this account'') (\<lambda>_.
     and_then (require (avm_ed25519verify_bare A
         (ascii ''EXIT'' @ bytes_of (contract_domain A) @ bytes_of address @ bytes_of recipient) sig pub_key)
       ''the exit is not signed by the account's key'') (\<lambda>_.
     let leaf = avm_sha256 A (ascii ''LEAF'' @ bytes_of address @ to_be_bytes account_nonce @ to_be_bytes amt @ bytes_of auth) in
     and_then (require (length sibs mod 32 = 0) ''the proof is not a whole number of siblings'') (\<lambda>_.
     let depth = length sibs div 32 in
     and_then (require (depth \<le> 256) ''the proof is deeper than the address space allows'') (\<lambda>_.
     and_then (require (exit_climb A address sibs depth leaf = contract_root c)
       ''the account does not prove against the settled root'') (\<lambda>_.
     let pre_mbr = app_min_balance c;
         c = exit_box_write A address amt c;
         box_mbr = of_nat (app_min_balance c - pre_mbr) in
     and_then (require (amt > box_mbr) ''the balance does not cover the cost of recording the exit'') (\<lambda>_.
     and_then (minus64 amt box_mbr) (\<lambda>payout.
     itxn_payment A recipient payout c))))))))))"

definition op_up :: "u64 \<Rightarrow> contract \<Rightarrow> contract" where "op_up n c = c"

end
