(* ===== verification/Contract_Rust.thy ===== *)
theory Contract_Rust
  imports Contract
begin

text \<open>
  Where the contract recomputes what the Rust crate computes, and how its calls decompose: the
  hashes of the inbox, the payouts, the chunks and the domain are the crate's, the climb of
  \<open>forceExit\<close> is the fold of \<open>root_from_proof\<close>, and each method that returns took the branch its
  guards name.
\<close>

section \<open>Fallible steps\<close>

lemma require_Inr_iff [result_simps]: "require b m = Inr u \<longleftrightarrow> b"
  by (simp add: require_def ensure_Inr_iff)

lemma require_Inl_iff: "require b m = Inl e \<longleftrightarrow> \<not> b \<and> e = Rejected m"
  by (auto simp: require_def ensure_def)

lemma require_True [simp]: "b \<Longrightarrow> require b m = Inr ()"
  by (simp add: require_def)

lemma present_Inr_iff [result_simps]: "present x = Inr a \<longleftrightarrow> x = Some a"
  by (simp add: present_def ok_or_Inr_iff)

lemma present_Inl_iff: "present x = Inl e \<longleftrightarrow> x = None \<and> e = MissingValue"
  by (cases x) (auto simp: present_def)

lemma present_Some [simp]: "present (Some a) = Inr a"
  by (simp add: present_def)

lemma plus64_Inr_iff [result_simps]: "plus64 a b = Inr r \<longleftrightarrow> unat r = unat a + unat b"
  by (simp add: plus64_def ok_or_Inr_iff checked_add_Some_iff)

lemma plus64_Inl_iff: "plus64 a b = Inl e \<longleftrightarrow> 2 ^ 64 \<le> unat a + unat b \<and> e = Arithmetic"
  by (auto simp: plus64_def checked_add_unat not_less)

lemma minus64_Inr_iff [result_simps]: "minus64 a b = Inr r \<longleftrightarrow> unat r + unat b = unat a"
  by (simp add: minus64_def ok_or_Inr_iff checked_sub_Some_iff)

lemma minus64_Inl_iff: "minus64 a b = Inl e \<longleftrightarrow> unat a < unat b \<and> e = Arithmetic"
  by (auto simp: minus64_def checked_sub_def word_le_nat_alt not_le)

lemmas contract_Inr_iffs = and_then_Inr_iff require_Inr_iff present_Inr_iff plus64_Inr_iff minus64_Inr_iff
lemmas contract_Inl_iffs = and_then_Inl_iff require_Inl_iff present_Inl_iff plus64_Inl_iff minus64_Inl_iff

section \<open>The same strings, the same hashes\<close>

text \<open>The machine the contract runs on hashes as the crate does.\<close>

definition same_hash :: "avm \<Rightarrow> primitives \<Rightarrow> bool" where
  "same_hash A P \<longleftrightarrow> avm_sha256 A = sha256 P"

definition record_item :: "inbox_record \<Rightarrow> inbox_item option" where
  "record_item r =
     (if record_kind r = ascii ''d'' then Some (InboxDeposit (record_address r) (record_amount r))
      else if record_kind r = ascii ''w'' then Some (InboxForcedWithdrawal (record_address r) (record_recipient r))
      else None)"

lemma contract_domain_live:
  "\<not> avm_test_deployment A \<Longrightarrow>
     contract_domain A = deployment_domain_of (avm_sha256 A) (avm_genesis_hash A) (avm_app_id A)"
  by (simp add: contract_domain_def deployment_domain_of_def)

lemma withdrawal_terminal_eq:
  "withdrawal_terminal A = withdrawal_chain_terminal (avm_sha256 A) (contract_domain A)"
  by (simp add: withdrawal_terminal_def withdrawal_chain_terminal_def)

lemma get_bit_bit_at: "get_bit (bytes_of a) i \<longleftrightarrow> bit_at a i \<noteq> 0"
proof -
  have "drop_bit n x AND 1 = of_bool (bit x n)" for x :: byte and n
    by (simp add: and_one_eq mod_2_eq_odd bit_iff_odd_drop_bit)
  then show ?thesis by (simp add: get_bit_def bit_at_def)
qed

text \<open>The siblings of a path handed over as bytes.\<close>

definition sibling_words :: "byte list \<Rightarrow> bytes32 list" where
  "sibling_words sibs = map (\<lambda>i. b32 (slice (i * 32) ((i + 1) * 32) sibs)) [0..<length sibs div 32]"

lemma length_sibling_words [simp]: "length (sibling_words sibs) = length sibs div 32"
  by (simp add: sibling_words_def)

lemma sibling_words_nth:
  assumes "i < length sibs div 32"
  shows "bytes_of (sibling_words sibs ! i) = slice (i * 32) ((i + 1) * 32) sibs"
proof -
  have "(i + 1) * 32 \<le> length sibs div 32 * 32" using assms by (simp only: mult_le_cancel2) simp
  also have "\<dots> \<le> length sibs" by simp
  finally show ?thesis using assms by (simp add: sibling_words_def slice_def)
qed

lemma sibling_words_concat [simp]: "sibling_words (concat (map bytes_of ss)) = ss"
proof -
  have len: "length (concat (map bytes_of xs)) = length xs * 32" for xs
    by (induction xs) simp_all
  have slice: "slice (i * 32) ((i + 1) * 32) (concat (map bytes_of xs)) = bytes_of (xs ! i)" if "i < length xs" for i xs
    using that
  proof (induction xs arbitrary: i)
    case (Cons x xs)
    then show ?case by (cases i) (auto simp: slice_def)
  qed simp
  show ?thesis
    by (rule nth_equalityI) (use slice [of _ ss] in \<open>simp_all add: sibling_words_def len\<close>)
qed

lemma length_concat_bytes_of [simp]: "length (concat (map bytes_of ss)) = 32 * length ss"
  by (induction ss) simp_all

text \<open>The crate's fold over the same path.\<close>

lemma exit_climb_root_from_proof:
  assumes "same_hash A P" and "length sibs div 32 \<le> 256"
  shows "root_from_proof (sha256 P) a (Some acc) (from_parts (sibling_words sibs) Own)
    = Some (exit_climb A a sibs (length sibs div 32) (leaf_hash (sha256 P) a acc))"
proof -
  have "foldl (\<lambda>current level. if bit_at a level = 0
      then node_hash (sha256 P) current (sibling_words sibs ! level)
      else node_hash (sha256 P) (sibling_words sibs ! level) current) c ls
    = foldl (\<lambda>current level.
         let sibling = slice (level * 32) ((level + 1) * 32) sibs in
         if get_bit (bytes_of a) level
         then avm_sha256 A (ascii ''NODE'' @ sibling @ bytes_of current)
         else avm_sha256 A (ascii ''NODE'' @ bytes_of current @ sibling)) c ls"
    if "set ls \<subseteq> {0..<length sibs div 32}" for c ls
    using that
    by (induction ls arbitrary: c)
       (use assms(1) in \<open>auto simp: same_hash_def node_hash_def node_preimage_def sibling_words_nth get_bit_bit_at
          Let_def simp del: mult_Suc\<close>)
  from this [of "rev [0..<length sibs div 32]" "leaf_hash (sha256 P) a acc"] assms(2) show ?thesis
    unfolding root_from_proof_def exit_climb_def from_parts_def merkle_proof.simps
    by (simp add: DEPTH_def slot_hash_def del: mult_Suc)
qed

end
