(* ===== verification/Contract_Calls.thy ===== *)
theory Contract_Calls
  imports Contract_Rust
begin

text \<open>
  The calls a deployed contract takes, which of its values are present together, and for each method
  what a call that returned had checked and what state it left.
\<close>

section \<open>Calls\<close>

datatype contract_call =
    SecurityCouncilEscape
  | ScheduleVerifierUpdate l1_address bytes32 bytes32
  | ExecuteVerifierUpdate
  | ScheduleApplicationUpdate bytes32
  | MakeDeposit payment_txn address
  | RequestWithdrawal payment_txn u64 address l1_address "byte list" "byte list" "byte list"
  | PruneRequest u64
  | PruneDeposit u64
  | ReclaimDeposit u64
  | PayWithdrawal l1_address u64 bytes32
  | ForceExit address u64 u64 address "byte list" "byte list" "byte list" l1_address "byte list"
  | OpUp u64
  | SignalEscape
  | ExecuteEscape
  | AbandonBatch
  | OpenBatch u64 u64
  | AccumulateChunk "byte list"
  | VerifyBatch payment_txn "bytes32 list" "byte list"

text \<open>An index a method returns is not needed here.\<close>

fun perform :: "avm \<Rightarrow> call \<Rightarrow> contract_call \<Rightarrow> contract \<Rightarrow> contract_error + contract" where
  "perform A t SecurityCouncilEscape c = security_council_escape t c"
| "perform A t (ScheduleVerifierUpdate v p r) c = schedule_verifier_update t v p r c"
| "perform A t ExecuteVerifierUpdate c = execute_verifier_update t c"
| "perform A t (ScheduleApplicationUpdate h) c = schedule_application_update t h c"
| "perform A t (MakeDeposit payment recipient) c = map_sum id snd (contract_deposit A t payment recipient c)"
| "perform A t (RequestWithdrawal payment n address recipient scheme key sig) c =
     map_sum id snd (request_withdrawal A t payment n address recipient scheme key sig c)"
| "perform A t (PruneRequest i) c = prune_request A i c"
| "perform A t (PruneDeposit i) c = prune_deposit A i c"
| "perform A t (ReclaimDeposit i) c = reclaim_deposit A i c"
| "perform A t (PayWithdrawal recipient amt tail) c = pay_withdrawal A t recipient amt tail c"
| "perform A t (ForceExit address n amt auth scheme key sig recipient sibs) c =
     force_exit A address n amt auth scheme key sig recipient sibs c"
| "perform A t (OpUp n) c = Inr (op_up n c)"
| "perform A t SignalEscape c = signal_escape t c"
| "perform A t ExecuteEscape c = execute_escape t c"
| "perform A t AbandonBatch c = abandon_batch A t c"
| "perform A t (OpenBatch len target) c = open_batch A t len target c"
| "perform A t (AccumulateChunk chunk) c = contract_accumulate_chunk A t chunk c"
| "perform A t (VerifyBatch verifier signals vals) c = contract_verify_batch A t verifier signals vals c"

fun settles :: "contract_call \<Rightarrow> bool" where
  "settles (VerifyBatch verifier signals vals) = True"
| "settles _ = False"

section \<open>Well-kept state\<close>

text \<open>
  Which optional values are present together, how the cursors are ordered, and which boxes exist.
\<close>

definition batch_kept :: "contract \<Rightarrow> bool" where
  "batch_kept c \<longleftrightarrow>
     (batch_length c = None \<longrightarrow> chunk_accumulator c = None \<and> posted_length c = None
        \<and> sealed_inbox_chain c = None \<and> sealed_inbox_cursor c = None)
     \<and> (\<forall>len. batch_length c = Some len \<longrightarrow> \<not> escaped c \<and> pending_withdrawals c = None
          \<and> chunk_accumulator c \<noteq> None \<and> sealed_inbox_chain c \<noteq> None
          \<and> (\<exists>posted. posted_length c = Some posted \<and> unat posted \<le> unat len)
          \<and> (\<exists>cursor. sealed_inbox_cursor c = Some cursor \<and> unat (settled_inbox_cursor c) \<le> unat cursor
               \<and> unat cursor \<le> unat (inbox_cursor c)))"

definition signal_kept :: "contract \<Rightarrow> bool" where
  "signal_kept c \<longleftrightarrow>
     (escape_deadline c = None \<longleftrightarrow> escape_inbox_target c = None)
     \<and> (escape_deadline c = None \<longleftrightarrow> escape_progress c = None)
     \<and> (escape_deadline c \<noteq> None \<longrightarrow> \<not> escaped c)"

definition updates_kept :: "contract \<Rightarrow> bool" where
  "updates_kept c \<longleftrightarrow>
     (verifier_update_after c \<noteq> None \<longrightarrow> pending_verifier_address c \<noteq> None
        \<and> pending_program_vkey_hash c \<noteq> None \<and> pending_recursion_vkey_root c \<noteq> None)
     \<and> (application_update_after c \<noteq> None \<longrightarrow> pending_approval_program_hash c \<noteq> None)"

definition inbox_kept :: "contract \<Rightarrow> bool" where
  "inbox_kept c \<longleftrightarrow>
     unat (settled_inbox_cursor c) \<le> unat (inbox_cursor c)
     \<and> (\<forall>i. inbox_boxes c i \<noteq> None \<longrightarrow> unat i < unat (inbox_cursor c))
     \<and> (\<not> escaped c \<longrightarrow>
          exits c = Map.empty
          \<and> (\<forall>i. unat (settled_inbox_cursor c) \<le> unat i \<longrightarrow> unat i < unat (inbox_cursor c) \<longrightarrow> inbox_boxes c i \<noteq> None))"

lemmas kept_defs = batch_kept_def signal_kept_def updates_kept_def inbox_kept_def

section \<open>What a call does when it returns\<close>

text \<open>Each method that returned, as what it had checked and the state it left.\<close>

lemma app_balance_same: "c\<lparr>app_balance := app_balance c\<rparr> = c"
  by (cases c) simp

lemma escape_clock_same: "c\<lparr>escape_deadline := escape_deadline c, escape_progress := escape_progress c\<rparr> = c"
  by (cases c) simp

lemma itxn_payment_effect:
  assumes "itxn_payment A receiver amt c = Inr c'"
  shows "\<exists>left. c' = c\<lparr>app_balance := left, app_payments := app_payments c @ [(receiver, amt)]\<rparr>
    \<and> avm_delivers A receiver amt \<and> app_balance c \<le> left + unat amt \<and> app_min_balance c \<le> left"
proof (cases "receiver = avm_app_address A")
  case True
  with assms show ?thesis
    by (intro exI [of _ "app_balance c"]) (auto simp: itxn_payment_def Let_def app_balance_same split: if_splits)
next
  case False
  with assms show ?thesis by (auto simp: itxn_payment_def Let_def split: if_splits)
qed

lemma credit_escape_progress_effect:
  assumes "credit_escape_progress d c = Inr c'"
  shows "\<exists>deadline progress. c' = c\<lparr>escape_deadline := deadline, escape_progress := progress\<rparr>
    \<and> (deadline = None \<longleftrightarrow> escape_deadline c = None) \<and> (progress = None \<longrightarrow> escape_progress c = None)
    \<and> (escape_deadline c = None \<longrightarrow> progress = escape_progress c)"
proof (cases "escape_deadline c")
  case None
  with assms show ?thesis
    by (intro exI [of _ "escape_deadline c"] exI [of _ "escape_progress c"])
       (simp add: credit_escape_progress_def escape_clock_same)
next
  case (Some dl)
  with assms obtain so_far progress where "escape_progress c = Some so_far"
    and "(\<exists>extended. c' = c\<lparr>escape_deadline := Some extended, escape_progress := Some 0\<rparr>)
      \<or> c' = c\<lparr>escape_progress := Some progress\<rparr>"
    by (auto simp: credit_escape_progress_def contract_Inr_iffs split: if_splits)
  moreover have "c\<lparr>escape_progress := Some progress\<rparr> = c\<lparr>escape_deadline := Some dl, escape_progress := Some progress\<rparr>"
    using Some by (cases c) simp
  ultimately show ?thesis using Some by auto
qed

text \<open>The calls that move no money and leave the inbox alone.\<close>

lemma security_council_escape_effect:
  assumes "security_council_escape t c = Inr c'"
  shows "\<not> escaped c \<and> call_sender t = security_council c
    \<and> c' = (let d = (delete_signal (c\<lparr>escaped := True\<rparr>))
           \<lparr>pending_verifier_address := None, pending_program_vkey_hash := None, pending_recursion_vkey_root := None,
            verifier_update_after := None, application_update_after := None, pending_approval_program_hash := None\<rparr>
         in if batch_length c = None then d else delete_batch d)"
  using assms by (auto simp: security_council_escape_def assert_security_council_def contract_Inr_iffs Let_def delete_signal_def)

lemma execute_escape_effect:
  assumes "execute_escape t c = Inr c'"
  shows "\<not> escaped c \<and> (\<exists>deadline. escape_deadline c = Some deadline \<and> deadline < call_round t)
    \<and> c' = (let d = delete_signal (c\<lparr>escaped := True\<rparr>) in if batch_length c = None then d else delete_batch d)"
  using assms by (auto simp: execute_escape_def contract_Inr_iffs Let_def delete_signal_def)

lemma signal_escape_effect:
  assumes "signal_escape t c = Inr c'"
  shows "\<not> escaped c \<and> settled_inbox_cursor c < inbox_cursor c
    \<and> (\<exists>deadline. c' = c\<lparr>escape_inbox_target := Some (inbox_cursor c), escape_progress := Some 0,
         escape_deadline := Some deadline\<rparr>)"
  using assms by (auto simp: signal_escape_def contract_Inr_iffs)

lemma schedule_verifier_update_effect:
  assumes "schedule_verifier_update t v p r c = Inr c'"
  shows "\<exists>after. c' = c\<lparr>pending_verifier_address := Some v, pending_program_vkey_hash := Some p,
      pending_recursion_vkey_root := Some r, verifier_update_after := Some after\<rparr>"
  using assms by (auto simp: schedule_verifier_update_def contract_Inr_iffs)

lemma execute_verifier_update_effect:
  assumes "execute_verifier_update t c = Inr c'"
  shows "\<exists>v p r. c' = c\<lparr>verifier_address := v, program_vkey_hash := p, recursion_vkey_root := r,
      pending_verifier_address := None, pending_program_vkey_hash := None, pending_recursion_vkey_root := None,
      verifier_update_after := None\<rparr>"
  using assms by (auto simp: execute_verifier_update_def contract_Inr_iffs)

lemma schedule_application_update_effect:
  assumes "schedule_application_update t h c = Inr c'"
  shows "\<exists>after. c' = c\<lparr>pending_approval_program_hash := Some h, application_update_after := Some after\<rparr>"
  using assms by (auto simp: schedule_application_update_def contract_Inr_iffs)

lemma abandon_batch_effect: "abandon_batch A t c = Inr c' \<Longrightarrow> c' = delete_batch c"
  by (auto simp: abandon_batch_def contract_Inr_iffs)

lemma open_batch_effect:
  assumes "open_batch A t len target c = Inr c'"
  shows "\<exists>sealed. c' = c\<lparr>chunk_accumulator := Some (avm_sha256 A (ascii ''BATCH'' @ bytes_of (contract_domain A) @ to_be_bytes len)),
      batch_length := Some len, posted_length := Some 0, sealed_inbox_chain := Some sealed, sealed_inbox_cursor := Some target\<rparr>
    \<and> \<not> escaped c \<and> batch_length c = None \<and> pending_withdrawals c = None
    \<and> unat (settled_inbox_cursor c) \<le> unat target \<and> unat target \<le> unat (inbox_cursor c)
    \<and> (if target = settled_inbox_cursor c then sealed = settled_inbox_chain c
       else \<exists>last entry. unat last + 1 = unat target \<and> inbox_boxes c last = Some entry \<and> sealed = record_chain_after entry)"
  using assms by (auto simp: open_batch_def contract_Inr_iffs word_le_nat_alt split: if_splits)

lemma contract_accumulate_chunk_effect:
  assumes "contract_accumulate_chunk A t chunk c = Inr c'"
  shows "\<exists>len posted accumulator posted'. batch_length c = Some len \<and> posted_length c = Some posted
    \<and> chunk_accumulator c = Some accumulator \<and> unat posted < unat len
    \<and> length chunk = min CHUNK_SIZE (unat len - unat posted) \<and> unat posted' = unat posted + length chunk
    \<and> c' = c\<lparr>chunk_accumulator := Some (avm_sha256 A (ascii ''CHUNK'' @ bytes_of accumulator @ bytes_of (avm_sha256 A chunk))),
         posted_length := Some posted'\<rparr>"
proof -
  from assms obtain len posted accumulator posted' remaining where 1: "batch_length c = Some len" "posted_length c = Some posted"
      "chunk_accumulator c = Some accumulator" "posted < len" "unat remaining + unat posted = unat len"
      "unat posted' = unat posted + unat (of_nat (length chunk) :: u64)"
    and len: "length chunk = unat (if remaining < CONTRACT_CHUNK_SIZE then remaining else CONTRACT_CHUNK_SIZE)"
    and c': "c' = c\<lparr>chunk_accumulator := Some (avm_sha256 A (ascii ''CHUNK'' @ bytes_of accumulator @ bytes_of (avm_sha256 A chunk))),
         posted_length := Some posted'\<rparr>"
    unfolding contract_accumulate_chunk_def contract_Inr_iffs Let_def by blast
  have "unat CONTRACT_CHUNK_SIZE = 4094" by (simp add: CONTRACT_CHUNK_SIZE_def)
  with len have "length chunk = min CHUNK_SIZE (unat remaining)"
    by (simp add: word_less_nat_alt min_def)
  with 1 c' show ?thesis by (auto simp: word_less_nat_alt unat_of_nat min_def)
qed

text \<open>The inbox. A box at the cursor would be free of charge; \<open>inbox_kept\<close> says there is none.\<close>

definition inbox_charge :: "avm \<Rightarrow> contract \<Rightarrow> nat" where
  "inbox_charge A c = (if inbox_boxes c (inbox_cursor c) = None then unat (avm_inbox_box_cost A) else 0)"

definition appended :: "u64 \<Rightarrow> nat \<Rightarrow> nat \<Rightarrow> inbox_record \<Rightarrow> contract \<Rightarrow> contract" where
  "appended next_index paid charge entry c =
     c\<lparr>app_balance := app_balance c + paid, app_min_balance := app_min_balance c + charge,
       inbox_boxes := (inbox_boxes c)(inbox_cursor c \<mapsto> entry),
       live_inbox_chain := record_chain_after entry, inbox_cursor := next_index\<rparr>"

lemma inbox_box_create_parts:
  "inbox_box_create A (inbox_cursor c) c = c\<lparr>app_min_balance := app_min_balance c + inbox_charge A c\<rparr>"
  by (cases c) (simp add: inbox_box_create_def inbox_charge_def)

lemma inbox_charge_word: "of_nat (app_min_balance c + inbox_charge A c - app_min_balance c)
    = (if inbox_boxes c (inbox_cursor c) = None then avm_inbox_box_cost A else 0)"
  by (simp add: inbox_charge_def)

lemma inbox_charge_cong: "inbox_boxes d = inbox_boxes c \<Longrightarrow> inbox_cursor d = inbox_cursor c \<Longrightarrow>
    inbox_charge A d = inbox_charge A c"
  by (simp add: inbox_charge_def)

lemma contract_deposit_effect:
  assumes "contract_deposit A t payment recipient c = Inr (i, c')"
  shows "\<exists>amt next_index. \<not> escaped c \<and> i = inbox_cursor c \<and> unat amt + inbox_charge A c = unat (pay_amount payment)
    \<and> unat next_index = unat (inbox_cursor c) + 1
    \<and> c' = appended next_index (unat (pay_amount payment)) (inbox_charge A c)
        \<lparr>record_kind = ascii ''d'', record_address = recipient, record_recipient = zero32, record_amount = amt,
         record_payer = pay_sender payment, record_round = call_round t,
         record_chain_after = avm_sha256 A (inbox_step (live_inbox_chain c) (InboxDeposit recipient amt))\<rparr> c"
proof -
  let ?d = "c\<lparr>app_balance := app_balance c + unat (pay_amount payment)\<rparr>"
  have charge: "inbox_charge A ?d = inbox_charge A c" by (simp add: inbox_charge_def)
  have word: "unat (of_nat (inbox_charge A c) :: u64) = inbox_charge A c" by (simp add: inbox_charge_def)
  have create: "inbox_box_create A (inbox_cursor c) ?d
      = c\<lparr>app_balance := app_balance c + unat (pay_amount payment), app_min_balance := app_min_balance c + inbox_charge A c\<rparr>"
    using inbox_box_create_parts [of A ?d] charge by simp
  from assms show ?thesis
    by (auto simp: contract_deposit_def contract_Inr_iffs Let_def receive_payment_def create word
        append_record_def end_of_call_def appended_def split: if_splits)
qed

lemma request_withdrawal_effect:
  assumes "request_withdrawal A t payment n address recipient scheme key sig c = Inr (i, c')"
  shows "\<exists>next_index next_nonce. \<not> escaped c \<and> i = inbox_cursor c \<and> inbox_charge A c = unat (pay_amount payment)
    \<and> unat next_index = unat (inbox_cursor c) + 1
    \<and> c' = (appended next_index (unat (pay_amount payment)) (inbox_charge A c)
        \<lparr>record_kind = ascii ''w'', record_address = address, record_recipient = recipient, record_amount = 0,
         record_payer = pay_sender payment, record_round = call_round t,
         record_chain_after = avm_sha256 A (inbox_step (live_inbox_chain c) (InboxForcedWithdrawal address recipient))\<rparr> c)
         \<lparr>request_cursor := next_nonce\<rparr>"
proof -
  let ?d = "c\<lparr>app_balance := app_balance c + unat (pay_amount payment)\<rparr>"
  have charge: "inbox_charge A ?d = inbox_charge A c" by (simp add: inbox_charge_def)
  have word: "unat (of_nat (inbox_charge A c) :: u64) = inbox_charge A c" by (simp add: inbox_charge_def)
  have create: "inbox_box_create A (inbox_cursor c) ?d
      = c\<lparr>app_balance := app_balance c + unat (pay_amount payment), app_min_balance := app_min_balance c + inbox_charge A c\<rparr>"
    using inbox_box_create_parts [of A ?d] charge by simp
  from assms show ?thesis
    by (auto simp: request_withdrawal_def contract_Inr_iffs Let_def receive_payment_def create word
        append_record_def end_of_call_def appended_def split: if_splits)
qed

text \<open>Deleting a box that is there releases what the account is held to for it, at most its cost.\<close>

definition box_removed :: "u64 \<Rightarrow> nat \<Rightarrow> nat \<Rightarrow> (l1_address \<times> u64) \<Rightarrow> contract \<Rightarrow> contract" where
  "box_removed i released left p c =
     c\<lparr>inbox_boxes := (inbox_boxes c)(i := None), app_min_balance := app_min_balance c - released,
       app_balance := left, app_payments := app_payments c @ [p]\<rparr>"

definition box_release :: "avm \<Rightarrow> contract \<Rightarrow> nat" where
  "box_release A c = app_min_balance c - (app_min_balance c - unat (avm_inbox_box_cost A))"

lemma box_release_word: "unat (of_nat (box_release A c) :: u64) = box_release A c"
proof -
  have "box_release A c \<le> unat (avm_inbox_box_cost A)" by (simp add: box_release_def)
  also have "\<dots> < 2 ^ 64" using unat_u64_bound by simp
  finally show ?thesis by (simp add: unat_of_nat)
qed

lemma box_release_le: "box_release A c \<le> app_min_balance c"
  by (simp add: box_release_def)

lemma box_release_rest: "app_min_balance c - box_release A c = app_min_balance c - unat (avm_inbox_box_cost A)"
  by (simp add: box_release_def)

lemma prune_effect:
  assumes "prune_request A i c = Inr c' \<or> prune_deposit A i c = Inr c'"
  shows "\<exists>entry left. inbox_boxes c i = Some entry
    \<and> (i < settled_inbox_cursor c \<or> escaped c \<and> record_kind entry = ascii ''w'')
    \<and> c' = box_removed i (box_release A c) left (record_payer entry, of_nat (box_release A c)) c
    \<and> app_balance c \<le> left + box_release A c \<and> app_min_balance c - box_release A c \<le> left"
  using assms
  by (auto simp: prune_request_def prune_deposit_def contract_Inr_iffs Let_def inbox_box_delete_def
      box_removed_def box_release_rest box_release_word simp del: of_nat_diff simp flip: box_release_def
      dest!: itxn_payment_effect)

lemma reclaim_deposit_effect:
  assumes "reclaim_deposit A i c = Inr c'"
  shows "\<exists>entry amt left. escaped c \<and> unat (settled_inbox_cursor c) \<le> unat i \<and> inbox_boxes c i = Some entry
    \<and> record_kind entry = ascii ''d'' \<and> unat amt = unat (record_amount entry) + box_release A c
    \<and> c' = box_removed i (box_release A c) left (record_payer entry, amt) c
    \<and> app_balance c \<le> left + unat amt \<and> app_min_balance c - box_release A c \<le> left"
proof -
  obtain entry amt where facts: "escaped c \<and> unat (settled_inbox_cursor c) \<le> unat i \<and> inbox_boxes c i = Some entry
    \<and> record_kind entry = ascii ''d'' \<and> unat amt = unat (record_amount entry) + box_release A c
    \<and> itxn_payment A (record_payer entry) amt
        (c\<lparr>inbox_boxes := (inbox_boxes c)(i := None), app_min_balance := app_min_balance c - box_release A c\<rparr>) = Inr c'"
      (is "_ \<and> _ \<and> _ \<and> _ \<and> _ \<and> ?pay")
    using assms that
    by (auto simp: reclaim_deposit_def contract_Inr_iffs Let_def inbox_box_delete_def word_le_nat_alt
        box_release_rest box_release_word simp del: of_nat_diff simp flip: box_release_def)
  then have ?pay by blast
  from itxn_payment_effect [OF this] obtain left where
    "c' = box_removed i (box_release A c) left (record_payer entry, amt) c"
    "app_balance c \<le> left + unat amt" "app_min_balance c - box_release A c \<le> left"
    by (auto simp: box_removed_def)
  with facts show ?thesis by blast
qed

text \<open>A payout: the head of the chain must be the step over it.\<close>

lemma escape_clock_kept:
  "c\<lparr>pending_withdrawals := w, escape_deadline := escape_deadline c, escape_progress := escape_progress c\<rparr>
     = c\<lparr>pending_withdrawals := w\<rparr>"
  by (cases c) simp

lemma pay_withdrawal_effect:
  assumes "pay_withdrawal A t recipient amt tail c = Inr c'"
  shows "\<exists>left deadline progress. pending_withdrawals c = Some (avm_sha256 A (payout_step tail (recipient, amt)))
    \<and> avm_delivers A recipient amt
    \<and> c' = c\<lparr>pending_withdrawals := (if tail = withdrawal_terminal A then None else Some tail),
         escape_deadline := deadline, escape_progress := progress,
         app_balance := left, app_payments := app_payments c @ [(recipient, amt)]\<rparr>
    \<and> app_balance c \<le> left + unat amt \<and> app_min_balance c \<le> left
    \<and> (deadline = None \<longleftrightarrow> escape_deadline c = None) \<and> (progress = None \<longrightarrow> escape_progress c = None)
    \<and> (escape_deadline c = None \<longrightarrow> progress = escape_progress c)"
proof -
  define rest where "rest = (if tail = withdrawal_terminal A then None else Some tail)"
  let ?c1 = "c\<lparr>pending_withdrawals := rest\<rparr>"
  from assms obtain c2 where head: "pending_withdrawals c = Some (avm_sha256 A (payout_step tail (recipient, amt)))"
    and c2: "(if call_sender t = avm_creator A then credit_escape_progress 1 ?c1 else Inr ?c1) = Inr c2"
    and pay: "itxn_payment A recipient amt c2 = Inr c'"
    by (auto simp: pay_withdrawal_def contract_Inr_iffs payout_step_def Let_def simp flip: rest_def)
  obtain deadline progress where escape: "c2 = ?c1\<lparr>escape_deadline := deadline, escape_progress := progress\<rparr>
    \<and> (deadline = None \<longleftrightarrow> escape_deadline c = None) \<and> (progress = None \<longrightarrow> escape_progress c = None)
    \<and> (escape_deadline c = None \<longrightarrow> progress = escape_progress c)"
  proof (cases "call_sender t = avm_creator A")
    case True
    with c2 have "credit_escape_progress 1 ?c1 = Inr c2" by simp
    from credit_escape_progress_effect [OF this] have
      "\<exists>d p. c2 = ?c1\<lparr>escape_deadline := d, escape_progress := p\<rparr>
        \<and> (d = None \<longleftrightarrow> escape_deadline c = None) \<and> (p = None \<longrightarrow> escape_progress c = None)
        \<and> (escape_deadline c = None \<longrightarrow> p = escape_progress c)" by simp
    then show ?thesis by (elim exE) (rule that)
  next
    case False
    with c2 have "c2 = ?c1" by simp
    then show ?thesis
      by (intro that [where deadline = "escape_deadline c" and progress = "escape_progress c"]) (simp only: escape_clock_kept simp_thms)
  qed
  from itxn_payment_effect [OF pay] obtain left where
    "c' = c2\<lparr>app_balance := left, app_payments := app_payments c2 @ [(recipient, amt)]\<rparr>"
    "avm_delivers A recipient amt" "app_balance c2 \<le> left + unat amt" "app_min_balance c2 \<le> left"
    by blast
  with head escape show ?thesis
    by (intro exI [of _ left] exI [of _ deadline] exI [of _ progress]) (simp add: rest_def)
qed

lemma exit_box_write_parts:
  assumes "exits c address = None"
  shows "exit_box_write A address amt c =
    c\<lparr>exits := (exits c)(address \<mapsto> amt), app_min_balance := app_min_balance c + unat (avm_exit_box_cost A)\<rparr>"
  using assms by (simp add: exit_box_write_def)

lemma force_exit_effect:
  assumes "force_exit A address n amt auth scheme key sig recipient sibs c = Inr c'"
  shows "\<exists>left charge payout. escaped c \<and> exits c address = None
    \<and> length sibs div 32 \<le> 256
    \<and> exit_climb A address sibs (length sibs div 32)
        (avm_sha256 A (leaf_preimage address (account_new n amt auth))) = contract_root c
    \<and> unat payout + charge = unat amt
    \<and> c' = c\<lparr>exits := (exits c)(address \<mapsto> amt), app_min_balance := app_min_balance c + charge,
         app_balance := left, app_payments := app_payments c @ [(recipient, payout)]\<rparr>
    \<and> app_balance c \<le> left + unat payout \<and> app_min_balance c + charge \<le> left"
proof -
  let ?charge = "unat (avm_exit_box_cost A)"
  obtain payout where facts: "escaped c" "exits c address = None" "length sibs div 32 \<le> 256"
      "exit_climb A address sibs (length sibs div 32)
        (avm_sha256 A (leaf_preimage address (account_new n amt auth))) = contract_root c"
      "unat payout + ?charge = unat amt"
    and pay: "itxn_payment A recipient payout
      (c\<lparr>exits := (exits c)(address \<mapsto> amt), app_min_balance := app_min_balance c + ?charge\<rparr>) = Inr c'"
    using assms
    by (auto simp: force_exit_def contract_Inr_iffs Let_def exit_box_write_parts leaf_preimage_def
        encode_account_eq account_new_def)
  from itxn_payment_effect [OF pay] obtain left where
    "c' = c\<lparr>exits := (exits c)(address \<mapsto> amt), app_min_balance := app_min_balance c + ?charge,
         app_balance := left, app_payments := app_payments c @ [(recipient, payout)]\<rparr>"
    "app_balance c \<le> left + unat payout" "app_min_balance c + ?charge \<le> left"
    by auto
  with facts show ?thesis
    by (intro exI [of _ left] exI [of _ ?charge] exI [of _ payout]) simp
qed

text \<open>A settlement: the six words it compared, and what is left of an accusation.\<close>

lemma escape_answer_effect:
  assumes "(case escape_inbox_target d of None \<Rightarrow> Inr d
      | Some target \<Rightarrow>
          if cursor \<ge> target then Inr (delete_signal d)
          else and_then (minus64 cursor before) (\<lambda>discharged. credit_escape_progress discharged d)) = Inr c'"
  shows "\<exists>deadline target progress.
      c' = d\<lparr>escape_deadline := deadline, escape_inbox_target := target, escape_progress := progress\<rparr>
    \<and> (signal_kept d \<longrightarrow> (deadline = None \<longleftrightarrow> target = None) \<and> (deadline = None \<longleftrightarrow> progress = None))"
proof (cases "escape_inbox_target d")
  case None
  with assms have "c' = d\<lparr>escape_deadline := escape_deadline d, escape_inbox_target := escape_inbox_target d,
      escape_progress := escape_progress d\<rparr>" by (cases d) simp
  then show ?thesis
    by (intro exI [of _ "escape_deadline d"] exI [of _ "escape_inbox_target d"] exI [of _ "escape_progress d"])
       (auto simp: signal_kept_def)
next
  case (Some target)
  show ?thesis
  proof (cases "cursor \<ge> target")
    case True
    with assms Some have "c' = d\<lparr>escape_deadline := None, escape_inbox_target := None, escape_progress := None\<rparr>"
      by (simp add: delete_signal_def)
    then show ?thesis by (intro exI [of _ None]) simp
  next
    case False
    with assms Some obtain discharged where "credit_escape_progress discharged d = Inr c'"
      by (auto simp: contract_Inr_iffs)
    from credit_escape_progress_effect [OF this] obtain deadline progress where
      c': "c' = d\<lparr>escape_deadline := deadline, escape_progress := progress\<rparr>"
      and none: "deadline = None \<longleftrightarrow> escape_deadline d = None" "progress = None \<longrightarrow> escape_progress d = None"
        "escape_deadline d = None \<longrightarrow> progress = escape_progress d"
      by (elim exE conjE) (rule that)
    have "c' = d\<lparr>escape_deadline := deadline, escape_inbox_target := escape_inbox_target d, escape_progress := progress\<rparr>"
      by (simp add: c')
    moreover have "(deadline = None \<longleftrightarrow> escape_inbox_target d = None) \<and> (deadline = None \<longleftrightarrow> progress = None)"
      if "signal_kept d" using that none by (auto simp: signal_kept_def)
    ultimately show ?thesis by (intro exI conjI) (assumption | blast)+
  qed
qed

definition settled_state :: "avm \<Rightarrow> byte list \<Rightarrow> bytes32 \<Rightarrow> u64 \<Rightarrow> contract \<Rightarrow> contract" where
  "settled_state A vals sealed cursor c =
     delete_batch (c\<lparr>contract_root := b32 (slice 32 64 vals), settled_inbox_chain := sealed, settled_inbox_cursor := cursor,
       pending_withdrawals := (if b32 (slice 160 192 vals) \<noteq> withdrawal_terminal A then Some (b32 (slice 160 192 vals))
         else pending_withdrawals c)\<rparr>)"

lemma contract_verify_batch_steps:
  assumes "contract_verify_batch A t verifier signals vals c = Inr c'"
  obtains len sealed cursor where "\<not> escaped c" "batch_length c = Some len" "posted_length c = Some len"
      "sealed_inbox_chain c = Some sealed" "sealed_inbox_cursor c = Some cursor"
      "b32 (slice 0 32 vals) = contract_root c" "chunk_accumulator c = Some (b32 (slice 64 96 vals))"
      "b32 (slice 96 128 vals) = settled_inbox_chain c" "b32 (slice 128 160 vals) = sealed"
    and "(case escape_inbox_target (settled_state A vals sealed cursor c) of None \<Rightarrow> Inr (settled_state A vals sealed cursor c)
      | Some target \<Rightarrow>
          if cursor \<ge> target then Inr (delete_signal (settled_state A vals sealed cursor c))
          else and_then (minus64 cursor (settled_inbox_cursor c))
            (\<lambda>discharged. credit_escape_progress discharged (settled_state A vals sealed cursor c))) = Inr c'"
  using assms unfolding contract_verify_batch_def contract_Inr_iffs Let_def settled_state_def
  by (elim exE conjE) (rule that, simp_all only: option.inject settled_state_def simp_thms)

lemma contract_verify_batch_effect:
  assumes "contract_verify_batch A t verifier signals vals c = Inr c'"
  shows "\<exists>len sealed cursor deadline target progress. \<not> escaped c \<and> batch_length c = Some len \<and> posted_length c = Some len
    \<and> sealed_inbox_chain c = Some sealed \<and> sealed_inbox_cursor c = Some cursor
    \<and> b32 (slice 0 32 vals) = contract_root c \<and> chunk_accumulator c = Some (b32 (slice 64 96 vals))
    \<and> b32 (slice 96 128 vals) = settled_inbox_chain c \<and> b32 (slice 128 160 vals) = sealed
    \<and> c' = (settled_state A vals sealed cursor c)
         \<lparr>escape_deadline := deadline, escape_inbox_target := target, escape_progress := progress\<rparr>
    \<and> (signal_kept c \<longrightarrow> (deadline = None \<longleftrightarrow> target = None) \<and> (deadline = None \<longleftrightarrow> progress = None))"
proof -
  obtain len sealed cursor where facts: "\<not> escaped c" "batch_length c = Some len" "posted_length c = Some len"
      "sealed_inbox_chain c = Some sealed" "sealed_inbox_cursor c = Some cursor"
      "b32 (slice 0 32 vals) = contract_root c" "chunk_accumulator c = Some (b32 (slice 64 96 vals))"
      "b32 (slice 96 128 vals) = settled_inbox_chain c" "b32 (slice 128 160 vals) = sealed"
    and rest: "(case escape_inbox_target (settled_state A vals sealed cursor c) of None \<Rightarrow> Inr (settled_state A vals sealed cursor c)
      | Some target \<Rightarrow>
          if cursor \<ge> target then Inr (delete_signal (settled_state A vals sealed cursor c))
          else and_then (minus64 cursor (settled_inbox_cursor c))
            (\<lambda>discharged. credit_escape_progress discharged (settled_state A vals sealed cursor c))) = Inr c'"
    by (rule contract_verify_batch_steps [OF assms]) (rule that)
  have "signal_kept (settled_state A vals sealed cursor c) = signal_kept c"
    by (simp add: signal_kept_def settled_state_def delete_batch_def)
  note answer = escape_answer_effect [OF rest, unfolded this]
  show ?thesis
    by (insert answer facts) (elim exE conjE, intro exI conjI, assumption+)
qed

end
