(* ===== verification/Contract_Kept.thy ===== *)
theory Contract_Kept
  imports Contract_Calls
begin

text \<open>Every call keeps the state well kept, and a well-kept state never misses a value it reads.\<close>

definition well_kept :: "contract \<Rightarrow> bool" where
  "well_kept c \<longleftrightarrow> batch_kept c \<and> signal_kept c \<and> updates_kept c \<and> inbox_kept c"

lemma well_keptI:
  "batch_kept c \<Longrightarrow> signal_kept c \<Longrightarrow> updates_kept c \<Longrightarrow> inbox_kept c \<Longrightarrow> well_kept c"
  by (simp add: well_kept_def)

lemma well_keptD:
  "well_kept c \<Longrightarrow> batch_kept c" "well_kept c \<Longrightarrow> signal_kept c" "well_kept c \<Longrightarrow> updates_kept c" "well_kept c \<Longrightarrow> inbox_kept c"
  by (simp_all add: well_kept_def)

lemma batch_kept_None: "batch_length c = None \<Longrightarrow> batch_kept c \<longleftrightarrow>
    chunk_accumulator c = None \<and> posted_length c = None \<and> sealed_inbox_chain c = None \<and> sealed_inbox_cursor c = None"
  by (simp add: batch_kept_def)

lemma batch_kept_Some: "batch_length c = Some len \<Longrightarrow> batch_kept c \<longleftrightarrow>
    \<not> escaped c \<and> pending_withdrawals c = None \<and> chunk_accumulator c \<noteq> None \<and> sealed_inbox_chain c \<noteq> None
    \<and> (\<exists>posted. posted_length c = Some posted \<and> unat posted \<le> unat len)
    \<and> (\<exists>cursor. sealed_inbox_cursor c = Some cursor \<and> unat (settled_inbox_cursor c) \<le> unat cursor
         \<and> unat cursor \<le> unat (inbox_cursor c))"
  by (simp add: batch_kept_def)

lemma inbox_keptD:
  assumes "inbox_kept c"
  shows "unat (settled_inbox_cursor c) \<le> unat (inbox_cursor c)"
    and "inbox_boxes c i = Some entry \<Longrightarrow> unat i < unat (inbox_cursor c)"
    and "\<not> escaped c \<Longrightarrow> exits c = Map.empty"
    and "\<not> escaped c \<Longrightarrow> unat (settled_inbox_cursor c) \<le> unat i \<Longrightarrow> unat i < unat (inbox_cursor c) \<Longrightarrow>
      \<exists>entry. inbox_boxes c i = Some entry"
  using assms unfolding inbox_kept_def by blast+

lemma inbox_keptI:
  assumes "unat (settled_inbox_cursor c) \<le> unat (inbox_cursor c)"
    and "\<And>i entry. inbox_boxes c i = Some entry \<Longrightarrow> unat i < unat (inbox_cursor c)"
    and "\<not> escaped c \<Longrightarrow> exits c = Map.empty"
    and "\<And>i. \<not> escaped c \<Longrightarrow> unat (settled_inbox_cursor c) \<le> unat i \<Longrightarrow> unat i < unat (inbox_cursor c) \<Longrightarrow>
      inbox_boxes c i \<noteq> None"
  shows "inbox_kept c"
  using assms unfolding inbox_kept_def by blast

lemma delete_batch_kept:
  "batch_kept (delete_batch c)" "signal_kept (delete_batch c) \<longleftrightarrow> signal_kept c"
  "updates_kept (delete_batch c) \<longleftrightarrow> updates_kept c" "inbox_kept (delete_batch c) \<longleftrightarrow> inbox_kept c"
  by (simp_all add: kept_defs delete_batch_def)

lemma freeze_kept:
  assumes "well_kept c"
  shows "well_kept (let d = delete_signal (c\<lparr>escaped := True\<rparr>) in if batch_length c = None then d else delete_batch d)"
proof -
  let ?d = "delete_signal (c\<lparr>escaped := True\<rparr>)"
  have "signal_kept ?d" by (simp add: signal_kept_def delete_signal_def)
  moreover have "updates_kept ?d" using well_keptD(3) [OF assms] by (simp add: updates_kept_def delete_signal_def)
  moreover have "inbox_kept ?d" using well_keptD(4) [OF assms] by (simp add: inbox_kept_def delete_signal_def)
  moreover have "batch_kept ?d" if "batch_length c = None"
    using well_keptD(1) [OF assms] that by (simp add: batch_kept_def delete_signal_def)
  ultimately show ?thesis by (simp add: Let_def well_kept_def delete_batch_kept)
qed

lemma appended_kept:
  assumes "well_kept c" and next_index: "unat next_index = unat (inbox_cursor c) + 1"
  shows "well_kept (appended next_index paid charge entry c)"
proof (rule well_keptI)
  let ?c' = "appended next_index paid charge entry c"
  show "signal_kept ?c'" using well_keptD(2) [OF assms(1)] by (auto simp: signal_kept_def appended_def)
  show "updates_kept ?c'" using well_keptD(3) [OF assms(1)] by (simp add: updates_kept_def appended_def)
  show "batch_kept ?c'"
    using well_keptD(1) [OF assms(1)] next_index
    by (cases "batch_length c") (auto simp: batch_kept_None batch_kept_Some appended_def)
  note old = inbox_keptD [OF well_keptD(4) [OF assms(1)]]
  have fields: "settled_inbox_cursor ?c' = settled_inbox_cursor c" "inbox_cursor ?c' = next_index"
    "escaped ?c' = escaped c" "exits ?c' = exits c" "inbox_boxes ?c' = (inbox_boxes c)(inbox_cursor c \<mapsto> entry)"
    by (simp_all add: appended_def)
  show "inbox_kept ?c'"
  proof (rule inbox_keptI, unfold fields)
    show "unat (settled_inbox_cursor c) \<le> unat next_index" using old(1) next_index by simp
    show "exits c = Map.empty" if "\<not> escaped c" using old(3) that .
    show "unat i < unat next_index" if "((inbox_boxes c)(inbox_cursor c \<mapsto> entry)) i = Some e" for i e
      using that old(2) [of i e] next_index by (cases "i = inbox_cursor c") simp_all
    show "((inbox_boxes c)(inbox_cursor c \<mapsto> entry)) i \<noteq> None"
      if "\<not> escaped c" "unat (settled_inbox_cursor c) \<le> unat i" "unat i < unat next_index" for i
    proof (cases "i = inbox_cursor c")
      case False
      then have "unat i \<noteq> unat (inbox_cursor c)" by (simp add: word_unat_eq_iff)
      with that next_index have "unat i < unat (inbox_cursor c)" by simp
      with old(4) [OF that(1,2)] False show ?thesis by auto
    qed simp
  qed
qed

lemma box_removed_kept:
  assumes "well_kept c" and out: "i < settled_inbox_cursor c \<or> escaped c"
  shows "well_kept (box_removed i released left p c)"
proof (rule well_keptI)
  let ?c' = "box_removed i released left p c"
  show "signal_kept ?c'" using well_keptD(2) [OF assms(1)] by (auto simp: signal_kept_def box_removed_def)
  show "updates_kept ?c'" using well_keptD(3) [OF assms(1)] by (simp add: updates_kept_def box_removed_def)
  show "batch_kept ?c'" using well_keptD(1) [OF assms(1)] by (simp add: batch_kept_def box_removed_def)
  note old = inbox_keptD [OF well_keptD(4) [OF assms(1)]]
  have fields: "settled_inbox_cursor ?c' = settled_inbox_cursor c" "inbox_cursor ?c' = inbox_cursor c"
    "escaped ?c' = escaped c" "exits ?c' = exits c" "inbox_boxes ?c' = (inbox_boxes c)(i := None)"
    by (simp_all add: box_removed_def)
  show "inbox_kept ?c'"
  proof (rule inbox_keptI, unfold fields)
    show "unat (settled_inbox_cursor c) \<le> unat (inbox_cursor c)" by (rule old(1))
    show "exits c = Map.empty" if "\<not> escaped c" using old(3) that .
    show "unat k < unat (inbox_cursor c)" if "((inbox_boxes c)(i := None)) k = Some e" for k e
      using that old(2) [of k e] by (cases "k = i") simp_all
    show "((inbox_boxes c)(i := None)) k \<noteq> None"
      if "\<not> escaped c" "unat (settled_inbox_cursor c) \<le> unat k" "unat k < unat (inbox_cursor c)" for k
      using old(4) [OF that] out that by (cases "k = i") (auto simp: word_less_nat_alt)
  qed
qed

text \<open>Updates of fields the four predicates do not read, or read only through others.\<close>

lemma payout_kept:
  assumes "well_kept c" and "batch_length c = None"
    and "deadline = None \<longleftrightarrow> escape_deadline c = None" "progress = None \<longrightarrow> escape_progress c = None"
      "escape_deadline c = None \<longrightarrow> progress = escape_progress c"
  shows "well_kept (c\<lparr>pending_withdrawals := w, escape_deadline := deadline, escape_progress := progress,
      app_balance := left, app_payments := ps\<rparr>)"
proof (rule well_keptI)
  let ?c' = "c\<lparr>pending_withdrawals := w, escape_deadline := deadline, escape_progress := progress,
      app_balance := left, app_payments := ps\<rparr>"
  show "signal_kept ?c'" using well_keptD(2) [OF assms(1)] assms(3-5) by (auto simp: signal_kept_def)
  show "updates_kept ?c'" using well_keptD(3) [OF assms(1)] by (simp add: updates_kept_def)
  show "batch_kept ?c'" using well_keptD(1) [OF assms(1)] assms(2) by (simp add: batch_kept_def)
  show "inbox_kept ?c'" using well_keptD(4) [OF assms(1)] by (simp add: inbox_kept_def)
qed

lemma settled_kept:
  assumes "well_kept c" and "\<not> escaped c" and "sealed_inbox_cursor c = Some cursor"
    and "(deadline = None \<longleftrightarrow> target = None) \<and> (deadline = None \<longleftrightarrow> progress = None)"
  shows "well_kept ((settled_state A vals sealed cursor c)
      \<lparr>escape_deadline := deadline, escape_inbox_target := target, escape_progress := progress\<rparr>)"
proof (rule well_keptI)
  let ?c' = "(settled_state A vals sealed cursor c)
      \<lparr>escape_deadline := deadline, escape_inbox_target := target, escape_progress := progress\<rparr>"
  have cursor: "unat (settled_inbox_cursor c) \<le> unat cursor" "unat cursor \<le> unat (inbox_cursor c)"
    using well_keptD(1) [OF assms(1)] assms(3)
    by (cases "batch_length c"; simp add: batch_kept_None batch_kept_Some)+
  show "signal_kept ?c'" using assms(2,4) by (auto simp: signal_kept_def settled_state_def delete_batch_def)
  show "updates_kept ?c'" using well_keptD(3) [OF assms(1)] by (simp add: updates_kept_def settled_state_def delete_batch_def)
  show "batch_kept ?c'" by (simp add: batch_kept_def settled_state_def delete_batch_def)
  show "inbox_kept ?c'"
  proof (rule inbox_keptI)
    have fields: "settled_inbox_cursor ?c' = cursor" "inbox_cursor ?c' = inbox_cursor c"
      "escaped ?c' = escaped c" "exits ?c' = exits c" "inbox_boxes ?c' = inbox_boxes c"
      by (simp_all add: settled_state_def delete_batch_def)
    note old = inbox_keptD [OF well_keptD(4) [OF assms(1)]]
    show "unat (settled_inbox_cursor ?c') \<le> unat (inbox_cursor ?c')" unfolding fields by (rule cursor(2))
    show "exits ?c' = Map.empty" unfolding fields by (rule old(3) [OF assms(2)])
    show "unat i < unat (inbox_cursor ?c')" if "inbox_boxes ?c' i = Some e" for i e
      using that unfolding fields by (rule old(2))
    show "inbox_boxes ?c' i \<noteq> None" if "unat (settled_inbox_cursor ?c') \<le> unat i" "unat i < unat (inbox_cursor ?c')" for i
      using old(4) [OF assms(2), of i] that cursor(1) unfolding fields by fastforce
  qed
qed

text \<open>The calls whose effect is one record update.\<close>

lemma set_escape_clock_kept:
  assumes "well_kept c" and "\<not> escaped c"
  shows "well_kept (c\<lparr>escape_inbox_target := Some x, escape_progress := Some y, escape_deadline := Some z\<rparr>)"
proof (rule well_keptI)
  let ?c' = "c\<lparr>escape_inbox_target := Some x, escape_progress := Some y, escape_deadline := Some z\<rparr>"
  show "signal_kept ?c'" using assms(2) by (simp add: signal_kept_def)
  show "updates_kept ?c'" using well_keptD(3) [OF assms(1)] by (simp add: updates_kept_def)
  show "batch_kept ?c'" using well_keptD(1) [OF assms(1)] by (simp add: batch_kept_def)
  show "inbox_kept ?c'" using well_keptD(4) [OF assms(1)] by (simp add: inbox_kept_def)
qed

lemma schedule_kept:
  assumes "well_kept c"
  shows "well_kept (c\<lparr>pending_verifier_address := Some v, pending_program_vkey_hash := Some p,
      pending_recursion_vkey_root := Some r, verifier_update_after := Some after\<rparr>)" (is "well_kept ?a")
    and "well_kept (c\<lparr>pending_approval_program_hash := Some h, application_update_after := Some after\<rparr>)"
      (is "well_kept ?b")
    and "well_kept (c\<lparr>verifier_address := v, program_vkey_hash := p, recursion_vkey_root := r,
      pending_verifier_address := None, pending_program_vkey_hash := None, pending_recursion_vkey_root := None,
      verifier_update_after := None\<rparr>)" (is "well_kept ?d")
proof -
  note old = well_keptD [OF assms]
  have "signal_kept ?a" "signal_kept ?b" "signal_kept ?d" using old(2) by (auto simp: signal_kept_def)
  moreover have "batch_kept ?a" "batch_kept ?b" "batch_kept ?d" using old(1) by (simp_all add: batch_kept_def)
  moreover have "updates_kept ?a" "updates_kept ?b" "updates_kept ?d" using old(3) by (simp_all add: updates_kept_def)
  moreover have "inbox_kept ?a" "inbox_kept ?b" "inbox_kept ?d" using old(4) by (simp_all add: inbox_kept_def)
  ultimately show "well_kept ?a" and "well_kept ?b" and "well_kept ?d" by (simp_all add: well_kept_def)
qed

lemma council_kept:
  assumes "well_kept c"
  shows "well_kept (let d = (delete_signal (c\<lparr>escaped := True\<rparr>))
           \<lparr>pending_verifier_address := None, pending_program_vkey_hash := None, pending_recursion_vkey_root := None,
            verifier_update_after := None, application_update_after := None, pending_approval_program_hash := None\<rparr>
         in if batch_length c = None then d else delete_batch d)"
proof -
  let ?d = "(delete_signal (c\<lparr>escaped := True\<rparr>))
           \<lparr>pending_verifier_address := None, pending_program_vkey_hash := None, pending_recursion_vkey_root := None,
            verifier_update_after := None, application_update_after := None, pending_approval_program_hash := None\<rparr>"
  have "signal_kept ?d" by (simp add: signal_kept_def delete_signal_def)
  moreover have "updates_kept ?d" by (simp add: updates_kept_def)
  moreover have "inbox_kept ?d" using well_keptD(4) [OF assms] by (simp add: inbox_kept_def delete_signal_def)
  moreover have "batch_kept ?d" if "batch_length c = None"
    using well_keptD(1) [OF assms] that by (simp add: batch_kept_def delete_signal_def)
  ultimately show ?thesis by (simp add: Let_def well_kept_def delete_batch_kept)
qed

lemma exit_kept:
  assumes "well_kept c" and "escaped c"
  shows "well_kept (c\<lparr>exits := e, app_min_balance := m, app_balance := left, app_payments := ps\<rparr>)"
proof (rule well_keptI)
  let ?c' = "c\<lparr>exits := e, app_min_balance := m, app_balance := left, app_payments := ps\<rparr>"
  show "signal_kept ?c'" using well_keptD(2) [OF assms(1)] by (auto simp: signal_kept_def)
  show "updates_kept ?c'" using well_keptD(3) [OF assms(1)] by (simp add: updates_kept_def)
  show "batch_kept ?c'" using well_keptD(1) [OF assms(1)] by (simp add: batch_kept_def)
  show "inbox_kept ?c'" using well_keptD(4) [OF assms(1)] assms(2) by (simp add: inbox_kept_def)
qed

lemma open_kept:
  assumes "well_kept c" and "\<not> escaped c" and "pending_withdrawals c = None"
    and "unat (settled_inbox_cursor c) \<le> unat target" "unat target \<le> unat (inbox_cursor c)"
  shows "well_kept (c\<lparr>chunk_accumulator := Some a, batch_length := Some len, posted_length := Some 0,
      sealed_inbox_chain := Some sealed, sealed_inbox_cursor := Some target\<rparr>)"
proof (rule well_keptI)
  let ?c' = "c\<lparr>chunk_accumulator := Some a, batch_length := Some len, posted_length := Some 0,
      sealed_inbox_chain := Some sealed, sealed_inbox_cursor := Some target\<rparr>"
  show "signal_kept ?c'" using well_keptD(2) [OF assms(1)] by (auto simp: signal_kept_def)
  show "updates_kept ?c'" using well_keptD(3) [OF assms(1)] by (simp add: updates_kept_def)
  show "batch_kept ?c'" using assms(2-) by (simp add: batch_kept_def)
  show "inbox_kept ?c'" using well_keptD(4) [OF assms(1)] by (simp add: inbox_kept_def)
qed

lemma chunk_kept:
  assumes "well_kept c" and "batch_length c = Some len" and "unat posted \<le> unat len"
  shows "well_kept (c\<lparr>chunk_accumulator := Some a, posted_length := Some posted\<rparr>)"
proof (rule well_keptI)
  let ?c' = "c\<lparr>chunk_accumulator := Some a, posted_length := Some posted\<rparr>"
  show "signal_kept ?c'" using well_keptD(2) [OF assms(1)] by (auto simp: signal_kept_def)
  show "updates_kept ?c'" using well_keptD(3) [OF assms(1)] by (simp add: updates_kept_def)
  show "batch_kept ?c'" using well_keptD(1) [OF assms(1)] assms(2-) by (simp add: batch_kept_def)
  show "inbox_kept ?c'" using well_keptD(4) [OF assms(1)] by (simp add: inbox_kept_def)
qed

text \<open>Nonces and balances are read by none of them.\<close>

lemma request_cursor_kept [simp]: "well_kept (c\<lparr>request_cursor := n\<rparr>) \<longleftrightarrow> well_kept c"
proof -
  have "batch_kept (c\<lparr>request_cursor := n\<rparr>) = batch_kept c" by (simp add: batch_kept_def)
  moreover have "signal_kept (c\<lparr>request_cursor := n\<rparr>) = signal_kept c" by (simp add: signal_kept_def)
  moreover have "updates_kept (c\<lparr>request_cursor := n\<rparr>) = updates_kept c" by (simp add: updates_kept_def)
  moreover have "inbox_kept (c\<lparr>request_cursor := n\<rparr>) = inbox_kept c" by (simp add: inbox_kept_def)
  ultimately show ?thesis by (simp add: well_kept_def)
qed

lemma balance_kept [simp]: "well_kept (c\<lparr>app_balance := b\<rparr>) \<longleftrightarrow> well_kept c"
proof -
  have "batch_kept (c\<lparr>app_balance := b\<rparr>) = batch_kept c" by (simp add: batch_kept_def)
  moreover have "signal_kept (c\<lparr>app_balance := b\<rparr>) = signal_kept c" by (simp add: signal_kept_def)
  moreover have "updates_kept (c\<lparr>app_balance := b\<rparr>) = updates_kept c" by (simp add: updates_kept_def)
  moreover have "inbox_kept (c\<lparr>app_balance := b\<rparr>) = inbox_kept c" by (simp add: inbox_kept_def)
  ultimately show ?thesis by (simp add: well_kept_def)
qed

section \<open>Every call keeps it\<close>

lemma perform_kept:
  assumes kept: "well_kept c" and ok: "perform A t m c = Inr c'"
  shows "well_kept c'"
proof (cases m)
  case SecurityCouncilEscape
  with ok security_council_escape_effect council_kept [OF kept] show ?thesis by simp
next
  case ExecuteEscape
  with ok execute_escape_effect freeze_kept [OF kept] show ?thesis by simp
next
  case (ScheduleVerifierUpdate v p r)
  with ok have "schedule_verifier_update t v p r c = Inr c'" by simp
  from schedule_verifier_update_effect [OF this] show ?thesis by (elim exE) (simp only:, rule schedule_kept(1) [OF kept])
next
  case ExecuteVerifierUpdate
  with ok have "execute_verifier_update t c = Inr c'" by simp
  from execute_verifier_update_effect [OF this] show ?thesis by (elim exE) (simp only:, rule schedule_kept(3) [OF kept])
next
  case (ScheduleApplicationUpdate h)
  with ok have "schedule_application_update t h c = Inr c'" by simp
  from schedule_application_update_effect [OF this] show ?thesis by (elim exE) (simp only:, rule schedule_kept(2) [OF kept])
next
  case (MakeDeposit payment recipient)
  with ok obtain i where "contract_deposit A t payment recipient c = Inr (i, c')" by (auto simp: map_sum_def split: sum.splits)
  from contract_deposit_effect [OF this] appended_kept [OF kept] show ?thesis by auto
next
  case (RequestWithdrawal payment n address recipient scheme key sig)
  with ok obtain i where "request_withdrawal A t payment n address recipient scheme key sig c = Inr (i, c')"
    by (auto simp: map_sum_def split: sum.splits)
  from request_withdrawal_effect [OF this] appended_kept [OF kept] show ?thesis
    by auto
next
  case (PruneRequest i)
  with ok have "prune_request A i c = Inr c' \<or> prune_deposit A i c = Inr c'" by simp
  from prune_effect [OF this] show ?thesis by (elim exE conjE) (simp only:, rule box_removed_kept [OF kept], blast)
next
  case (PruneDeposit i)
  with ok have "prune_request A i c = Inr c' \<or> prune_deposit A i c = Inr c'" by simp
  from prune_effect [OF this] show ?thesis by (elim exE conjE) (simp only:, rule box_removed_kept [OF kept], blast)
next
  case (ReclaimDeposit i)
  with ok have "reclaim_deposit A i c = Inr c'" by simp
  from reclaim_deposit_effect [OF this] show ?thesis by (elim exE conjE) (simp only:, rule box_removed_kept [OF kept], blast)
next
  case (PayWithdrawal recipient amt tail)
  with ok have "pay_withdrawal A t recipient amt tail c = Inr c'" by simp
  note e = pay_withdrawal_effect [OF this]
  then have "batch_length c = None"
    using well_keptD(1) [OF kept] by (cases "batch_length c") (auto simp: batch_kept_Some)
  with e show ?thesis by (elim exE conjE) (simp only:, rule payout_kept [OF kept])
next
  case (ForceExit address n amt auth scheme key sig recipient sibs)
  with ok have "force_exit A address n amt auth scheme key sig recipient sibs c = Inr c'" by simp
  from force_exit_effect [OF this] show ?thesis by (elim exE conjE) (simp only:, rule exit_kept [OF kept])
next
  case (OpUp n)
  with ok kept show ?thesis by (simp add: op_up_def)
next
  case SignalEscape
  with ok have "signal_escape t c = Inr c'" by simp
  from signal_escape_effect [OF this] show ?thesis by (elim exE conjE) (simp only:, rule set_escape_clock_kept [OF kept])
next
  case AbandonBatch
  with ok have "c' = delete_batch c" by (simp add: abandon_batch_effect)
  with kept show ?thesis by (simp add: well_kept_def delete_batch_kept)
next
  case (OpenBatch len target)
  with ok have "open_batch A t len target c = Inr c'" by simp
  from open_batch_effect [OF this] show ?thesis by (elim exE conjE) (simp only:, rule open_kept [OF kept])
next
  case (AccumulateChunk chunk)
  with ok have "contract_accumulate_chunk A t chunk c = Inr c'" by simp
  from contract_accumulate_chunk_effect [OF this] show ?thesis
    by (elim exE conjE) (simp only:, rule chunk_kept [OF kept], assumption, simp)
next
  case (VerifyBatch verifier signals vals)
  with ok have "contract_verify_batch A t verifier signals vals c = Inr c'" by simp
  from contract_verify_batch_effect [OF this] show ?thesis
    using well_keptD(2) [OF kept] by (elim exE conjE) (simp only:, rule settled_kept [OF kept], blast+)
qed

lemma create_application_kept:
  "well_kept (create_application v p r timeout grace council delay balance min_balance)"
  by (simp add: well_kept_def kept_defs create_application_def)

section \<open>No method reads a value that is not there\<close>

text \<open>The boxes a caller names are the only ones that can be missing.\<close>

fun names_box :: "contract_call \<Rightarrow> u64 option" where
  "names_box (PruneRequest i) = Some i"
| "names_box (PruneDeposit i) = Some i"
| "names_box (ReclaimDeposit i) = Some i"
| "names_box _ = None"

lemma credit_escape_progress_present:
  assumes "signal_kept c"
  shows "credit_escape_progress d c \<noteq> Inl MissingValue"
  using assms
  by (auto simp: credit_escape_progress_def signal_kept_def contract_Inl_iffs split: option.splits if_splits)

lemma itxn_payment_present: "itxn_payment A r amt c \<noteq> Inl MissingValue"
  by (simp add: itxn_payment_def Let_def)

lemma end_of_call_present: "end_of_call c \<noteq> Inl MissingValue"
  by (simp add: end_of_call_def)

lemma perform_present:
  assumes kept: "well_kept c" and miss: "perform A t m c = Inl MissingValue"
  shows "\<exists>i. names_box m = Some i \<and> inbox_boxes c i = None"
proof (cases m)
  case SecurityCouncilEscape
  with miss show ?thesis by (simp add: security_council_escape_def assert_security_council_def contract_Inl_iffs Let_def)
next
  case ExecuteEscape
  with miss show ?thesis by (auto simp: execute_escape_def contract_Inl_iffs contract_Inr_iffs Let_def)
next
  case (ScheduleVerifierUpdate v p r)
  with miss show ?thesis by (simp add: schedule_verifier_update_def assert_security_council_def contract_Inl_iffs)
next
  case ExecuteVerifierUpdate
  with miss well_keptD(3) [OF kept] show ?thesis
    by (auto simp: execute_verifier_update_def updates_kept_def contract_Inl_iffs contract_Inr_iffs)
next
  case (ScheduleApplicationUpdate h)
  with miss show ?thesis by (simp add: schedule_application_update_def assert_security_council_def contract_Inl_iffs)
next
  case (MakeDeposit payment recipient)
  with miss have "contract_deposit A t payment recipient c = Inl MissingValue" by (auto simp: map_sum_def split: sum.splits)
  then show ?thesis
    by (auto simp: contract_deposit_def contract_Inl_iffs append_record_def end_of_call_present Let_def)
next
  case (RequestWithdrawal payment n address recipient scheme key sig)
  with miss have "request_withdrawal A t payment n address recipient scheme key sig c = Inl MissingValue"
    by (auto simp: map_sum_def split: sum.splits)
  then show ?thesis
    by (auto simp: request_withdrawal_def contract_Inl_iffs append_record_def end_of_call_present Let_def)
next
  case (PruneRequest i)
  with miss show ?thesis by (auto simp: prune_request_def contract_Inl_iffs itxn_payment_present Let_def)
next
  case (PruneDeposit i)
  with miss show ?thesis by (auto simp: prune_deposit_def contract_Inl_iffs itxn_payment_present Let_def)
next
  case (ReclaimDeposit i)
  with miss show ?thesis by (auto simp: reclaim_deposit_def contract_Inl_iffs itxn_payment_present Let_def)
next
  case (PayWithdrawal recipient amt tail)
  have signal: "signal_kept (c\<lparr>pending_withdrawals := w\<rparr>)" for w using well_keptD(2) [OF kept] by (auto simp: signal_kept_def)
  from PayWithdrawal miss show ?thesis
    by (auto simp: pay_withdrawal_def contract_Inl_iffs contract_Inr_iffs itxn_payment_present Let_def
        credit_escape_progress_present [OF signal] split: if_splits)
next
  case (ForceExit address n amt auth scheme key sig recipient sibs)
  with miss show ?thesis by (auto simp: force_exit_def contract_Inl_iffs itxn_payment_present Let_def)
next
  case (OpUp n)
  with miss show ?thesis by simp
next
  case SignalEscape
  with miss inbox_keptD(4) [OF well_keptD(4) [OF kept], of "settled_inbox_cursor c"] show ?thesis
    by (auto simp: signal_escape_def contract_Inl_iffs contract_Inr_iffs word_less_nat_alt)
next
  case AbandonBatch
  with miss show ?thesis by (simp add: abandon_batch_def contract_Inl_iffs)
next
  case (AccumulateChunk chunk)
  with miss well_keptD(1) [OF kept] show ?thesis
    by (auto simp: contract_accumulate_chunk_def contract_Inl_iffs contract_Inr_iffs batch_kept_Some Let_def)
next
  case (OpenBatch len target)
  have "False" if "\<not> escaped c" "settled_inbox_cursor c \<le> target" "target \<le> inbox_cursor c"
      "target \<noteq> settled_inbox_cursor c" "unat last + 1 = unat target" "inbox_boxes c last = None" for last
  proof -
    have "unat target \<noteq> unat (settled_inbox_cursor c)" using that(4) by (simp add: word_unat_eq_iff)
    with that(2,3,5) have "unat (settled_inbox_cursor c) \<le> unat last" "unat last < unat (inbox_cursor c)"
      by (auto simp: word_le_nat_alt)
    with inbox_keptD(4) [OF well_keptD(4) [OF kept] that(1)] that(6) show False by fastforce
  qed
  with OpenBatch miss show ?thesis
    by (auto simp: open_batch_def contract_Inl_iffs contract_Inr_iffs Let_def split: if_splits)
next
  case (VerifyBatch verifier signals vals)
  have signal: "signal_kept (delete_batch (c\<lparr>contract_root := x, settled_inbox_chain := y, settled_inbox_cursor := z,
      pending_withdrawals := w\<rparr>))" for x y z w
    using well_keptD(2) [OF kept] by (auto simp: signal_kept_def delete_batch_def)
  from VerifyBatch miss well_keptD(1) [OF kept] show ?thesis
    by (auto simp: contract_verify_batch_def contract_Inl_iffs contract_Inr_iffs batch_kept_Some Let_def
        credit_escape_progress_present [OF signal] split: option.splits if_splits)
qed

end
