(* ===== verification/Contract_Effects.thy ===== *)
theory Contract_Effects
  imports Contract_Kept
begin

text \<open>
  The effect of a call that returned, in one definition: what the separate lemmas of
  \<open>Contract_Calls\<close> say, method by method, for case analyses over all of them.
\<close>

fun effect :: "avm \<Rightarrow> call \<Rightarrow> contract_call \<Rightarrow> contract \<Rightarrow> contract \<Rightarrow> bool" where
  "effect A t SecurityCouncilEscape c c' \<longleftrightarrow>
     (let d = (delete_signal (c\<lparr>escaped := True\<rparr>))
        \<lparr>pending_verifier_address := None, pending_program_vkey_hash := None, pending_recursion_vkey_root := None,
         verifier_update_after := None, application_update_after := None, pending_approval_program_hash := None\<rparr>
      in c' = d \<or> c' = delete_batch d)"
| "effect A t ExecuteEscape c c' \<longleftrightarrow>
     (let d = delete_signal (c\<lparr>escaped := True\<rparr>) in c' = d \<or> c' = delete_batch d)"
| "effect A t (ScheduleVerifierUpdate v p r) c c' \<longleftrightarrow>
     (\<exists>after. c' = c\<lparr>pending_verifier_address := Some v, pending_program_vkey_hash := Some p,
        pending_recursion_vkey_root := Some r, verifier_update_after := Some after\<rparr>)"
| "effect A t ExecuteVerifierUpdate c c' \<longleftrightarrow>
     (\<exists>v p r. c' = c\<lparr>verifier_address := v, program_vkey_hash := p, recursion_vkey_root := r,
        pending_verifier_address := None, pending_program_vkey_hash := None, pending_recursion_vkey_root := None,
        verifier_update_after := None\<rparr>)"
| "effect A t (ScheduleApplicationUpdate h) c c' \<longleftrightarrow>
     (\<exists>after. c' = c\<lparr>pending_approval_program_hash := Some h, application_update_after := Some after\<rparr>)"
| "effect A t (MakeDeposit payment recipient) c c' \<longleftrightarrow>
     (\<exists>next_index charge entry. c' = appended next_index (unat (pay_amount payment)) charge entry c)"
| "effect A t (RequestWithdrawal payment n address recipient scheme key sig) c c' \<longleftrightarrow>
     (\<exists>next_index charge entry n. c' = (appended next_index (unat (pay_amount payment)) charge entry c)\<lparr>request_cursor := n\<rparr>)"
| "effect A t (PruneRequest i) c c' \<longleftrightarrow> (\<exists>released left p. c' = box_removed i released left p c)"
| "effect A t (PruneDeposit i) c c' \<longleftrightarrow> (\<exists>released left p. c' = box_removed i released left p c)"
| "effect A t (ReclaimDeposit i) c c' \<longleftrightarrow> (\<exists>released left p. c' = box_removed i released left p c)"
| "effect A t (PayWithdrawal recipient amt tail) c c' \<longleftrightarrow>
     (\<exists>left deadline progress. c' = c\<lparr>pending_withdrawals := (if tail = withdrawal_terminal A then None else Some tail),
         escape_deadline := deadline, escape_progress := progress,
         app_balance := left, app_payments := app_payments c @ [(recipient, amt)]\<rparr>)"
| "effect A t (ForceExit address n amt auth scheme key sig recipient sibs) c c' \<longleftrightarrow>
     (\<exists>left charge payout. exits c address = None
        \<and> c' = c\<lparr>exits := (exits c)(address \<mapsto> amt), app_min_balance := app_min_balance c + charge,
         app_balance := left, app_payments := app_payments c @ [(recipient, payout)]\<rparr>)"
| "effect A t (OpUp n) c c' \<longleftrightarrow> c' = c"
| "effect A t SignalEscape c c' \<longleftrightarrow>
     (\<exists>deadline. c' = c\<lparr>escape_inbox_target := Some (inbox_cursor c), escape_progress := Some 0,
         escape_deadline := Some deadline\<rparr>)"
| "effect A t AbandonBatch c c' \<longleftrightarrow> c' = delete_batch c"
| "effect A t (OpenBatch len target) c c' \<longleftrightarrow>
     (\<exists>accumulator sealed. c' = c\<lparr>chunk_accumulator := Some accumulator, batch_length := Some len, posted_length := Some 0,
         sealed_inbox_chain := Some sealed, sealed_inbox_cursor := Some target\<rparr>)"
| "effect A t (AccumulateChunk chunk) c c' \<longleftrightarrow>
     (\<exists>accumulator posted. c' = c\<lparr>chunk_accumulator := Some accumulator, posted_length := Some posted\<rparr>)"
| "effect A t (VerifyBatch verifier signals vals) c c' \<longleftrightarrow>
     (\<exists>sealed cursor deadline target progress. c' = (settled_state A vals sealed cursor c)
         \<lparr>escape_deadline := deadline, escape_inbox_target := target, escape_progress := progress\<rparr>)"

lemma perform_effect:
  assumes ok: "perform A t m c = Inr c'"
  shows "effect A t m c c'"
proof (cases m)
  case SecurityCouncilEscape
  with ok security_council_escape_effect [of t c c'] show ?thesis by (simp add: Let_def)
next
  case ExecuteEscape
  with ok execute_escape_effect [of t c c'] show ?thesis by (simp add: Let_def)
next
  case (ScheduleVerifierUpdate v p r)
  with ok schedule_verifier_update_effect [of t v p r c c'] show ?thesis by simp
next
  case ExecuteVerifierUpdate
  with ok execute_verifier_update_effect [of t c c'] show ?thesis by simp
next
  case (ScheduleApplicationUpdate h)
  with ok schedule_application_update_effect [of t h c c'] show ?thesis by simp
next
  case (MakeDeposit payment recipient)
  with ok obtain i where "contract_deposit A t payment recipient c = Inr (i, c')"
    by (auto simp: map_sum_def split: sum.splits)
  from contract_deposit_effect [OF this] MakeDeposit show ?thesis by (simp only: effect.simps) blast
next
  case (RequestWithdrawal payment n address recipient scheme key sig)
  with ok obtain i where "request_withdrawal A t payment n address recipient scheme key sig c = Inr (i, c')"
    by (auto simp: map_sum_def split: sum.splits)
  from request_withdrawal_effect [OF this] RequestWithdrawal show ?thesis by (simp only: effect.simps) blast
next
  case (PruneRequest i)
  with ok prune_effect [of A i c c'] show ?thesis by (simp only: effect.simps perform.simps) blast
next
  case (PruneDeposit i)
  with ok prune_effect [of A i c c'] show ?thesis by (simp only: effect.simps perform.simps) blast
next
  case (ReclaimDeposit i)
  with ok reclaim_deposit_effect [of A i c c'] show ?thesis by (simp only: effect.simps perform.simps) blast
next
  case (PayWithdrawal recipient amt tail)
  with ok pay_withdrawal_effect [of A t recipient amt tail c c'] show ?thesis by (simp only: effect.simps perform.simps) blast
next
  case (ForceExit address n amt auth scheme key sig recipient sibs)
  with ok force_exit_effect [of A address n amt auth scheme key sig recipient sibs c c'] show ?thesis
    by (simp only: effect.simps perform.simps) blast
next
  case (OpUp n)
  with ok show ?thesis by (simp add: op_up_def)
next
  case SignalEscape
  with ok signal_escape_effect [of t c c'] show ?thesis by simp
next
  case AbandonBatch
  with ok show ?thesis by (simp add: abandon_batch_effect)
next
  case (OpenBatch len target)
  with ok open_batch_effect [of A t len target c c'] show ?thesis by (simp only: effect.simps perform.simps) blast
next
  case (AccumulateChunk chunk)
  with ok contract_accumulate_chunk_effect [of A t chunk c c'] show ?thesis by (simp only: effect.simps perform.simps) blast
next
  case (VerifyBatch verifier signals vals)
  with ok contract_verify_batch_effect [of A t verifier signals vals c c'] show ?thesis
    by (simp only: effect.simps perform.simps) blast
qed

lemmas effect_defs = appended_def box_removed_def delete_batch_def delete_signal_def settled_state_def Let_def

end
