(* ===== verification/Contract_History.thy ===== *)
theory Contract_History
  imports Contract_Effects
begin

text \<open>
  The histories of a deployed contract. A chronicle keeps beside the contract's state what that
  state is about: the accounts its root commits to, every inbox item that arrived, the payouts it
  still owes, the chunks posted for the open batch, and the strings that were hashed along the way,
  which is what the hypothesis that there was no collision is about.
\<close>

section \<open>Chronicles\<close>

record chronicle =
  on_chain :: contract
  settled_tree :: sparse_merkle_tree
  arrived :: "inbox_item list"
  dues :: "(l1_address \<times> u64) list"
  posted_chunks :: "byte list list"
  hashed_strings :: "byte list list"

definition settled_items :: "chronicle \<Rightarrow> inbox_item list" where
  "settled_items g = take (unat (settled_inbox_cursor (on_chain g))) (arrived g)"

text \<open>The item a deposit or a request appended, read off the box it wrote.\<close>

definition appended_items :: "contract \<Rightarrow> contract \<Rightarrow> inbox_item list" where
  "appended_items c c' =
     (case Option.bind (inbox_boxes c' (inbox_cursor c)) record_item of None \<Rightarrow> [] | Some i \<Rightarrow> [i])"

definition exit_strings ::
  "hash_fn \<Rightarrow> sparse_merkle_tree \<Rightarrow> address \<Rightarrow> account \<Rightarrow> byte list \<Rightarrow> byte list list" where
  "exit_strings H t a acc sibs =
     tree_preimages H (tree_root t) @ proof_preimages H a (Some acc) (from_parts (sibling_words sibs) Own)"

fun record_call :: "hash_fn \<Rightarrow> contract_call \<Rightarrow> contract \<Rightarrow> chronicle \<Rightarrow> chronicle" where
  "record_call H (MakeDeposit payment recipient) c' g =
     g\<lparr>on_chain := c', arrived := arrived g @ appended_items (on_chain g) c'\<rparr>"
| "record_call H (RequestWithdrawal payment n address recipient scheme key sig) c' g =
     g\<lparr>on_chain := c', arrived := arrived g @ appended_items (on_chain g) c'\<rparr>"
| "record_call H (PayWithdrawal recipient amt tail) c' g =
     g\<lparr>on_chain := c', dues := tl (dues g), hashed_strings := hashed_strings g @ [payout_step tail (recipient, amt)]\<rparr>"
| "record_call H (ForceExit address n amt auth scheme key sig recipient sibs) c' g =
     g\<lparr>on_chain := c', hashed_strings := hashed_strings g @ exit_strings H (settled_tree g) address (account_new n amt auth) sibs\<rparr>"
| "record_call H (OpenBatch len target) c' g = g\<lparr>on_chain := c', posted_chunks := []\<rparr>"
| "record_call H (AccumulateChunk chunk) c' g = g\<lparr>on_chain := c', posted_chunks := posted_chunks g @ [chunk]\<rparr>"
| "record_call H m c' g = g\<lparr>on_chain := c'\<rparr>"

text \<open>
  What a settlement hashes, on either side of a comparison: the replay's own strings, the two inbox
  chains, the two commitments and the chain of payouts.
\<close>

definition settlement_strings ::
  "avm \<Rightarrow> primitives \<Rightarrow> chronicle \<Rightarrow> deployment_domain \<Rightarrow> byte list \<Rightarrow> batch \<Rightarrow> sidecar \<Rightarrow> byte list list" where
  "settlement_strings A P g domain batch_bytes b s =
     event_preimages (sha256 P) (settled_tree g) (batch_events b s)
     @ inbox_preimages (sha256 P) INBOX_CHAIN_GENESIS (settled_items g @ batch_inbox_items b)
     @ inbox_preimages (sha256 P) INBOX_CHAIN_GENESIS (arrived g)
     @ commitment_preimages (sha256 P) domain batch_bytes
     @ commitment_preimages (sha256 P) (contract_domain A) (concat (posted_chunks g))
     @ payout_preimages (sha256 P) (contract_domain A) (withdrawal_payouts b s)"

definition record_settlement ::
  "avm \<Rightarrow> primitives \<Rightarrow> deployment_domain \<Rightarrow> byte list \<Rightarrow> batch \<Rightarrow> sidecar \<Rightarrow> contract \<Rightarrow> chronicle \<Rightarrow> chronicle" where
  "record_settlement A P domain batch_bytes b s c' g =
     g\<lparr>on_chain := c', settled_tree := merkle.track (sha256 P) (settled_tree g) (batch_events b s),
       dues := withdrawal_payouts b s, posted_chunks := [],
       hashed_strings := hashed_strings g @ settlement_strings A P g domain batch_bytes b s\<rparr>"

definition first_chronicle :: "contract \<Rightarrow> chronicle" where
  "first_chronicle c =
     \<lparr>on_chain = c, settled_tree = tree_new, arrived = [], dues = [], posted_chunks = [], hashed_strings = []\<rparr>"

section \<open>Histories\<close>

text \<open>
  A history starts with the creation, of an account that holds its minimum. Anyone may call any
  method, and pay the account besides. The one thing assumed is what a verified proof means: if
  \<open>verifyBatch\<close> returns, the guest committed those public values, on inputs nobody else has seen,
  its domain among them. A call of \<open>updateApplication\<close> ends the history: from then on the program is
  another one.
\<close>

inductive history :: "avm \<Rightarrow> primitives \<Rightarrow> chronicle \<Rightarrow> bool" for A P where
  created: "min_balance \<le> balance \<Longrightarrow>
    history A P (first_chronicle (create_application v p r timeout grace council delay balance min_balance))"
| donated: "history A P g \<Longrightarrow>
    history A P (g\<lparr>on_chain := (on_chain g)\<lparr>app_balance := app_balance (on_chain g) + n\<rparr>\<rparr>)"
| called: "history A P g \<Longrightarrow> \<not> settles m \<Longrightarrow> perform A t m (on_chain g) = Inr c' \<Longrightarrow>
    history A P (record_call (sha256 P) m c' g)"
| settled: "history A P g \<Longrightarrow> contract_verify_batch A t verifier signals vals (on_chain g) = Inr c' \<Longrightarrow>
    guest_main P domain old_root anchor batch_bytes sidecar_bytes = Inr vals \<Longrightarrow>
    batch_decode batch_bytes = Inr b \<Longrightarrow> sidecar_decode sidecar_bytes b = Inr s \<Longrightarrow>
    history A P (record_settlement A P (b32 domain) batch_bytes b s c' g)"

lemma on_chain_record_call [simp]: "on_chain (record_call H m c' g) = c'"
  by (cases m) simp_all

lemma on_chain_record_settlement [simp]: "on_chain (record_settlement A P d bb b s c' g) = c'"
  by (simp add: record_settlement_def)

lemma arrived_record_settlement [simp]: "arrived (record_settlement A P d bb b s c' g) = arrived g"
  by (simp add: record_settlement_def)

text \<open>
  Invariants of the contract's state: what the creation establishes, and a payment into the account
  and every call keep, holds in every history (and, in \<open>Contract_Runs\<close>, after every run of calls).
\<close>

locale contract_invariant =
  fixes A :: avm and I :: "contract \<Rightarrow> bool"
  assumes created: "min_balance \<le> balance \<Longrightarrow> I (create_application v p r timeout grace council delay balance min_balance)"
    and donated: "I c \<Longrightarrow> I (c\<lparr>app_balance := app_balance c + n\<rparr>)"
    and kept: "well_kept c \<Longrightarrow> I c \<Longrightarrow> perform A t m c = Inr c' \<Longrightarrow> I c'"
begin

lemma in_history: "history A P g \<Longrightarrow> well_kept (on_chain g) \<and> I (on_chain g)"
proof (induction rule: history.induct)
  case (called g m t c')
  from kept [OF _ _ called.hyps(3)] perform_kept [OF _ called.hyps(3)] called.IH show ?case by simp
next
  case (settled g t verifier signals vals c' domain old_root anchor batch_bytes sidecar_bytes b s)
  then have "perform A t (VerifyBatch verifier signals vals) (on_chain g) = Inr c'" by simp
  from kept [OF _ _ this] perform_kept [OF _ this] settled.IH show ?case by simp
qed (simp_all add: created donated create_application_kept first_chronicle_def)

lemma history: "history A P g \<Longrightarrow> I (on_chain g)"
  using in_history by simp

end

interpretation kept: contract_invariant A well_kept for A
proof
  show "well_kept (create_application v p r timeout grace council delay balance min_balance)"
    for v p r timeout grace council delay balance min_balance by (rule create_application_kept)
  show "well_kept c \<Longrightarrow> well_kept (c\<lparr>app_balance := app_balance c + n\<rparr>)" for c n by simp
qed (rule perform_kept)

lemmas history_kept = kept.history

text \<open>More strings, fewer histories without a collision.\<close>

lemma hashed_record_call: "set (hashed_strings g) \<subseteq> set (hashed_strings (record_call H m c' g))"
  by (cases m) auto

lemma hashed_record_settlement: "set (hashed_strings g) \<subseteq> set (hashed_strings (record_settlement A P d bb b s c' g))"
  by (auto simp: record_settlement_def)

section \<open>The inbox and the open batch\<close>

text \<open>Facts that hold in every history, collision or not: each chain value is the fold of its items.\<close>

definition chain_at :: "primitives \<Rightarrow> chronicle \<Rightarrow> nat \<Rightarrow> bytes32" where
  "chain_at P g k = inbox.fold_chain (sha256 P) INBOX_CHAIN_GENESIS (take k (arrived g))"

definition box_told :: "primitives \<Rightarrow> chronicle \<Rightarrow> u64 \<Rightarrow> inbox_record \<Rightarrow> bool" where
  "box_told P g i entry \<longleftrightarrow>
     record_item entry = Some (arrived g ! unat i) \<and> record_chain_after entry = chain_at P g (Suc (unat i))
     \<and> (record_kind entry \<noteq> ascii ''d'' \<longrightarrow> record_amount entry = 0)"

definition inbox_told :: "primitives \<Rightarrow> chronicle \<Rightarrow> bool" where
  "inbox_told P g \<longleftrightarrow>
     length (arrived g) = unat (inbox_cursor (on_chain g))
     \<and> live_inbox_chain (on_chain g) = chain_at P g (unat (inbox_cursor (on_chain g)))
     \<and> settled_inbox_chain (on_chain g) = chain_at P g (unat (settled_inbox_cursor (on_chain g)))
     \<and> (\<forall>sealed cursor. sealed_inbox_chain (on_chain g) = Some sealed \<longrightarrow> sealed_inbox_cursor (on_chain g) = Some cursor \<longrightarrow>
          sealed = chain_at P g (unat cursor))
     \<and> (\<forall>i entry. inbox_boxes (on_chain g) i = Some entry \<longrightarrow> box_told P g i entry)"

lemma inbox_toldI:
  assumes "length (arrived g) = unat (inbox_cursor (on_chain g))"
    and "live_inbox_chain (on_chain g) = chain_at P g (unat (inbox_cursor (on_chain g)))"
    and "settled_inbox_chain (on_chain g) = chain_at P g (unat (settled_inbox_cursor (on_chain g)))"
    and "\<And>sealed cursor. sealed_inbox_chain (on_chain g) = Some sealed \<Longrightarrow> sealed_inbox_cursor (on_chain g) = Some cursor \<Longrightarrow>
      sealed = chain_at P g (unat cursor)"
    and "\<And>i entry. inbox_boxes (on_chain g) i = Some entry \<Longrightarrow> box_told P g i entry"
  shows "inbox_told P g"
  using assms unfolding inbox_told_def by blast

lemma inbox_toldD:
  assumes "inbox_told P g"
  shows "length (arrived g) = unat (inbox_cursor (on_chain g))"
    and "live_inbox_chain (on_chain g) = chain_at P g (unat (inbox_cursor (on_chain g)))"
    and "settled_inbox_chain (on_chain g) = chain_at P g (unat (settled_inbox_cursor (on_chain g)))"
    and "sealed_inbox_chain (on_chain g) = Some sealed \<Longrightarrow> sealed_inbox_cursor (on_chain g) = Some cursor \<Longrightarrow>
      sealed = chain_at P g (unat cursor)"
    and "inbox_boxes (on_chain g) i = Some entry \<Longrightarrow> box_told P g i entry"
  using assms unfolding inbox_told_def by blast+

lemma chain_at_cong: "arrived g' = arrived g \<Longrightarrow> chain_at P g' k = chain_at P g k"
  by (simp add: chain_at_def)

lemma box_told_cong: "arrived g' = arrived g \<Longrightarrow> box_told P g' i entry = box_told P g i entry"
  by (simp add: box_told_def chain_at_def)

lemma told_record_settlement [simp]:
  "chain_at P (record_settlement A Q d bb b s c' g) k = chain_at P g k"
  "box_told P (record_settlement A Q d bb b s c' g) i entry = box_told P g i entry"
  by (simp_all add: chain_at_def box_told_def)

text \<open>A call that appends nothing and settles nothing keeps it when it only forgets.\<close>

definition forgets :: "contract \<Rightarrow> contract \<Rightarrow> bool" where
  "forgets c c' \<longleftrightarrow> inbox_cursor c' = inbox_cursor c \<and> live_inbox_chain c' = live_inbox_chain c
     \<and> settled_inbox_chain c' = settled_inbox_chain c \<and> settled_inbox_cursor c' = settled_inbox_cursor c
     \<and> (sealed_inbox_chain c' = None
        \<or> sealed_inbox_chain c' = sealed_inbox_chain c \<and> sealed_inbox_cursor c' = sealed_inbox_cursor c)
     \<and> inbox_boxes c' \<subseteq>\<^sub>m inbox_boxes c"

fun moves_inbox :: "contract_call \<Rightarrow> bool" where
  "moves_inbox (MakeDeposit payment recipient) = True"
| "moves_inbox (RequestWithdrawal payment n address recipient scheme key sig) = True"
| "moves_inbox (OpenBatch len target) = True"
| "moves_inbox (VerifyBatch verifier signals vals) = True"
| "moves_inbox _ = False"

lemma perform_forgets:
  assumes ok: "perform A t m c = Inr c'" and still: "\<not> moves_inbox m"
  shows "forgets c c'"
  using perform_effect [OF ok] still
  by (cases m) (auto simp: forgets_def effect_defs)

lemma inbox_told_forget:
  assumes told: "inbox_told P g" and items: "arrived g' = arrived g" and "forgets (on_chain g) (on_chain g')"
  shows "inbox_told P g'"
proof -
  note f = assms(3) [unfolded forgets_def]
  then have fields: "inbox_cursor (on_chain g') = inbox_cursor (on_chain g)"
      "live_inbox_chain (on_chain g') = live_inbox_chain (on_chain g)"
      "settled_inbox_chain (on_chain g') = settled_inbox_chain (on_chain g)"
      "settled_inbox_cursor (on_chain g') = settled_inbox_cursor (on_chain g)" by simp_all
  note old = inbox_toldD [OF told]
  show ?thesis
  proof (rule inbox_toldI, unfold fields items chain_at_cong [OF items] box_told_cong [OF items])
    show "length (arrived g) = unat (inbox_cursor (on_chain g))" by (rule old(1))
    show "live_inbox_chain (on_chain g) = chain_at P g (unat (inbox_cursor (on_chain g)))" by (rule old(2))
    show "settled_inbox_chain (on_chain g) = chain_at P g (unat (settled_inbox_cursor (on_chain g)))" by (rule old(3))
    show "x = chain_at P g (unat cursor)"
      if "sealed_inbox_chain (on_chain g') = Some x" "sealed_inbox_cursor (on_chain g') = Some cursor" for x cursor
      using f that old(4) by auto
    show "box_told P g i entry" if "inbox_boxes (on_chain g') i = Some entry" for i entry
    proof (rule old(5))
      show "inbox_boxes (on_chain g) i = Some entry" using f that by (metis domI map_le_def)
    qed
  qed
qed

text \<open>An appended entry extends the items by what its box says.\<close>

lemma inbox_told_append:
  assumes told: "inbox_told P g" and kept: "inbox_kept (on_chain g)"
    and c': "on_chain g' = c'" and items: "arrived g' = arrived g @ [x]"
    and cursor: "unat (inbox_cursor c') = unat (inbox_cursor (on_chain g)) + 1"
    and fields: "settled_inbox_chain c' = settled_inbox_chain (on_chain g)"
      "settled_inbox_cursor c' = settled_inbox_cursor (on_chain g)"
      "sealed_inbox_chain c' = sealed_inbox_chain (on_chain g)" "sealed_inbox_cursor c' = sealed_inbox_cursor (on_chain g)"
    and sealed: "\<And>k. sealed_inbox_cursor (on_chain g) = Some k \<Longrightarrow> unat k \<le> unat (inbox_cursor (on_chain g))"
    and boxes: "inbox_boxes c' = (inbox_boxes (on_chain g))(inbox_cursor (on_chain g) \<mapsto> entry)"
    and entry: "record_item entry = Some x" "record_kind entry \<noteq> ascii ''d'' \<longrightarrow> record_amount entry = 0"
      "record_chain_after entry = sha256 P (inbox_step (live_inbox_chain (on_chain g)) x)"
    and live: "live_inbox_chain c' = record_chain_after entry"
  shows "inbox_told P g'"
proof -
  note old = inbox_toldD [OF told]
  have early: "chain_at P g' k = chain_at P g k" if "k \<le> unat (inbox_cursor (on_chain g))" for k
    using that old(1) by (simp add: chain_at_def items)
  have last: "chain_at P g' (Suc (unat (inbox_cursor (on_chain g)))) = record_chain_after entry"
    using old(1,2) by (simp add: chain_at_def items entry)
  show ?thesis
  proof (rule inbox_toldI, unfold c' fields)
    show "length (arrived g') = unat (inbox_cursor c')" using old(1) cursor by (simp add: items)
    show "live_inbox_chain c' = chain_at P g' (unat (inbox_cursor c'))" using last live cursor by simp
    show "settled_inbox_chain (on_chain g) = chain_at P g' (unat (settled_inbox_cursor (on_chain g)))"
      using early inbox_keptD(1) [OF kept] old(3) by simp
    show "y = chain_at P g' (unat k)"
      if "sealed_inbox_chain (on_chain g) = Some y" "sealed_inbox_cursor (on_chain g) = Some k" for y k
      using early sealed [OF that(2)] old(4) [OF that] by simp
    show "box_told P g' i e" if "inbox_boxes c' i = Some e" for i e
    proof (cases "i = inbox_cursor (on_chain g)")
      case True
      with that boxes have "e = entry" by simp
      with True entry last old(1) show ?thesis by (simp add: box_told_def items nth_append)
    next
      case False
      with that boxes have e: "inbox_boxes (on_chain g) i = Some e" by simp
      from inbox_keptD(2) [OF kept e] have "unat i < unat (inbox_cursor (on_chain g))" .
      with old(5) [OF e] early [of "Suc (unat i)"] old(1) show ?thesis by (simp add: box_told_def items nth_append)
    qed
  qed
qed

lemma record_item_of_fields:
  "record_item \<lparr>record_kind = ascii ''d'', record_address = a, record_recipient = z, record_amount = amt,
     record_payer = p, record_round = r, record_chain_after = ch\<rparr> = Some (InboxDeposit a amt)"
  "record_item \<lparr>record_kind = ascii ''w'', record_address = a, record_recipient = z, record_amount = amt,
     record_payer = p, record_round = r, record_chain_after = ch\<rparr> = Some (InboxForcedWithdrawal a z)"
  by (simp_all add: record_item_def ascii_def of_char_Char)

lemma sealed_below:
  assumes "well_kept c" and "sealed_inbox_cursor c = Some k"
  shows "unat (settled_inbox_cursor c) \<le> unat k" and "unat k \<le> unat (inbox_cursor c)"
  using well_keptD(1) [OF assms(1)] assms(2)
  by (cases "batch_length c"; simp add: batch_kept_None batch_kept_Some)+

lemma appended_told:
  assumes told: "inbox_told P g" and kept: "well_kept (on_chain g)"
    and next_index: "unat next_index = unat (inbox_cursor (on_chain g)) + 1"
    and c': "c' = appended next_index paid charge entry (on_chain g) \<or>
      c' = (appended next_index paid charge entry (on_chain g))\<lparr>request_cursor := n\<rparr>"
    and entry: "record_item entry = Some x" "record_kind entry \<noteq> ascii ''d'' \<longrightarrow> record_amount entry = 0"
      "record_chain_after entry = sha256 P (inbox_step (live_inbox_chain (on_chain g)) x)"
  shows "inbox_told P (g\<lparr>on_chain := c', arrived := arrived g @ appended_items (on_chain g) c'\<rparr>)"
proof -
  have boxes: "inbox_boxes c' = (inbox_boxes (on_chain g))(inbox_cursor (on_chain g) \<mapsto> entry)"
    using c' by (auto simp: appended_def)
  then have items: "appended_items (on_chain g) c' = [x]" by (simp add: appended_items_def entry)
  show ?thesis
    by (rule inbox_told_append [OF told well_keptD(4) [OF kept], where x = x and entry = entry and c' = c'])
       (use c' next_index entry boxes items sealed_below(2) [OF kept] in \<open>auto simp: appended_def\<close>)
qed

lemma history_inbox_told:
  assumes "history A P g" and same: "same_hash A P"
  shows "inbox_told P g"
  using assms(1)
proof (induction rule: history.induct)
  case (created min_balance balance v p r timeout grace council delay)
  show ?case
    by (rule inbox_toldI)
       (simp_all add: first_chronicle_def create_application_def chain_at_def INBOX_CHAIN_GENESIS_def)
next
  case (donated g n)
  then show ?case by (auto intro: inbox_told_forget [of P g] simp: forgets_def)
next
  case (called g m t c')
  note kept = history_kept [OF called.hyps(1)]
  show ?case
  proof (cases "moves_inbox m")
    case False
    from perform_forgets [OF called.hyps(3) False] show ?thesis
      using False by (intro inbox_told_forget [OF called.IH]) (cases m, auto)
  next
    case True
    then show ?thesis
    proof (cases m)
      case (MakeDeposit payment recipient)
      with called.hyps(3) obtain i where "contract_deposit A t payment recipient (on_chain g) = Inr (i, c')"
        by (auto simp: map_sum_def split: sum.splits)
      from contract_deposit_effect [OF this] MakeDeposit same show ?thesis
        by (auto simp: same_hash_def record_item_of_fields intro!: appended_told [OF called.IH kept])
    next
      case (RequestWithdrawal payment n address recipient scheme key sig)
      with called.hyps(3) obtain i where "request_withdrawal A t payment n address recipient scheme key sig (on_chain g) = Inr (i, c')"
        by (auto simp: map_sum_def split: sum.splits)
      from request_withdrawal_effect [OF this] RequestWithdrawal same show ?thesis
        by (auto simp: same_hash_def record_item_of_fields intro!: appended_told [OF called.IH kept])
    next
      case (OpenBatch len target)
      with called.hyps(3) have "open_batch A t len target (on_chain g) = Inr c'" by simp
      from open_batch_effect [OF this] obtain sealed where
        c': "c' = (on_chain g)\<lparr>chunk_accumulator := Some (avm_sha256 A (ascii ''BATCH'' @ bytes_of (contract_domain A) @ to_be_bytes len)),
          batch_length := Some len, posted_length := Some 0, sealed_inbox_chain := Some sealed, sealed_inbox_cursor := Some target\<rparr>"
        and sealed: "if target = settled_inbox_cursor (on_chain g) then sealed = settled_inbox_chain (on_chain g)
          else \<exists>last entry. unat last + 1 = unat target \<and> inbox_boxes (on_chain g) last = Some entry
            \<and> sealed = record_chain_after entry"
        by blast
      note old = inbox_toldD [OF called.IH]
      have "sealed = chain_at P g (unat target)"
        using sealed old(3) old(5) by (auto simp: box_told_def split: if_splits)
      then show ?thesis
        unfolding OpenBatch using old
        by (intro inbox_toldI) (auto simp: c' chain_at_def box_told_def)
    qed (use called.hyps in auto)
  qed
next
  case (settled g t verifier signals vals c' domain old_root anchor batch_bytes sidecar_bytes b s)
  note old = inbox_toldD [OF settled.IH]
  from contract_verify_batch_effect [OF settled.hyps(2)] obtain sealed cursor deadline target progress where
    c': "c' = (settled_state A vals sealed cursor (on_chain g))
         \<lparr>escape_deadline := deadline, escape_inbox_target := target, escape_progress := progress\<rparr>"
    and sealed: "sealed_inbox_chain (on_chain g) = Some sealed" "sealed_inbox_cursor (on_chain g) = Some cursor"
    by (elim exE conjE) (rule that)
  show ?case
  proof (rule inbox_toldI)
    let ?g = "record_settlement A P (b32 domain) batch_bytes b s c' g"
    show "length (arrived ?g) = unat (inbox_cursor (on_chain ?g))"
      using old(1) by (simp add: c' settled_state_def delete_batch_def)
    show "live_inbox_chain (on_chain ?g) = chain_at P ?g (unat (inbox_cursor (on_chain ?g)))"
      using old(2) by (simp add: c' settled_state_def delete_batch_def)
    show "settled_inbox_chain (on_chain ?g) = chain_at P ?g (unat (settled_inbox_cursor (on_chain ?g)))"
      using old(4) [OF sealed] by (simp add: c' settled_state_def delete_batch_def)
    show "box_told P ?g i entry" if "inbox_boxes (on_chain ?g) i = Some entry" for i entry
      using old(5) [of i entry] that by (simp add: c' settled_state_def delete_batch_def)
  qed (simp add: c' settled_state_def delete_batch_def)
qed

section \<open>The open batch\<close>

text \<open>The accumulator is the commitment's fold over the chunks posted so far, cut as the length says.\<close>

definition chunks_fold :: "avm \<Rightarrow> primitives \<Rightarrow> u64 \<Rightarrow> byte list list \<Rightarrow> bytes32" where
  "chunks_fold A P len cs =
     foldl (\<lambda>acc chunk. accumulate_chunk (sha256 P) acc (chunk_digest (sha256 P) chunk))
       (chunk_accumulator_seed (sha256 P) (contract_domain A) (unat len)) cs"

definition batch_told :: "avm \<Rightarrow> primitives \<Rightarrow> chronicle \<Rightarrow> bool" where
  "batch_told A P g \<longleftrightarrow>
     (\<forall>len. batch_length (on_chain g) = Some len \<longrightarrow>
        (\<exists>posted. posted_length (on_chain g) = Some posted \<and> unat posted = length (concat (posted_chunks g)) \<and> unat posted \<le> unat len
          \<and> (\<forall>cs. canonical_cut CHUNK_SIZE (unat len - unat posted) cs \<longrightarrow> canonical_cut CHUNK_SIZE (unat len) (posted_chunks g @ cs)))
        \<and> chunk_accumulator (on_chain g) = Some (chunks_fold A P len (posted_chunks g)))"

lemma batch_told_forget:
  assumes "batch_told A P g"
    and "batch_length (on_chain g') = None \<or>
      batch_length (on_chain g') = batch_length (on_chain g) \<and> posted_length (on_chain g') = posted_length (on_chain g)
      \<and> chunk_accumulator (on_chain g') = chunk_accumulator (on_chain g) \<and> posted_chunks g' = posted_chunks g"
  shows "batch_told A P g'"
  using assms by (auto simp: batch_told_def)

text \<open>The calls that leave the open batch as it is, or drop it.\<close>

fun moves_batch :: "contract_call \<Rightarrow> bool" where
  "moves_batch (OpenBatch len target) = True"
| "moves_batch (AccumulateChunk chunk) = True"
| "moves_batch (VerifyBatch verifier signals vals) = True"
| "moves_batch _ = False"

lemma perform_leaves_batch:
  assumes ok: "perform A t m c = Inr c'" and still: "\<not> moves_batch m"
  shows "batch_length c' = None \<or>
      batch_length c' = batch_length c \<and> posted_length c' = posted_length c \<and> chunk_accumulator c' = chunk_accumulator c"
  using perform_effect [OF ok] still
  by (cases m) (auto simp: effect_defs)

lemma history_batch_told:
  assumes "history A P g" and same: "same_hash A P"
  shows "batch_told A P g"
  using assms(1)
proof (induction rule: history.induct)
  case (created min_balance balance v p r timeout grace council delay)
  show ?case by (simp add: batch_told_def first_chronicle_def create_application_def)
next
  case (donated g n)
  then show ?case by (auto intro: batch_told_forget)
next
  case (called g m t c')
  show ?case
  proof (cases "moves_batch m")
    case False
    from perform_leaves_batch [OF called.hyps(3) False] show ?thesis
      using False by (intro batch_told_forget [OF called.IH]) (cases m, auto)
  next
    case True
    then show ?thesis
    proof (cases m)
      case (OpenBatch len target)
      with called.hyps(3) have "open_batch A t len target (on_chain g) = Inr c'" by simp
      from open_batch_effect [OF this] same show ?thesis
        by (elim exE conjE)
           (simp add: OpenBatch batch_told_def chunks_fold_def chunk_accumulator_seed_def same_hash_def)
    next
      case (AccumulateChunk chunk)
      with called.hyps(3) have "contract_accumulate_chunk A t chunk (on_chain g) = Inr c'" by simp
      from contract_accumulate_chunk_effect [OF this] obtain len posted accumulator posted' where
        facts: "batch_length (on_chain g) = Some len" "posted_length (on_chain g) = Some posted"
          "chunk_accumulator (on_chain g) = Some accumulator" "unat posted < unat len"
          "length chunk = min CHUNK_SIZE (unat len - unat posted)" "unat posted' = unat posted + length chunk"
        and c': "c' = (on_chain g)\<lparr>chunk_accumulator := Some (avm_sha256 A (ascii ''CHUNK'' @ bytes_of accumulator @ bytes_of (avm_sha256 A chunk))),
           posted_length := Some posted'\<rparr>"
        by blast
      from called.IH facts(1,2,3) have told: "unat posted = length (concat (posted_chunks g))"
          "\<And>cs. canonical_cut CHUNK_SIZE (unat len - unat posted) cs \<Longrightarrow> canonical_cut CHUNK_SIZE (unat len) (posted_chunks g @ cs)"
          "accumulator = chunks_fold A P len (posted_chunks g)"
        by (auto simp: batch_told_def simp del: CHUNK_SIZE_eq)
      have "canonical_cut CHUNK_SIZE (unat len) ((posted_chunks g @ [chunk]) @ cs)"
        if "canonical_cut CHUNK_SIZE (unat len - unat posted') cs" for cs
        using told(2) [of "chunk # cs"] that facts(4-6) by (simp del: CHUNK_SIZE_eq)
      moreover have "chunks_fold A P len (posted_chunks g @ [chunk])
          = avm_sha256 A (ascii ''CHUNK'' @ bytes_of accumulator @ bytes_of (avm_sha256 A chunk))"
        using same by (simp add: chunks_fold_def told(3) accumulate_chunk_def chunk_digest_def same_hash_def)
      moreover have "unat posted' \<le> unat len" using facts(4-6) by simp
      ultimately show ?thesis
        using facts told(1) by (simp add: AccumulateChunk batch_told_def c' del: CHUNK_SIZE_eq)
    qed (use called.hyps in auto)
  qed
next
  case (settled g t verifier signals vals c' domain old_root anchor batch_bytes sidecar_bytes b s)
  from contract_verify_batch_effect [OF settled.hyps(2)] have "batch_length c' = None"
    by (elim exE conjE) (simp add: settled_state_def delete_batch_def)
  then show ?case by (simp add: batch_told_def)
qed

text \<open>Fully posted, the accumulator is the crate's commitment to the bytes posted, cut where it cuts.\<close>

lemma fully_posted:
  assumes "batch_told A P g" and "batch_length (on_chain g) = Some len" and "posted_length (on_chain g) = Some len"
  shows "unat len = length (concat (posted_chunks g))"
    and "posted_chunks g = chunks CHUNK_SIZE (concat (posted_chunks g))"
    and "chunk_accumulator (on_chain g) = Some (batch_commitment (sha256 P) (contract_domain A) (concat (posted_chunks g)))"
proof -
  have len: "unat len = length (concat (posted_chunks g))" and acc: "chunk_accumulator (on_chain g) = Some (chunks_fold A P len (posted_chunks g))"
    and cut: "canonical_cut CHUNK_SIZE (unat len) (posted_chunks g @ [])"
    using assms by (auto simp: batch_told_def simp del: CHUNK_SIZE_eq append_Nil2)
  show "unat len = length (concat (posted_chunks g))" by (rule len)
  have "posted_chunks g = chunks CHUNK_SIZE (concat (posted_chunks g))"
    using canonical_cut_unique [of CHUNK_SIZE "unat len" "posted_chunks g"] cut by simp
  then show "posted_chunks g = chunks CHUNK_SIZE (concat (posted_chunks g))" .
  then show "chunk_accumulator (on_chain g) = Some (batch_commitment (sha256 P) (contract_domain A) (concat (posted_chunks g)))"
    using acc len by (simp add: chunks_fold_def batch_commitment_def del: CHUNK_SIZE_eq)
qed

end
