(* ===== verification/Contract_Solvency.thy ===== *)
theory Contract_Solvency
  imports Contract_History
begin

text \<open>
  What the contract owes, and that it always has it. Short of a collision, a settlement moves the
  contract from the accounts of one tree to those of the next exactly as the specification says, the
  pending chain is the chain of the payouts still due, and the account holds, beyond its minimum,
  every balance not yet exited, every payout due and every deposit no batch has consumed.
\<close>

section \<open>A settlement is a run of the specification\<close>

lemma guest_main_Inr:
  assumes "guest_main P domain old_root anchor batch_bytes sidecar_bytes = Inr vals"
    and "batch_decode batch_bytes = Inr b" and "sidecar_decode sidecar_bytes b = Inr s"
  shows "\<exists>rt i w. verify_batch P (b32 domain) (b32 old_root) (b32 anchor) b s = Inr (rt, i, w)
    \<and> vals = public_values (sha256 P) (b32 domain) (b32 old_root) rt batch_bytes (b32 anchor) i w"
proof -
  have "execute P (b32 domain) (b32 old_root) (b32 anchor) batch_bytes sidecar_bytes = Inr vals"
    using assms(1) by (auto simp: guest_main_def try_into_32_def and_then_Inr_iff map_sum_def split: if_splits sum.splits)
  from execute_Inr [OF this] assms(2,3) show ?thesis by auto
qed

text \<open>The items between the two cursors are the ones a settlement consumes.\<close>

definition next_items :: "chronicle \<Rightarrow> u64 \<Rightarrow> inbox_item list" where
  "next_items g cursor = drop (unat (settled_inbox_cursor (on_chain g))) (take (unat cursor) (arrived g))"

lemma settled_then_next:
  assumes "unat (settled_inbox_cursor (on_chain g)) \<le> unat cursor" and "unat cursor \<le> length (arrived g)"
  shows "settled_items g @ next_items g cursor = take (unat cursor) (arrived g)"
proof -
  have "take (unat (settled_inbox_cursor (on_chain g))) (take (unat cursor) (arrived g)) = settled_items g"
    using assms(1) by (simp add: settled_items_def min_def)
  then show ?thesis by (metis append_take_drop_id next_items_def)
qed

lemma settlement_is_run:
  assumes told: "inbox_told P g" "batch_told A P g" and kept: "well_kept (on_chain g)"
    and tree: "wf_tree (sha256 P) (settled_tree g)" "contract_root (on_chain g) = root (sha256 P) (settled_tree g)"
    and ok: "contract_verify_batch A t verifier signals vals (on_chain g) = Inr c'"
    and guest: "guest_main P domain old_root anchor batch_bytes sidecar_bytes = Inr vals"
    and decoded: "batch_decode batch_bytes = Inr b" "sidecar_decode sidecar_bytes b = Inr s"
    and cf: "collision_free (sha256 P) (settlement_strings A P g (b32 domain) batch_bytes b s)"
  defines "t' \<equiv> merkle.track (sha256 P) (settled_tree g) (batch_events b s)"
  shows "b32 domain = contract_domain A" and "batch_bytes = concat (posted_chunks g)"
    and "sealed_inbox_cursor (on_chain g) = Some (settled_inbox_cursor c')"
    and "batch_inbox_items b = next_items g (settled_inbox_cursor c')"
    and "wf_tree (sha256 P) t'" and "contract_root c' = root (sha256 P) t'"
    and "spec_txns P (contract_domain A) (batch_signed b s)
        \<lparr>spec_accounts = tree_accounts (settled_tree g), spec_items = [], spec_payouts = []\<rparr>
      = Inr \<lparr>spec_accounts = tree_accounts t', spec_items = batch_inbox_items b, spec_payouts = withdrawal_payouts b s\<rparr>"
    and "b32 (slice 160 192 vals) = withdrawal_chain (sha256 P) (contract_domain A) (withdrawal_payouts b s)"
proof -
  let ?H = "sha256 P" and ?c = "on_chain g" and ?t = "settled_tree g"
  obtain rt i w where v: "verify_batch P (b32 domain) (b32 old_root) (b32 anchor) b s = Inr (rt, i, w)"
    and vals: "vals = public_values ?H (b32 domain) (b32 old_root) rt batch_bytes (b32 anchor) i w"
    using guest_main_Inr [OF guest decoded] by blast
  note slices = slice_public_values [OF vals]
  from contract_verify_batch_effect [OF ok] obtain len sealed cursor deadline target progress where
    posted: "batch_length ?c = Some len" "posted_length ?c = Some len"
    and sealed: "sealed_inbox_chain ?c = Some sealed" "sealed_inbox_cursor ?c = Some cursor"
    and words: "b32 (slice 0 32 vals) = contract_root ?c" "chunk_accumulator ?c = Some (b32 (slice 64 96 vals))"
      "b32 (slice 96 128 vals) = settled_inbox_chain ?c" "b32 (slice 128 160 vals) = sealed"
    and c': "c' = (settled_state A vals sealed cursor ?c)
         \<lparr>escape_deadline := deadline, escape_inbox_target := target, escape_progress := progress\<rparr>"
    by (elim exE conjE) (rule that)
  have cfs: "collision_free ?H (event_preimages ?H ?t (batch_events b s))"
    "collision_free ?H (commitment_preimages ?H (b32 domain) batch_bytes
       @ commitment_preimages ?H (contract_domain A) (concat (posted_chunks g)))"
    "collision_free ?H (inbox_preimages ?H INBOX_CHAIN_GENESIS (settled_items g @ batch_inbox_items b)
       @ inbox_preimages ?H INBOX_CHAIN_GENESIS (arrived g))"
    by (rule collision_free_mono [OF cf], auto simp: settlement_strings_def)+
  have "batch_commitment ?H (b32 domain) batch_bytes = batch_commitment ?H (contract_domain A) (concat (posted_chunks g))"
    using fully_posted(3) [OF told(2) posted] words(2) slices(3) by simp
  from batch_commitment_pins [OF cfs(2) this]
  show dom: "b32 domain = contract_domain A" and "batch_bytes = concat (posted_chunks g)" by auto
  have cursor: "settled_inbox_cursor c' = cursor" by (simp add: c' settled_state_def delete_batch_def)
  with sealed show "sealed_inbox_cursor ?c = Some (settled_inbox_cursor c')" by simp
  have old_root: "b32 old_root = root ?H ?t" using words(1) slices(1) tree(2) by simp
  note run = verify_batch_tracks [OF tree(1) cfs(1) v [unfolded old_root]]
  show "wf_tree ?H t'" using run(2) by (simp add: t'_def)
  show "contract_root c' = root ?H t'"
    using run(3) slices(2) by (simp add: t'_def c' settled_state_def delete_batch_def)
  show "spec_txns P (contract_domain A) (batch_signed b s)
        \<lparr>spec_accounts = tree_accounts ?t, spec_items = [], spec_payouts = []\<rparr>
      = Inr \<lparr>spec_accounts = tree_accounts t', spec_items = batch_inbox_items b, spec_payouts = withdrawal_payouts b s\<rparr>"
    using run(1) by (simp add: t'_def dom)
  note outs = verify_batch_outputs [OF v]
  show "b32 (slice 160 192 vals) = withdrawal_chain ?H (contract_domain A) (withdrawal_payouts b s)"
    using outs slices(6) by (simp add: dom)
  show "batch_inbox_items b = next_items g (settled_inbox_cursor c')"
  proof -
    note below = sealed_below [OF kept sealed(2)]
    have len: "unat cursor \<le> length (arrived g)" using below(2) inbox_toldD(1) [OF told(1)] by simp
    let ?h = "settled_items g" and ?n = "next_items g cursor"
    have "inbox.fold_chain ?H (inbox.fold_chain ?H INBOX_CHAIN_GENESIS ?h) (batch_inbox_items b) = sealed"
      using outs(1) words(3,4) slices(4,5) inbox_toldD(3) [OF told(1)]
      by (simp add: chain_at_def settled_items_def)
    also have "\<dots> = inbox.fold_chain ?H INBOX_CHAIN_GENESIS (?h @ ?n)"
      using inbox_toldD(4) [OF told(1) sealed] by (simp add: chain_at_def settled_then_next [OF below(1) len] del: inbox.fold_chain_append)
    finally have "inbox.fold_chain ?H (inbox.fold_chain ?H zero32 ?h) (batch_inbox_items b)
        = inbox.fold_chain ?H (inbox.fold_chain ?H zero32 ?h) ?n"
      by (simp add: INBOX_CHAIN_GENESIS_def)
    moreover have "collision_free ?H (inbox.preimages ?H zero32 (?h @ batch_inbox_items b) @ inbox.preimages ?H zero32 (?h @ ?n))"
    proof (rule collision_free_mono [OF cfs(3)])
      have "arrived g = (?h @ ?n) @ drop (unat cursor) (arrived g)"
        by (simp add: settled_then_next [OF below(1) len] del: append_assoc)
      then have "set (inbox.preimages ?H zero32 (?h @ ?n)) \<subseteq> set (inbox.preimages ?H zero32 (arrived g))"
        by (metis Un_upper1 inbox.preimages_append set_append)
      then show "set (inbox.preimages ?H zero32 (?h @ batch_inbox_items b) @ inbox.preimages ?H zero32 (?h @ ?n))
          \<subseteq> set (inbox_preimages ?H INBOX_CHAIN_GENESIS (?h @ batch_inbox_items b) @ inbox_preimages ?H INBOX_CHAIN_GENESIS (arrived g))"
        by (auto simp: inbox_preimages_def INBOX_CHAIN_GENESIS_def)
    qed
    ultimately have "batch_inbox_items b = ?n" using inbox.chain_pins_suffix by blast
    then show ?thesis by (simp add: cursor)
  qed
qed

section \<open>What is owed\<close>

definition owed_box :: "contract \<Rightarrow> nat \<Rightarrow> nat" where
  "owed_box c i = (case inbox_boxes c (of_nat i) of None \<Rightarrow> 0 | Some entry \<Rightarrow> unat (record_amount entry))"

text \<open>Deposits no batch has consumed and nobody has reclaimed; balances nobody has exited.\<close>

definition unsettled_deposits :: "contract \<Rightarrow> nat" where
  "unsettled_deposits c = (\<Sum>i = unat (settled_inbox_cursor c)..<unat (inbox_cursor c). owed_box c i)"

definition unexited :: "chronicle \<Rightarrow> account_map" where
  "unexited g = tree_accounts (settled_tree g) |` {a. exits (on_chain g) a = None}"

definition owed :: "chronicle \<Rightarrow> nat" where
  "owed g = total (unexited g) + paid_out (dues g) + unsettled_deposits (on_chain g)"

definition solvent :: "chronicle \<Rightarrow> bool" where
  "solvent g \<longleftrightarrow> app_min_balance (on_chain g) + owed g \<le> app_balance (on_chain g)"

text \<open>The payouts due are the ones the pending chain commits to.\<close>

definition dues_told :: "avm \<Rightarrow> primitives \<Rightarrow> chronicle \<Rightarrow> bool" where
  "dues_told A P g \<longleftrightarrow>
     wf_tree (sha256 P) (settled_tree g) \<and> contract_root (on_chain g) = root (sha256 P) (settled_tree g)
     \<and> pending_withdrawals (on_chain g)
         = (if dues g = [] then None else Some (withdrawal_chain (sha256 P) (contract_domain A) (dues g)))
     \<and> (dues g \<noteq> [] \<longrightarrow> set (payout_preimages (sha256 P) (contract_domain A) (dues g)) \<subseteq> set (hashed_strings g))"

text \<open>Calls that neither move money nor change who is owed what.\<close>

definition same_books :: "contract \<Rightarrow> contract \<Rightarrow> bool" where
  "same_books c c' \<longleftrightarrow> app_balance c' = app_balance c \<and> app_min_balance c' = app_min_balance c \<and> exits c' = exits c
     \<and> inbox_boxes c' = inbox_boxes c \<and> inbox_cursor c' = inbox_cursor c \<and> settled_inbox_cursor c' = settled_inbox_cursor c
     \<and> pending_withdrawals c' = pending_withdrawals c \<and> contract_root c' = contract_root c"

fun moves_money :: "contract_call \<Rightarrow> bool" where
  "moves_money (MakeDeposit payment recipient) = True"
| "moves_money (RequestWithdrawal payment n address recipient scheme key sig) = True"
| "moves_money (PruneRequest i) = True"
| "moves_money (PruneDeposit i) = True"
| "moves_money (ReclaimDeposit i) = True"
| "moves_money (PayWithdrawal recipient amt tail) = True"
| "moves_money (ForceExit address n amt auth scheme key sig recipient sibs) = True"
| "moves_money (VerifyBatch verifier signals vals) = True"
| "moves_money _ = False"

lemma perform_same_books:
  assumes ok: "perform A t m c = Inr c'" and still: "\<not> moves_money m"
  shows "same_books c c'"
  using perform_effect [OF ok] still
  by (cases m) (auto simp: same_books_def effect_defs)

lemma same_books_dues:
  assumes "dues_told A P g" and "same_books (on_chain g) (on_chain g')"
    and "settled_tree g' = settled_tree g" "dues g' = dues g" "hashed_strings g' = hashed_strings g"
  shows "dues_told A P g'"
  using assms by (simp add: dues_told_def same_books_def)

lemma same_books_solvent:
  assumes "solvent g" and "same_books (on_chain g) (on_chain g')"
    and "settled_tree g' = settled_tree g" "dues g' = dues g"
  shows "solvent g'"
proof -
  have "owed_box (on_chain g') i = owed_box (on_chain g) i" for i
    using assms(2) by (simp add: owed_box_def same_books_def)
  then have "unsettled_deposits (on_chain g') = unsettled_deposits (on_chain g)"
    using assms(2) by (simp add: unsettled_deposits_def same_books_def)
  with assms show ?thesis by (simp add: solvent_def owed_def unexited_def same_books_def)
qed

section \<open>Sums\<close>

lemma unat_lt_of_nat: "i < unat (k :: u64) \<Longrightarrow> unat (of_nat i :: u64) = i"
  using order_less_trans [OF _ unat_u64_bound [of k], of i] by (simp add: unat_of_nat)

text \<open>Appending a box adds what it records.\<close>

lemma unsettled_deposits_append:
  assumes "inbox_boxes c' = (inbox_boxes c)(inbox_cursor c \<mapsto> entry)"
    and "unat (inbox_cursor c') = unat (inbox_cursor c) + 1" "settled_inbox_cursor c' = settled_inbox_cursor c"
    and "unat (settled_inbox_cursor c) \<le> unat (inbox_cursor c)"
  shows "unsettled_deposits c' = unsettled_deposits c + unat (record_amount entry)"
proof -
  have early: "owed_box c' i = owed_box c i" if "i < unat (inbox_cursor c)" for i
  proof -
    have "of_nat i \<noteq> inbox_cursor c" using unat_lt_of_nat [OF that] that by (metis less_irrefl)
    then show ?thesis by (simp add: owed_box_def assms(1))
  qed
  have last: "owed_box c' (unat (inbox_cursor c)) = unat (record_amount entry)"
    by (simp add: owed_box_def assms(1))
  have "unsettled_deposits c'
      = (\<Sum>i = unat (settled_inbox_cursor c)..<unat (inbox_cursor c). owed_box c' i) + owed_box c' (unat (inbox_cursor c))"
    using assms(2-4) by (simp add: unsettled_deposits_def)
  also have "(\<Sum>i = unat (settled_inbox_cursor c)..<unat (inbox_cursor c). owed_box c' i) = unsettled_deposits c"
    unfolding unsettled_deposits_def by (rule sum.cong) (auto simp: early)
  finally show ?thesis by (simp add: last)
qed

text \<open>Removing a box that is still waiting takes away what it recorded.\<close>

lemma unsettled_deposits_remove:
  assumes boxes: "inbox_boxes c' = (inbox_boxes c)(i := None)" and box: "inbox_boxes c i = Some entry"
    and cursors: "inbox_cursor c' = inbox_cursor c" "settled_inbox_cursor c' = settled_inbox_cursor c"
    and below: "unat i < unat (inbox_cursor c)"
  shows "unsettled_deposits c' + (if unat (settled_inbox_cursor c) \<le> unat i then unat (record_amount entry) else 0)
    = unsettled_deposits c"
proof -
  let ?S = "{unat (settled_inbox_cursor c)..<unat (inbox_cursor c)}"
  have other: "owed_box c' k = owed_box c k" if "k \<in> ?S" "k \<noteq> unat i" for k
  proof -
    have "of_nat k \<noteq> i" using unat_lt_of_nat [of k "inbox_cursor c"] that by auto
    then show ?thesis by (simp add: owed_box_def boxes)
  qed
  show ?thesis
  proof (cases "unat (settled_inbox_cursor c) \<le> unat i")
    case True
    then have "unat i \<in> ?S" using below by simp
    then have "unsettled_deposits c = owed_box c (unat i) + (\<Sum>k \<in> ?S - {unat i}. owed_box c k)"
      and "unsettled_deposits c' = owed_box c' (unat i) + (\<Sum>k \<in> ?S - {unat i}. owed_box c' k)"
      by (simp_all add: unsettled_deposits_def cursors sum.remove)
    moreover have "owed_box c (unat i) = unat (record_amount entry)" "owed_box c' (unat i) = 0"
      by (simp_all add: owed_box_def boxes box)
    moreover have "(\<Sum>k \<in> ?S - {unat i}. owed_box c' k) = (\<Sum>k \<in> ?S - {unat i}. owed_box c k)"
      by (rule sum.cong) (auto simp: other)
    ultimately show ?thesis using True by simp
  next
    case False
    then have "owed_box c' k = owed_box c k" if "k \<in> ?S" for k using other that by auto
    then have "unsettled_deposits c' = unsettled_deposits c"
      unfolding unsettled_deposits_def cursors by (intro sum.cong) auto
    with False show ?thesis by simp
  qed
qed

text \<open>Consuming boxes takes away what their items deposited.\<close>

lemma deposited_drop_take:
  "s \<le> k \<Longrightarrow> k \<le> length xs \<Longrightarrow> deposited (drop s (take k xs)) = (\<Sum>i = s..<k. deposited [xs ! i])"
proof (induction k)
  case (Suc k)
  show ?case
  proof (cases "s = Suc k")
    case False
    with Suc have "drop s (take (Suc k) xs) = drop s (take k xs) @ [xs ! k]" by (simp add: take_Suc_conv_app_nth)
    with Suc False show ?thesis by simp
  qed (use Suc.prems in \<open>simp add: deposited_def\<close>)
qed (simp add: deposited_def)

lemma box_told_deposited: "box_told P g i entry \<Longrightarrow> unat (record_amount entry) = deposited [arrived g ! unat i]"
  by (auto simp: box_told_def record_item_def deposited_def split: if_splits)
     (metis inbox_item.distinct(1) inbox_item.inject(1) inbox_item.simps(5,6) option.inject)+

lemma unsettled_deposits_settle:
  assumes told: "inbox_told P g" and kept: "inbox_kept (on_chain g)" and live: "\<not> escaped (on_chain g)"
    and c': "inbox_boxes c' = inbox_boxes (on_chain g)" "inbox_cursor c' = inbox_cursor (on_chain g)"
    and order: "unat (settled_inbox_cursor (on_chain g)) \<le> unat (settled_inbox_cursor c')"
      "unat (settled_inbox_cursor c') \<le> unat (inbox_cursor (on_chain g))"
  shows "unsettled_deposits (on_chain g) = deposited (next_items g (settled_inbox_cursor c')) + unsettled_deposits c'"
proof -
  let ?s = "unat (settled_inbox_cursor (on_chain g))" and ?k = "unat (settled_inbox_cursor c')"
    and ?n = "unat (inbox_cursor (on_chain g))"
  have same: "owed_box c' i = owed_box (on_chain g) i" for i by (simp add: owed_box_def c')
  have item: "owed_box (on_chain g) i = deposited [arrived g ! i]" if "?s \<le> i" "i < ?n" for i
  proof -
    have i: "unat (of_nat i :: u64) = i" using unat_lt_of_nat that(2) .
    obtain entry where e: "inbox_boxes (on_chain g) (of_nat i) = Some entry"
      using inbox_keptD(4) [OF kept live, of "of_nat i"] i \<open>?s \<le> i\<close> \<open>i < ?n\<close> by auto
    with box_told_deposited [OF inbox_toldD(5) [OF told e]] i show ?thesis by (simp add: owed_box_def)
  qed
  have "unsettled_deposits (on_chain g) = (\<Sum>i = ?s..<?k. owed_box (on_chain g) i) + (\<Sum>i = ?k..<?n. owed_box (on_chain g) i)"
    unfolding unsettled_deposits_def using order by (simp add: sum.atLeastLessThan_concat)
  also have "(\<Sum>i = ?s..<?k. owed_box (on_chain g) i) = (\<Sum>i = ?s..<?k. deposited [arrived g ! i])"
    by (rule sum.cong) (use item order in auto)
  also have "\<dots> = deposited (next_items g (settled_inbox_cursor c'))"
    using deposited_drop_take [of ?s ?k "arrived g"] order inbox_toldD(1) [OF told] by (simp add: next_items_def)
  finally show ?thesis by (simp add: unsettled_deposits_def same c')
qed

lemma restrict_map_UNIV [simp]: "m |` UNIV = m"
  by (rule ext) simp

lemma finite_tree_accounts: "finite (dom (tree_accounts t))"
  by (simp add: tree_accounts_def)

lemma root_tree_new: "root H tree_new = zero32"
  by (simp add: root_def tree_new_def EMPTY_SUBTREE_def)

text \<open>Exiting an account takes its balance away.\<close>

lemma total_without:
  assumes "finite (dom m)" and "m a = Some acc" and "a \<in> S"
  shows "total (m |` S) = unat (amount acc) + total (m |` (S - {a}))"
proof -
  have dom: "dom (m |` (S - {a})) = dom (m |` S) - {a}" by auto
  have "a \<in> dom (m |` S)" using assms by auto
  moreover have "finite (dom (m |` S))" using assms(1) by simp
  ultimately have "total (m |` S) = unat (balance_of ((m |` S) a)) + (\<Sum>b\<in>dom (m |` S) - {a}. unat (balance_of ((m |` S) b)))"
    by (simp add: total_def sum.remove)
  also have "(\<Sum>b\<in>dom (m |` S) - {a}. unat (balance_of ((m |` S) b))) = total (m |` (S - {a}))"
    unfolding total_def dom by (rule sum.cong) (auto simp: restrict_map_def)
  finally show ?thesis using assms(2,3) by (simp add: balance_of_def)
qed

section \<open>Every call keeps the books\<close>

lemma dues_toldD:
  assumes "dues_told A P g"
  shows "wf_tree (sha256 P) (settled_tree g)" "contract_root (on_chain g) = root (sha256 P) (settled_tree g)"
    "pending_withdrawals (on_chain g)
       = (if dues g = [] then None else Some (withdrawal_chain (sha256 P) (contract_domain A) (dues g)))"
    "dues g \<noteq> [] \<Longrightarrow> set (payout_preimages (sha256 P) (contract_domain A) (dues g)) \<subseteq> set (hashed_strings g)"
  using assms by (simp_all add: dues_told_def)

lemma solventD: "solvent g \<Longrightarrow> app_min_balance (on_chain g) + owed g \<le> app_balance (on_chain g)"
  by (simp add: solvent_def)

text \<open>The inbox: what a depositor adds is what the contract then owes, and the box.\<close>

lemma appended_solvent:
  assumes "solvent g" and kept: "inbox_kept (on_chain g)"
    and next_index: "unat next_index = unat (inbox_cursor (on_chain g)) + 1"
    and paid: "unat (record_amount entry) + charge \<le> paid"
    and c': "c' = appended next_index paid charge entry (on_chain g)
      \<or> c' = (appended next_index paid charge entry (on_chain g))\<lparr>request_cursor := n\<rparr>"
    and g': "on_chain g' = c'" "settled_tree g' = settled_tree g" "dues g' = dues g"
  shows "solvent g'"
proof -
  have "unsettled_deposits c' = unsettled_deposits (on_chain g) + unat (record_amount entry)"
    by (rule unsettled_deposits_append)
       (use c' next_index inbox_keptD(1) [OF kept] in \<open>auto simp: appended_def\<close>)
  moreover have "unexited g' = unexited g" using c' g' by (auto simp: unexited_def appended_def)
  moreover have "app_min_balance c' = app_min_balance (on_chain g) + charge" "app_balance c' = app_balance (on_chain g) + paid"
    using c' by (auto simp: appended_def)
  ultimately show ?thesis using assms(1) paid g' by (simp add: solvent_def owed_def)
qed

text \<open>A box removed: its minimum is released, and with it at most what a waiting deposit recorded.\<close>

lemma box_removed_solvent:
  assumes "solvent g" and kept: "inbox_kept (on_chain g)"
    and box: "inbox_boxes (on_chain g) i = Some entry"
    and c': "c' = box_removed i released left p (on_chain g)" and "released \<le> app_min_balance (on_chain g)"
    and left: "app_balance (on_chain g) \<le> left + released + paid"
    and paid: "paid = 0 \<or> paid = unat (record_amount entry) \<and> unat (settled_inbox_cursor (on_chain g)) \<le> unat i"
    and g': "on_chain g' = c'" "settled_tree g' = settled_tree g" "dues g' = dues g"
  shows "solvent g'"
proof -
  have "unsettled_deposits c' + (if unat (settled_inbox_cursor (on_chain g)) \<le> unat i then unat (record_amount entry) else 0)
      = unsettled_deposits (on_chain g)"
    by (rule unsettled_deposits_remove [OF _ box]) (use inbox_keptD(2) [OF kept box] in \<open>simp_all add: c' box_removed_def\<close>)
  then have "unsettled_deposits c' + paid \<le> unsettled_deposits (on_chain g)" using paid by (auto split: if_splits)
  moreover have "unexited g' = unexited g" using g' by (simp add: unexited_def c' box_removed_def)
  moreover have "app_min_balance c' = app_min_balance (on_chain g) - released" "app_balance c' = left"
    by (simp_all add: c' box_removed_def)
  ultimately show ?thesis using assms(1,5) left g' by (simp add: solvent_def owed_def)
qed

text \<open>A payout: short of a collision it is the first one due.\<close>

lemma payout_is_due:
  assumes told: "dues_told A P g" and same: "same_hash A P"
    and head: "pending_withdrawals (on_chain g) = Some (sha256 P (payout_step tail (recipient, amt)))"
    and cf: "collision_free (sha256 P) (hashed_strings g @ [payout_step tail (recipient, amt)])"
  shows "\<exists>ps. dues g = (recipient, amt) # ps \<and> tail = withdrawal_chain (sha256 P) (contract_domain A) ps
    \<and> set (payout_preimages (sha256 P) (contract_domain A) ps) \<subseteq> set (hashed_strings g)
    \<and> (tail = withdrawal_terminal A \<longleftrightarrow> ps = [])"
proof -
  let ?H = "sha256 P" and ?d = "contract_domain A"
  note old = dues_toldD [OF told]
  from head old(3) have ne: "dues g \<noteq> []" by auto
  then obtain r a ps where dues: "dues g = (r, a) # ps" by (cases "dues g") auto
  have pre: "payout_preimages ?H ?d ((r, a) # ps) = payout_preimages ?H ?d ps @ [payout_step (withdrawal_chain ?H ?d ps) (r, a)]"
    for r a ps by (simp add: payout_preimages_def withdrawal_chain_fold)
  have known: "set (payout_preimages ?H ?d ps) \<subseteq> set (hashed_strings g)" "payout_step (withdrawal_chain ?H ?d ps) (r, a) \<in> set (hashed_strings g)"
    using old(4) [OF ne] by (simp_all add: dues pre)
  have "?H (payout_step tail (recipient, amt)) = ?H (payout_step (withdrawal_chain ?H ?d ps) (r, a))"
    using head old(3) ne by (simp add: dues accumulate_withdrawal_def payout_step_def)
  then have "payout_step tail (recipient, amt) = payout_step (withdrawal_chain ?H ?d ps) (r, a)"
    by (intro collision_freeD [OF cf]) (use known(2) in simp_all)
  then have eq: "tail = withdrawal_chain ?H ?d ps" "(recipient, amt) = (r, a)"
    by (simp_all add: payout_chain.step_inject)
  have "ps = []" if "tail = withdrawal_terminal A"
  proof (rule ccontr)
    assume "ps \<noteq> []"
    then obtain r' a' qs where ps: "ps = (r', a') # qs" by (cases ps) auto
    have "?H (payout_step (withdrawal_chain ?H ?d qs) (r', a')) = ?H (payout_anchor ?d)"
      using that eq(1) same by (simp add: ps withdrawal_terminal_eq same_hash_def withdrawal_chain_terminal_def
          payout_anchor_def accumulate_withdrawal_def payout_step_def)
    then have "payout_step (withdrawal_chain ?H ?d qs) (r', a') = payout_anchor ?d"
    proof (rule collision_freeD [OF cf, rotated 2])
      show "payout_step (withdrawal_chain ?H ?d qs) (r', a') \<in> set (hashed_strings g @ [payout_step tail (recipient, amt)])"
        using known(1) unfolding ps pre by auto
      show "payout_anchor ?d \<in> set (hashed_strings g @ [payout_step tail (recipient, amt)])"
        using known(1) unfolding payout_preimages_def by auto
    qed
    then show False by (metis payout_chain.anchor_not_step)
  qed
  moreover have "tail = withdrawal_terminal A" if "ps = []"
    using that eq(1) same by (simp add: withdrawal_terminal_eq same_hash_def)
  ultimately show ?thesis using dues eq known(1) by auto
qed

text \<open>An exit: short of a collision the account is the tree's, whole.\<close>

lemma exit_is_held:
  assumes told: "dues_told A P g" and same: "same_hash A P"
    and climb: "exit_climb A a sibs (length sibs div 32) (avm_sha256 A (leaf_preimage a acc)) = contract_root (on_chain g)"
    and depth: "length sibs div 32 \<le> 256"
    and cf: "collision_free (sha256 P) (exit_strings (sha256 P) (settled_tree g) a acc sibs)"
  shows "tree_accounts (settled_tree g) a = Some acc"
proof (rule root_from_proof_sound(1))
  note old = dues_toldD [OF told]
  show "wf_tree (sha256 P) (settled_tree g)" by (rule old(1))
  show "collision_free (sha256 P) (tree_preimages (sha256 P) (tree_root (settled_tree g))
      @ proof_preimages (sha256 P) a (Some acc) (from_parts (sibling_words sibs) Own))"
    using cf by (simp add: exit_strings_def)
  show "root_from_proof (sha256 P) a (Some acc) (from_parts (sibling_words sibs) Own) = Some (root (sha256 P) (settled_tree g))"
    using exit_climb_root_from_proof [OF same depth, of a acc] climb same old(2)
    by (simp add: leaf_hash_def same_hash_def)
qed

text \<open>The invariant of the books, one call at a time.\<close>

definition books :: "avm \<Rightarrow> primitives \<Rightarrow> chronicle \<Rightarrow> bool" where
  "books A P g \<longleftrightarrow> dues_told A P g \<and> solvent g"

lemma box_removed_dues:
  "dues_told A P g \<Longrightarrow> dues_told A P (g\<lparr>on_chain := box_removed i released left p (on_chain g)\<rparr>)"
  by (simp add: dues_told_def box_removed_def)

lemma pruned_books:
  assumes books: "books A P g" and inbox: "inbox_kept (on_chain g)"
    and ok: "prune_request A i (on_chain g) = Inr c' \<or> prune_deposit A i (on_chain g) = Inr c'"
  shows "books A P (g\<lparr>on_chain := c'\<rparr>)"
proof -
  from prune_effect [OF ok] obtain entry left where box: "inbox_boxes (on_chain g) i = Some entry"
    and c': "c' = box_removed i (box_release A (on_chain g)) left (record_payer entry, of_nat (box_release A (on_chain g))) (on_chain g)"
    and left: "app_balance (on_chain g) \<le> left + box_release A (on_chain g)"
    by blast
  have "solvent (g\<lparr>on_chain := c'\<rparr>)"
    by (rule box_removed_solvent [OF _ inbox box c' box_release_le, where paid = 0])
       (use books left in \<open>simp_all add: books_def\<close>)
  with books show ?thesis by (simp add: books_def c' box_removed_dues)
qed

lemma reclaimed_books:
  assumes books: "books A P g" and inbox: "inbox_kept (on_chain g)"
    and ok: "reclaim_deposit A i (on_chain g) = Inr c'"
  shows "books A P (g\<lparr>on_chain := c'\<rparr>)"
proof -
  from reclaim_deposit_effect [OF ok] obtain entry amt left where box: "inbox_boxes (on_chain g) i = Some entry"
    and amt: "unat amt = unat (record_amount entry) + box_release A (on_chain g)"
    and waiting: "unat (settled_inbox_cursor (on_chain g)) \<le> unat i"
    and c': "c' = box_removed i (box_release A (on_chain g)) left (record_payer entry, amt) (on_chain g)"
    and left: "app_balance (on_chain g) \<le> left + unat amt"
    by blast
  have "solvent (g\<lparr>on_chain := c'\<rparr>)"
    by (rule box_removed_solvent [OF _ inbox box c' box_release_le, where paid = "unat (record_amount entry)"])
       (use books left amt waiting in \<open>simp_all add: books_def\<close>)
  with books show ?thesis by (simp add: books_def c' box_removed_dues)
qed

lemma call_keeps_books:
  assumes books: "books A P g" and kept: "well_kept (on_chain g)" and told: "inbox_told P g" and same: "same_hash A P"
    and ok: "perform A t m (on_chain g) = Inr c'" and "\<not> settles m"
    and cf: "collision_free (sha256 P) (hashed_strings (record_call (sha256 P) m c' g))"
  shows "books A P (record_call (sha256 P) m c' g)"
proof -
  note dues = books [unfolded books_def, THEN conjunct1] and solvent = books [unfolded books_def, THEN conjunct2]
  note inbox = well_keptD(4) [OF kept]
  show ?thesis
  proof (cases "moves_money m")
    case False
    note quiet = perform_same_books [OF ok False]
    have "settled_tree (record_call (sha256 P) m c' g) = settled_tree g" "dues (record_call (sha256 P) m c' g) = dues g"
        "hashed_strings (record_call (sha256 P) m c' g) = hashed_strings g"
      using False by (cases m; simp)+
    with same_books_dues [OF dues] same_books_solvent [OF solvent] quiet show ?thesis by (simp add: books_def)
  next
    case True
    then show ?thesis
    proof (cases m)
      case (MakeDeposit payment recipient)
      with ok obtain i where "contract_deposit A t payment recipient (on_chain g) = Inr (i, c')"
        by (auto simp: map_sum_def split: sum.splits)
      from contract_deposit_effect [OF this] obtain amt next_index where
        amt: "unat amt + inbox_charge A (on_chain g) = unat (pay_amount payment)"
        and next_index: "unat next_index = unat (inbox_cursor (on_chain g)) + 1"
        and c': "c' = appended next_index (unat (pay_amount payment)) (inbox_charge A (on_chain g))
          \<lparr>record_kind = ascii ''d'', record_address = recipient, record_recipient = zero32, record_amount = amt,
           record_payer = pay_sender payment, record_round = call_round t,
           record_chain_after = avm_sha256 A (inbox_step (live_inbox_chain (on_chain g)) (InboxDeposit recipient amt))\<rparr> (on_chain g)"
        by blast
      have "solvent (record_call (sha256 P) m c' g)"
        by (rule appended_solvent [OF solvent inbox next_index _ disjI1 [OF c']]) (use amt in \<open>simp_all add: MakeDeposit\<close>)
      moreover have "dues_told A P (record_call (sha256 P) m c' g)"
        using dues by (simp add: MakeDeposit dues_told_def c' appended_def)
      ultimately show ?thesis by (simp add: books_def)
    next
      case (RequestWithdrawal payment n address recipient scheme key sig)
      with ok obtain i where "request_withdrawal A t payment n address recipient scheme key sig (on_chain g) = Inr (i, c')"
        by (auto simp: map_sum_def split: sum.splits)
      from request_withdrawal_effect [OF this] obtain next_index next_nonce where
        charge: "inbox_charge A (on_chain g) = unat (pay_amount payment)"
        and next_index: "unat next_index = unat (inbox_cursor (on_chain g)) + 1"
        and c': "c' = (appended next_index (unat (pay_amount payment)) (inbox_charge A (on_chain g))
          \<lparr>record_kind = ascii ''w'', record_address = address, record_recipient = recipient, record_amount = 0,
           record_payer = pay_sender payment, record_round = call_round t,
           record_chain_after = avm_sha256 A (inbox_step (live_inbox_chain (on_chain g)) (InboxForcedWithdrawal address recipient))\<rparr> (on_chain g))
          \<lparr>request_cursor := next_nonce\<rparr>"
        by blast
      have "solvent (record_call (sha256 P) m c' g)"
        by (rule appended_solvent [OF solvent inbox next_index _ disjI2 [OF c']]) (use charge in \<open>simp_all add: RequestWithdrawal\<close>)
      moreover have "dues_told A P (record_call (sha256 P) m c' g)"
        using dues by (simp add: RequestWithdrawal dues_told_def c' appended_def)
      ultimately show ?thesis by (simp add: books_def)
    next
      case (PayWithdrawal recipient amt tail)
      with ok have "pay_withdrawal A t recipient amt tail (on_chain g) = Inr c'" by simp
      from pay_withdrawal_effect [OF this] obtain left deadline progress where
        head: "pending_withdrawals (on_chain g) = Some (avm_sha256 A (payout_step tail (recipient, amt)))"
        and c': "c' = (on_chain g)\<lparr>pending_withdrawals := (if tail = withdrawal_terminal A then None else Some tail),
         escape_deadline := deadline, escape_progress := progress,
         app_balance := left, app_payments := app_payments (on_chain g) @ [(recipient, amt)]\<rparr>"
        and left: "app_balance (on_chain g) \<le> left + unat amt" "app_min_balance (on_chain g) \<le> left"
        by (elim exE conjE) (rule that)
      have "collision_free (sha256 P) (hashed_strings g @ [payout_step tail (recipient, amt)])"
        using cf by (simp add: PayWithdrawal)
      from payout_is_due [OF dues same _ this] head same obtain ps where
        due: "dues g = (recipient, amt) # ps" "tail = withdrawal_chain (sha256 P) (contract_domain A) ps"
          "set (payout_preimages (sha256 P) (contract_domain A) ps) \<subseteq> set (hashed_strings g)"
          "tail = withdrawal_terminal A \<longleftrightarrow> ps = []"
        by (auto simp: same_hash_def)
      have "dues_told A P (record_call (sha256 P) m c' g)"
        using dues due by (auto simp: PayWithdrawal dues_told_def c')
      moreover have "owed_box c' = owed_box (on_chain g)" by (rule ext) (simp add: owed_box_def c')
      then have "solvent (record_call (sha256 P) m c' g)"
        using solvent left due(1)
        by (simp add: PayWithdrawal solvent_def owed_def unexited_def unsettled_deposits_def c' paid_out_def)
      ultimately show ?thesis by (simp add: books_def)
    next
      case (ForceExit address n amt auth scheme key sig recipient sibs)
      with ok have "force_exit A address n amt auth scheme key sig recipient sibs (on_chain g) = Inr c'" by simp
      from force_exit_effect [OF this] obtain left charge payout where
        exit: "exits (on_chain g) address = None" "length sibs div 32 \<le> 256"
          "exit_climb A address sibs (length sibs div 32)
            (avm_sha256 A (leaf_preimage address (account_new n amt auth))) = contract_root (on_chain g)"
        and payout: "unat payout + charge = unat amt"
        and c': "c' = (on_chain g)\<lparr>exits := (exits (on_chain g))(address \<mapsto> amt),
          app_min_balance := app_min_balance (on_chain g) + charge,
          app_balance := left, app_payments := app_payments (on_chain g) @ [(recipient, payout)]\<rparr>"
        and left: "app_balance (on_chain g) \<le> left + unat payout"
        by (elim exE conjE) (rule that)
      have "collision_free (sha256 P) (exit_strings (sha256 P) (settled_tree g) address (account_new n amt auth) sibs)"
        by (rule collision_free_mono [OF cf]) (auto simp: ForceExit)
      from exit_is_held [OF dues same exit(3,2) this]
      have held: "tree_accounts (settled_tree g) address = Some (account_new n amt auth)" .
      have "{a. ((exits (on_chain g))(address \<mapsto> amt)) a = None} = {a. exits (on_chain g) a = None} - {address}"
        using exit(1) by auto
      then have "total (unexited g) = unat amt + total (unexited (record_call (sha256 P) m c' g))"
        using total_without [of "tree_accounts (settled_tree g)" address "account_new n amt auth" "{a. exits (on_chain g) a = None}"]
          exit(1) held finite_tree_accounts
        by (simp add: unexited_def ForceExit c' account_new_def)
      moreover have "owed_box c' = owed_box (on_chain g)" by (rule ext) (simp add: owed_box_def c')
      ultimately have "solvent (record_call (sha256 P) m c' g)"
        using solvent left payout by (simp add: ForceExit solvent_def owed_def unsettled_deposits_def c')
      moreover have "dues_told A P (record_call (sha256 P) m c' g)"
        using dues by (auto simp: ForceExit dues_told_def c')
      ultimately show ?thesis by (simp add: books_def)
    next
      case (PruneRequest i)
      with ok have "prune_request A i (on_chain g) = Inr c' \<or> prune_deposit A i (on_chain g) = Inr c'" by simp
      from pruned_books [OF books inbox this] show ?thesis by (simp add: PruneRequest)
    next
      case (PruneDeposit i)
      with ok have "prune_request A i (on_chain g) = Inr c' \<or> prune_deposit A i (on_chain g) = Inr c'" by simp
      from pruned_books [OF books inbox this] show ?thesis by (simp add: PruneDeposit)
    next
      case (ReclaimDeposit i)
      with ok have "reclaim_deposit A i (on_chain g) = Inr c'" by simp
      from reclaimed_books [OF books inbox this] show ?thesis by (simp add: ReclaimDeposit)
    qed (use True assms(6) in simp_all)
  qed
qed

lemma settlement_keeps_books:
  assumes books: "books A P g" and kept: "well_kept (on_chain g)" and told: "inbox_told P g" "batch_told A P g"
    and same: "same_hash A P"
    and ok: "contract_verify_batch A t verifier signals vals (on_chain g) = Inr c'"
    and guest: "guest_main P domain old_root anchor batch_bytes sidecar_bytes = Inr vals"
    and decoded: "batch_decode batch_bytes = Inr b" "sidecar_decode sidecar_bytes b = Inr s"
    and cf: "collision_free (sha256 P) (hashed_strings (record_settlement A P (b32 domain) batch_bytes b s c' g))"
  shows "books A P (record_settlement A P (b32 domain) batch_bytes b s c' g)"
proof -
  let ?H = "sha256 P" and ?g = "record_settlement A P (b32 domain) batch_bytes b s c' g" and ?c = "on_chain g"
    and ?d = "contract_domain A"
  note dues = books [unfolded books_def, THEN conjunct1] and solvent = books [unfolded books_def, THEN conjunct2]
  have strings: "collision_free ?H (settlement_strings A P g (b32 domain) batch_bytes b s)"
    by (rule collision_free_mono [OF cf]) (auto simp: record_settlement_def)
  note run = settlement_is_run [OF told kept dues_toldD(1,2) [OF dues] ok guest decoded strings]
  from contract_verify_batch_effect [OF ok] obtain len sealed cursor deadline target progress where
    facts: "\<not> escaped ?c" "batch_length ?c = Some len"
    and c': "c' = (settled_state A vals sealed cursor ?c)
         \<lparr>escape_deadline := deadline, escape_inbox_target := target, escape_progress := progress\<rparr>"
    by (elim exE conjE) (rule that)
  have none: "pending_withdrawals ?c = None" using well_keptD(1) [OF kept] facts(2) by (simp add: batch_kept_Some)
  then have no_dues: "dues g = []" using dues_toldD(3) [OF dues] by (auto split: if_splits)
  have fields: "inbox_boxes c' = inbox_boxes ?c" "inbox_cursor c' = inbox_cursor ?c" "exits c' = exits ?c"
    "app_balance c' = app_balance ?c" "app_min_balance c' = app_min_balance ?c"
    "pending_withdrawals c' = (if b32 (slice 160 192 vals) \<noteq> withdrawal_terminal A then Some (b32 (slice 160 192 vals)) else None)"
    by (simp_all add: c' settled_state_def delete_batch_def none)
  have g': "settled_tree ?g = merkle.track ?H (settled_tree g) (batch_events b s)" "dues ?g = withdrawal_payouts b s"
    "hashed_strings ?g = hashed_strings g @ settlement_strings A P g (b32 domain) batch_bytes b s"
    by (simp_all add: record_settlement_def)
  have paid: "set (payout_preimages ?H ?d (withdrawal_payouts b s)) \<subseteq> set (hashed_strings ?g)"
    by (auto simp: g' settlement_strings_def)
  have terminal: "withdrawal_chain ?H ?d (withdrawal_payouts b s) = withdrawal_terminal A \<longleftrightarrow> withdrawal_payouts b s = []"
  proof -
    have "withdrawal_payouts b s = []" if "withdrawal_chain ?H ?d (withdrawal_payouts b s) = withdrawal_chain ?H ?d []"
    proof -
      have "collision_free ?H (payout_preimages ?H ?d (withdrawal_payouts b s) @ payout_preimages ?H ?d [])"
        by (rule collision_free_mono [OF cf]) (use paid in \<open>auto simp: payout_preimages_def\<close>)
      from withdrawal_chain_pins [OF this that] show ?thesis by simp
    qed
    then show ?thesis using same by (auto simp: withdrawal_terminal_eq same_hash_def)
  qed
  have "dues_told A P ?g"
    using run(5,6,8) paid terminal by (simp add: dues_told_def g'(1,2) fields(6))
  moreover have "solvent ?g"
  proof -
    have live: "exits ?c = Map.empty" by (rule inbox_keptD(3) [OF well_keptD(4) [OF kept] facts(1)])
    have all: "{a. exits ?c a = None} = UNIV" by (simp add: live)
    have total: "total (tree_accounts (settled_tree ?g)) + paid_out (withdrawal_payouts b s)
        = total (tree_accounts (settled_tree g)) + deposited (batch_inbox_items b)"
      using spec_txns_conserves [OF run(7)] by (simp add: g' tree_accounts_def)
    note below = sealed_below [OF kept run(3)]
    have "unsettled_deposits ?c = deposited (next_items g (settled_inbox_cursor c')) + unsettled_deposits c'"
      by (rule unsettled_deposits_settle [OF told(1) well_keptD(4) [OF kept] facts(1) fields(1,2) below])
    then show ?thesis
      using solvent total run(4)
      by (simp add: solvent_def owed_def unexited_def fields live g'(2) no_dues paid_out_def)
  qed
  ultimately show ?thesis by (simp add: books_def)
qed

theorem history_books:
  assumes "history A P g" and same: "same_hash A P" and "collision_free (sha256 P) (hashed_strings g)"
  shows "books A P g"
  using assms(1,3)
proof (induction rule: history.induct)
  case (created min_balance balance v p r timeout grace council delay)
  then show ?case
    by (simp add: books_def dues_told_def solvent_def owed_def unexited_def unsettled_deposits_def
        first_chronicle_def create_application_def root_tree_new total_def paid_out_def)
next
  case (donated g n)
  then show ?case
    by (simp add: books_def dues_told_def solvent_def owed_def unexited_def unsettled_deposits_def owed_box_def)
next
  case (called g m t c')
  have "collision_free (sha256 P) (hashed_strings g)"
    by (rule collision_free_mono [OF called.prems hashed_record_call])
  from call_keeps_books [OF called.IH [OF this] history_kept [OF called.hyps(1)] history_inbox_told [OF called.hyps(1) same] same
    called.hyps(3,2) called.prems] show ?case .
next
  case (settled g t verifier signals vals c' domain old_root anchor batch_bytes sidecar_bytes b s)
  have "collision_free (sha256 P) (hashed_strings g)"
    by (rule collision_free_mono [OF settled.prems hashed_record_settlement])
  from settlement_keeps_books [OF settled.IH [OF this] history_kept [OF settled.hyps(1)]
    history_inbox_told [OF settled.hyps(1) same] history_batch_told [OF settled.hyps(1) same] same
    settled.hyps(2-5) settled.prems] show ?case .
qed

end
