(* ===== verification/Contract_Funds.thy ===== *)
theory Contract_Funds
  imports Contract_Solvency
begin

text \<open>
  What solvency buys: no call is ever refused for want of funds, and after an escape, or whatever
  the sequencer does, whoever is owed something can take it.
\<close>

section \<open>No call runs out of funds\<close>

lemma itxn_payment_Overspent:
  "itxn_payment A r amt c = Inl Overspent \<Longrightarrow> app_balance c < app_min_balance c + unat amt"
  by (auto simp: itxn_payment_def Let_def split: if_splits)

lemma credit_escape_progress_funds: "credit_escape_progress d c \<noteq> Inl Overspent"
  by (auto simp: credit_escape_progress_def contract_Inl_iffs split: option.splits if_splits)

lemma quiet_calls_funds:
  assumes "\<not> moves_money m"
  shows "perform A t m c \<noteq> Inl Overspent"
  using assms
  by (cases m)
     (auto simp: security_council_escape_def execute_escape_def schedule_verifier_update_def execute_verifier_update_def
        schedule_application_update_def signal_escape_def abandon_batch_def open_batch_def contract_accumulate_chunk_def
        assert_security_council_def contract_Inl_iffs Let_def split: if_splits)

lemma verify_funds: "contract_verify_batch A t verifier signals vals c \<noteq> Inl Overspent"
  by (auto simp: contract_verify_batch_def contract_Inl_iffs Let_def credit_escape_progress_funds
      split: option.splits if_splits)

text \<open>Entering: what is paid covers the box.\<close>

lemma inbox_charge_parts:
  "of_nat (app_min_balance (inbox_box_create A (inbox_cursor c) (c\<lparr>app_balance := b\<rparr>)) - app_min_balance c)
     = (of_nat (inbox_charge A c) :: u64)"
  "unat (of_nat (inbox_charge A c) :: u64) = inbox_charge A c"
  by (simp_all add: inbox_box_create_def inbox_charge_def)

lemma entering_funds:
  assumes "app_min_balance c \<le> app_balance c"
  shows "contract_deposit A t payment recipient c \<noteq> Inl Overspent"
    and "request_withdrawal A t payment n address recipient scheme key sig c \<noteq> Inl Overspent"
proof -
  let ?d = "c\<lparr>app_balance := app_balance c + unat (pay_amount payment)\<rparr>"
  have create: "inbox_box_create A (inbox_cursor c) ?d
      = c\<lparr>app_balance := app_balance c + unat (pay_amount payment), app_min_balance := app_min_balance c + inbox_charge A c\<rparr>"
    using inbox_box_create_parts [of A ?d] by (simp add: inbox_charge_def)
  note word = inbox_charge_parts(2) [of A c]
  show "contract_deposit A t payment recipient c \<noteq> Inl Overspent"
    using assms
    by (auto simp: contract_deposit_def contract_Inl_iffs contract_Inr_iffs Let_def receive_payment_def create word
        append_record_def end_of_call_def split: if_splits)
  show "request_withdrawal A t payment n address recipient scheme key sig c \<noteq> Inl Overspent"
    using assms
    by (auto simp: request_withdrawal_def contract_Inl_iffs contract_Inr_iffs Let_def receive_payment_def create word
        append_record_def end_of_call_def split: if_splits)
qed

text \<open>Leaving: a box gives back what it held, and what it recorded is part of what is owed.\<close>

lemma box_release_sum: "app_min_balance c - unat (avm_inbox_box_cost A) + box_release A c = app_min_balance c"
  by (simp add: box_release_def)

lemma pruning_funds:
  assumes "app_min_balance c \<le> app_balance c"
  shows "prune_request A i c \<noteq> Inl Overspent" and "prune_deposit A i c \<noteq> Inl Overspent"
  using assms box_release_sum [of c A]
  by (auto simp: prune_request_def prune_deposit_def contract_Inl_iffs Let_def inbox_box_delete_def
      box_release_rest box_release_word simp del: of_nat_diff simp flip: box_release_def
      dest!: itxn_payment_Overspent)

lemma reclaiming_funds:
  assumes "solvent g" and kept: "inbox_kept (on_chain g)"
  shows "reclaim_deposit A i (on_chain g) \<noteq> Inl Overspent"
proof
  let ?c = "on_chain g"
  assume "reclaim_deposit A i ?c = Inl Overspent"
  then obtain entry amt where box: "inbox_boxes ?c i = Some entry" and waiting: "settled_inbox_cursor ?c \<le> i"
    and amt: "unat amt = unat (record_amount entry) + box_release A ?c"
    and "itxn_payment A (record_payer entry) amt
      (?c\<lparr>inbox_boxes := (inbox_boxes ?c)(i := None), app_min_balance := app_min_balance ?c - box_release A ?c\<rparr>) = Inl Overspent"
    by (auto simp: reclaim_deposit_def contract_Inl_iffs contract_Inr_iffs Let_def inbox_box_delete_def
        box_release_rest box_release_word simp del: of_nat_diff simp flip: box_release_def)
  from itxn_payment_Overspent [OF this(4)] amt
  have "app_balance ?c < app_min_balance ?c - box_release A ?c + unat (record_amount entry) + box_release A ?c" by simp
  then have "app_balance ?c < app_min_balance ?c + unat (record_amount entry)" using box_release_le [of A ?c] by simp
  moreover have "unat (record_amount entry) \<le> unsettled_deposits ?c"
    using unsettled_deposits_remove [of "?c\<lparr>inbox_boxes := (inbox_boxes ?c)(i := None)\<rparr>" ?c i entry, OF _ box]
      inbox_keptD(2) [OF kept box] waiting by (simp add: word_le_nat_alt)
  ultimately show False using assms(1) by (simp add: solvent_def owed_def)
qed

lemma credit_escape_progress_books:
  assumes "credit_escape_progress d c = Inr c'"
  shows "app_balance c' = app_balance c" and "app_min_balance c' = app_min_balance c"
  using credit_escape_progress_effect [OF assms] by (elim exE conjE; simp)+

lemma paying_funds:
  assumes books: "books A P g" and same: "same_hash A P"
    and cf: "collision_free (sha256 P) (hashed_strings g @ [payout_step tail (recipient, amt)])"
  shows "pay_withdrawal A t recipient amt tail (on_chain g) \<noteq> Inl Overspent"
proof
  let ?c = "on_chain g"
  assume "pay_withdrawal A t recipient amt tail ?c = Inl Overspent"
  define rest where "rest = (if tail = withdrawal_terminal A then None else Some tail)"
  let ?c1 = "?c\<lparr>pending_withdrawals := rest\<rparr>"
  from \<open>pay_withdrawal A t recipient amt tail ?c = Inl Overspent\<close> obtain c2 where
    head: "pending_withdrawals ?c = Some (avm_sha256 A (payout_step tail (recipient, amt)))"
    and c2: "(if call_sender t = avm_creator A then credit_escape_progress 1 ?c1 else Inr ?c1) = Inr c2"
    and pay: "itxn_payment A recipient amt c2 = Inl Overspent"
    by (cases "call_sender t = avm_creator A")
       (auto simp: pay_withdrawal_def contract_Inl_iffs contract_Inr_iffs Let_def payout_step_def
          credit_escape_progress_funds simp flip: rest_def)
  have c2: "app_balance c2 = app_balance ?c" "app_min_balance c2 = app_min_balance ?c"
    using c2 credit_escape_progress_books [of 1 ?c1 c2] by (auto split: if_splits)
  from payout_is_due [OF _ same _ cf] head same books obtain ps where "dues g = (recipient, amt) # ps"
    by (auto simp: same_hash_def books_def)
  with itxn_payment_Overspent [OF pay] c2 books show False
    by (simp add: books_def solvent_def owed_def paid_out_def)
qed

lemma exiting_funds:
  assumes books: "books A P g" and same: "same_hash A P"
    and cf: "collision_free (sha256 P) (exit_strings (sha256 P) (settled_tree g) address (account_new n amt auth) sibs)"
  shows "force_exit A address n amt auth scheme key sig recipient sibs (on_chain g) \<noteq> Inl Overspent"
proof
  let ?c = "on_chain g" and ?charge = "unat (avm_exit_box_cost A)"
  assume "force_exit A address n amt auth scheme key sig recipient sibs ?c = Inl Overspent"
  then obtain payout where facts: "exits ?c address = None" "length sibs div 32 \<le> 256"
      "exit_climb A address sibs (length sibs div 32)
        (avm_sha256 A (leaf_preimage address (account_new n amt auth))) = contract_root ?c"
    and payout: "unat payout + ?charge = unat amt"
    and "itxn_payment A recipient payout
      (?c\<lparr>exits := (exits ?c)(address \<mapsto> amt), app_min_balance := app_min_balance ?c + ?charge\<rparr>) = Inl Overspent"
    by (auto simp: force_exit_def contract_Inl_iffs contract_Inr_iffs Let_def exit_box_write_parts leaf_preimage_def
        encode_account_eq account_new_def)
  from itxn_payment_Overspent [OF this(5)] payout have "app_balance ?c < app_min_balance ?c + unat amt" by simp
  moreover have "tree_accounts (settled_tree g) address = Some (account_new n amt auth)"
    using exit_is_held [OF _ same facts(3,2) cf] books by (simp add: books_def)
  then have "unat amt \<le> total (unexited g)"
    using total_without [of "tree_accounts (settled_tree g)" address "account_new n amt auth" "{a. exits ?c a = None}"]
      facts(1) finite_tree_accounts by (simp add: unexited_def account_new_def)
  ultimately show False using books by (simp add: books_def solvent_def owed_def)
qed

text \<open>The strings a call would hash, whether it returns or not.\<close>

definition call_strings :: "primitives \<Rightarrow> contract_call \<Rightarrow> chronicle \<Rightarrow> byte list list" where
  "call_strings P m g = hashed_strings (record_call (sha256 P) m (on_chain g) g)"

lemma perform_funds:
  assumes books: "books A P g" and kept: "well_kept (on_chain g)" and same: "same_hash A P"
    and cf: "collision_free (sha256 P) (call_strings P m g)"
  shows "perform A t m (on_chain g) \<noteq> Inl Overspent"
proof -
  have enough: "app_min_balance (on_chain g) \<le> app_balance (on_chain g)"
    using books by (simp add: books_def solvent_def)
  show ?thesis
  proof (cases "moves_money m")
    case False
    then show ?thesis by (rule quiet_calls_funds)
  next
    case True
    then show ?thesis
    proof (cases m)
      case (MakeDeposit payment recipient)
      with entering_funds(1) [OF enough] show ?thesis by (auto simp: map_sum_def split: sum.splits)
    next
      case (RequestWithdrawal payment n address recipient scheme key sig)
      with entering_funds(2) [OF enough] show ?thesis by (auto simp: map_sum_def split: sum.splits)
    next
      case (PayWithdrawal recipient amt tail)
      with paying_funds [OF books same] cf show ?thesis by (simp add: call_strings_def)
    next
      case (ForceExit address n amt auth scheme key sig recipient sibs)
      have "collision_free (sha256 P) (exit_strings (sha256 P) (settled_tree g) address (account_new n amt auth) sibs)"
        by (rule collision_free_mono [OF cf]) (auto simp: ForceExit call_strings_def)
      with exiting_funds [OF books same this] ForceExit show ?thesis by simp
    next
      case (VerifyBatch verifier signals vals)
      with verify_funds show ?thesis by simp
    next
      case (ReclaimDeposit i)
      with reclaiming_funds [OF _ well_keptD(4) [OF kept]] books show ?thesis by (simp add: books_def)
    qed (use True pruning_funds [OF enough] in simp_all)
  qed
qed

end
