(* ===== verification/Contract_Runs.thy ===== *)
theory Contract_Runs
  imports Contract_Funds
begin

text \<open>
  Sequences of calls: the clock of an accusation, what an escape freezes, the drain of the payouts,
  and the exits that stay open to everyone.
\<close>

section \<open>Runs\<close>

fun run_calls :: "avm \<Rightarrow> (call \<times> contract_call) list \<Rightarrow> contract \<Rightarrow> contract_error + contract" where
  "run_calls A [] c = Inr c"
| "run_calls A ((t, m) # ms) c = and_then (perform A t m c) (run_calls A ms)"

lemma run_calls_append: "run_calls A (ms @ ns) c = and_then (run_calls A ms c) (run_calls A ns)"
  by (induction A ms c rule: run_calls.induct) (simp_all add: and_then_assoc and_then_def split: sum.splits)

text \<open>An invariant of the contract holds at the end of every run.\<close>

context contract_invariant
begin

lemma run: "run_calls A ms c = Inr c' \<Longrightarrow> well_kept c \<Longrightarrow> I c \<Longrightarrow> I c'"
proof (induction ms arbitrary: c)
  case (Cons tm ms)
  obtain t m where tm: "tm = (t, m)" by (cases tm)
  from Cons.prems(1) obtain d where d: "perform A t m c = Inr d" and rest: "run_calls A ms d = Inr c'"
    by (auto simp: tm and_then_Inr_iff)
  from Cons.IH [OF rest perform_kept [OF Cons.prems(2) d] kept [OF Cons.prems(2,3) d]] show ?case .
qed simp

end

lemma run_calls_kept: "well_kept c \<Longrightarrow> run_calls A ms c = Inr c' \<Longrightarrow> well_kept c'"
  using kept.run [of A ms c c'] by simp

section \<open>The clock of an accusation\<close>

text \<open>
  Only two calls move it: a settlement, by the entries it consumed, and a payout the sequencer made.
  A tranche of \<open>ESCAPE_PROGRESS_TRANCHE\<close> of them buys one grace period.
\<close>

fun credited_payout :: "avm \<Rightarrow> call \<times> contract_call \<Rightarrow> nat" where
  "credited_payout A (t, PayWithdrawal recipient amt tail) = (if call_sender t = avm_creator A then 1 else 0)"
| "credited_payout A (t, m) = 0"

definition payouts_made :: "avm \<Rightarrow> (call \<times> contract_call) list \<Rightarrow> nat" where
  "payouts_made A ms = sum_list (map (credited_payout A) ms)"

text \<open>One step of the clock, from deadline and progress to deadline and progress.\<close>

definition clock_step :: "nat \<Rightarrow> nat \<Rightarrow> nat \<times> nat \<Rightarrow> nat \<times> nat \<Rightarrow> bool" where
  "clock_step grace work s s' \<longleftrightarrow>
     (\<exists>n. fst s' = fst s + n * grace \<and> unat ESCAPE_PROGRESS_TRANCHE * n + snd s' \<le> snd s + work)"

lemma clock_step_refl: "clock_step grace work s s"
  by (auto simp: clock_step_def intro: exI [of _ 0])

lemma clock_step_trans:
  assumes "clock_step grace w s s'" and "clock_step grace w' s' s''"
  shows "clock_step grace (w + w') s s''"
proof -
  from assms obtain n m where "fst s' = fst s + n * grace" "unat ESCAPE_PROGRESS_TRANCHE * n + snd s' \<le> snd s + w"
    "fst s'' = fst s' + m * grace" "unat ESCAPE_PROGRESS_TRANCHE * m + snd s'' \<le> snd s' + w'"
    unfolding clock_step_def by blast
  then have "fst s'' = fst s + (n + m) * grace"
    "unat ESCAPE_PROGRESS_TRANCHE * (n + m) + snd s'' \<le> snd s + (w + w')"
    by (auto simp: algebra_simps)
  then show ?thesis unfolding clock_step_def by blast
qed

lemma credit_escape_progress_clock:
  assumes "credit_escape_progress d c = Inr c'" and "escape_deadline c = Some dl" and "escape_progress c = Some pr"
  shows "\<exists>dl' pr'. c' = c\<lparr>escape_deadline := Some dl', escape_progress := Some pr'\<rparr>
    \<and> clock_step (unat (escape_grace c)) (unat d) (unat dl, unat pr) (unat dl', unat pr')"
proof -
  from assms obtain progress where progress: "unat progress = unat pr + unat d"
    and c': "if progress \<ge> ESCAPE_PROGRESS_TRANCHE
      then \<exists>extended. unat extended = unat dl + unat (escape_grace c) \<and> c' = c\<lparr>escape_deadline := Some extended, escape_progress := Some 0\<rparr>
      else c' = c\<lparr>escape_progress := Some progress\<rparr>"
  proof -
    from assms obtain progress where progress: "unat progress = unat pr + unat d"
      and step: "(if progress \<ge> ESCAPE_PROGRESS_TRANCHE then
            and_then (plus64 dl (escape_grace c)) (\<lambda>extended.
            Inr (c\<lparr>escape_deadline := Some extended, escape_progress := Some 0\<rparr>))
          else Inr (c\<lparr>escape_progress := Some progress\<rparr>)) = Inr c'"
      by (simp add: credit_escape_progress_def) (auto simp only: and_then_Inr_iff plus64_Inr_iff)
    show ?thesis
      by (rule that [OF progress]) (use step in \<open>cases "progress \<ge> ESCAPE_PROGRESS_TRANCHE"; auto simp: contract_Inr_iffs\<close>)
  qed
  show ?thesis
  proof (cases "progress \<ge> ESCAPE_PROGRESS_TRANCHE")
    case True
    with c' obtain extended where ext: "unat extended = unat dl + unat (escape_grace c)"
      "c' = c\<lparr>escape_deadline := Some extended, escape_progress := Some 0\<rparr>" by auto
    have "clock_step (unat (escape_grace c)) (unat d) (unat dl, unat pr) (unat extended, unat (0 :: u64))"
      using True progress ext(1) by (auto simp: clock_step_def word_le_nat_alt intro!: exI [of _ 1])
    with ext(2) show ?thesis by blast
  next
    case False
    have same: "c\<lparr>escape_progress := Some progress\<rparr> = c\<lparr>escape_deadline := Some dl, escape_progress := Some progress\<rparr>"
      using assms(2) by (cases c) simp
    have "clock_step (unat (escape_grace c)) (unat d) (unat dl, unat pr) (unat dl, unat progress)"
      using progress by (auto simp: clock_step_def intro!: exI [of _ 0])
    with c' False same show ?thesis by auto
  qed
qed

text \<open>Two accusations are one and the same while the target, the grace period and the deadline's presence stay.\<close>

definition accused :: "contract \<Rightarrow> nat \<times> nat \<Rightarrow> u64 \<Rightarrow> bool" where
  "accused c s target \<longleftrightarrow>
     (\<exists>dl pr. escape_deadline c = Some dl \<and> escape_progress c = Some pr \<and> s = (unat dl, unat pr))
     \<and> escape_inbox_target c = Some target"

text \<open>Calls the clock does not notice.\<close>

definition same_clock :: "contract \<Rightarrow> contract \<Rightarrow> bool" where
  "same_clock c c' \<longleftrightarrow> escape_deadline c' = escape_deadline c \<and> escape_progress c' = escape_progress c
     \<and> escape_inbox_target c' = escape_inbox_target c \<and> settled_inbox_cursor c' = settled_inbox_cursor c
     \<and> escape_grace c' = escape_grace c"

fun moves_clock :: "contract_call \<Rightarrow> bool" where
  "moves_clock SecurityCouncilEscape = True"
| "moves_clock ExecuteEscape = True"
| "moves_clock SignalEscape = True"
| "moves_clock (PayWithdrawal recipient amt tail) = True"
| "moves_clock (VerifyBatch verifier signals vals) = True"
| "moves_clock _ = False"

lemma perform_same_clock:
  assumes ok: "perform A t m c = Inr c'" and still: "\<not> moves_clock m"
  shows "same_clock c c'"
  using perform_effect [OF ok] still
  by (cases m) (auto simp: same_clock_def effect_defs)

text \<open>What one call does to a live accusation: it is answered, or its clock makes a step of the work done.\<close>

definition clock_moves :: "avm \<Rightarrow> nat \<Rightarrow> nat \<Rightarrow> contract \<Rightarrow> contract \<Rightarrow> nat \<times> nat \<Rightarrow> u64 \<Rightarrow> bool" where
  "clock_moves A payouts grace c c' s target \<longleftrightarrow>
     (\<exists>s'. accused c' s' target \<and> unat (settled_inbox_cursor c) \<le> unat (settled_inbox_cursor c')
        \<and> (unat (settled_inbox_cursor c) < unat target \<longrightarrow> unat (settled_inbox_cursor c') < unat target)
        \<and> clock_step grace (unat (settled_inbox_cursor c') - unat (settled_inbox_cursor c) + payouts) s s')"

lemma same_clock_moves:
  assumes "same_clock c c'" and "accused c s target"
  shows "clock_moves A payouts grace c c' s target"
proof -
  have "accused c' s target" "settled_inbox_cursor c' = settled_inbox_cursor c"
    using assms by (simp_all add: same_clock_def accused_def)
  moreover have "clock_step grace payouts s s" by (rule clock_step_refl)
  ultimately show ?thesis unfolding clock_moves_def by (intro exI [of _ s]) simp
qed

lemma pay_withdrawal_clock:
  assumes ok: "pay_withdrawal A t recipient amt tail c = Inr c'" and acc: "accused c s target"
  shows "clock_moves A (if call_sender t = avm_creator A then 1 else 0) (unat (escape_grace c)) c c' s target
    \<and> escape_grace c' = escape_grace c"
proof -
  define rest where "rest = (if tail = withdrawal_terminal A then None else Some tail)"
  let ?c1 = "c\<lparr>pending_withdrawals := rest\<rparr>"
  from ok obtain c2 where c2: "(if call_sender t = avm_creator A then credit_escape_progress 1 ?c1 else Inr ?c1) = Inr c2"
    and pay: "itxn_payment A recipient amt c2 = Inr c'"
    by (auto simp: pay_withdrawal_def contract_Inr_iffs Let_def simp flip: rest_def)
  have same: "escape_grace c' = escape_grace c2 \<and> settled_inbox_cursor c' = settled_inbox_cursor c2
      \<and> escape_deadline c' = escape_deadline c2 \<and> escape_progress c' = escape_progress c2 \<and> escape_inbox_target c' = escape_inbox_target c2"
    using itxn_payment_effect [OF pay] by (elim exE conjE) simp
  from acc obtain dl pr where live: "escape_deadline c = Some dl" "escape_progress c = Some pr" "s = (unat dl, unat pr)"
    "escape_inbox_target c = Some target" by (auto simp: accused_def)
  show ?thesis
  proof (cases "call_sender t = avm_creator A")
    case True
    with c2 have "credit_escape_progress 1 ?c1 = Inr c2" by simp
    from credit_escape_progress_clock [OF this, of dl pr] live obtain dl' pr' where
      "c2 = ?c1\<lparr>escape_deadline := Some dl', escape_progress := Some pr'\<rparr>"
      and step: "clock_step (unat (escape_grace c)) 1 s (unat dl', unat pr')" by auto
    with same live have "accused c' (unat dl', unat pr') target" "settled_inbox_cursor c' = settled_inbox_cursor c" "escape_grace c' = escape_grace c"
      by (simp_all add: accused_def)
    with step True show ?thesis by (auto simp: clock_moves_def)
  next
    case False
    with c2 have "c2 = ?c1" by simp
    with same have "same_clock c c'" by (simp add: same_clock_def)
    with same_clock_moves [OF this acc] show ?thesis by (simp add: same_clock_def)
  qed
qed

lemma contract_verify_batch_clock:
  assumes ok: "contract_verify_batch A t verifier signals vals c = Inr c'" and kept: "well_kept c" and acc: "accused c s target"
  shows "escape_grace c' = escape_grace c
    \<and> (escape_deadline c' = None \<or> clock_moves A 0 (unat (escape_grace c)) c c' s target)"
proof -
  obtain sealed cursor where sealed: "sealed_inbox_cursor c = Some cursor"
    and rest: "(case escape_inbox_target (settled_state A vals sealed cursor c) of None \<Rightarrow> Inr (settled_state A vals sealed cursor c)
      | Some target \<Rightarrow>
          if cursor \<ge> target then Inr (delete_signal (settled_state A vals sealed cursor c))
          else and_then (minus64 cursor (settled_inbox_cursor c))
            (\<lambda>discharged. credit_escape_progress discharged (settled_state A vals sealed cursor c))) = Inr c'"
    by (rule contract_verify_batch_steps [OF ok]) (rule that)
  let ?d = "settled_state A vals sealed cursor c"
  have d: "escape_inbox_target ?d = escape_inbox_target c" "escape_deadline ?d = escape_deadline c"
    "escape_progress ?d = escape_progress c" "escape_grace ?d = escape_grace c" "settled_inbox_cursor ?d = cursor"
    by (simp_all add: settled_state_def delete_batch_def)
  from acc obtain dl pr where live: "escape_deadline c = Some dl" "escape_progress c = Some pr" "s = (unat dl, unat pr)"
    "escape_inbox_target c = Some target" by (auto simp: accused_def)
  show ?thesis
  proof (cases "cursor \<ge> target")
    case True
    with rest live d have "c' = delete_signal ?d" by simp
    then show ?thesis using d by (simp add: delete_signal_def)
  next
    case False
    with rest live d obtain discharged where work: "unat discharged + unat (settled_inbox_cursor c) = unat cursor"
      and credit: "credit_escape_progress discharged ?d = Inr c'" by (auto simp: contract_Inr_iffs)
    from credit_escape_progress_clock [OF credit, of dl pr] live d obtain dl' pr' where
      "c' = ?d\<lparr>escape_deadline := Some dl', escape_progress := Some pr'\<rparr>"
      and step: "clock_step (unat (escape_grace c)) (unat discharged) s (unat dl', unat pr')" by auto
    with live d have "accused c' (unat dl', unat pr') target" "settled_inbox_cursor c' = cursor" "escape_grace c' = escape_grace c"
      by (simp_all add: accused_def)
    moreover have "unat discharged = unat cursor - unat (settled_inbox_cursor c)" using work by simp
    ultimately show ?thesis
      using step sealed_below(1) [OF kept sealed] False by (auto simp: clock_moves_def word_le_nat_alt)
  qed
qed

lemma perform_clock:
  assumes ok: "perform A t m c = Inr c'" and kept: "well_kept c" and acc: "accused c s target"
  shows "escape_grace c' = escape_grace c
    \<and> (escape_deadline c' = None \<or> clock_moves A (credited_payout A (t, m)) (unat (escape_grace c)) c c' s target)"
proof (cases "moves_clock m")
  case False
  note same = perform_same_clock [OF ok False]
  with same_clock_moves [OF same acc] show ?thesis by (auto simp: same_clock_def)
next
  case True
  then show ?thesis
  proof (cases m)
    case SecurityCouncilEscape
    with perform_effect [OF ok] show ?thesis by (auto simp: effect_defs)
  next
    case ExecuteEscape
    with perform_effect [OF ok] show ?thesis by (auto simp: effect_defs)
  next
    case SignalEscape
    with ok acc show ?thesis by (simp add: signal_escape_def contract_Inr_iffs accused_def)
  next
    case (PayWithdrawal recipient amt tail)
    with ok have "pay_withdrawal A t recipient amt tail c = Inr c'" by simp
    from pay_withdrawal_clock [OF this acc] PayWithdrawal show ?thesis by simp
  next
    case (VerifyBatch verifier signals vals)
    with ok have "contract_verify_batch A t verifier signals vals c = Inr c'" by simp
    from contract_verify_batch_clock [OF this kept acc] VerifyBatch show ?thesis by simp
  qed (use True in simp_all)
qed

text \<open>
  Over a run: unless the accusation is answered on the way, its target stays, and the deadline has
  moved by whole grace periods, one for each tranche of the entries consumed and payouts made.
\<close>

lemma run_calls_clock:
  assumes "run_calls A ms c = Inr c'" and "well_kept c" and "accused c s target"
  shows "(\<exists>ns rest d. ms = ns @ rest \<and> run_calls A ns c = Inr d \<and> escape_deadline d = None)
    \<or> clock_moves A (payouts_made A ms) (unat (escape_grace c)) c c' s target \<and> escape_grace c' = escape_grace c"
  using assms
proof (induction A ms c arbitrary: s rule: run_calls.induct)
  case (1 A c)
  then have "same_clock c c'" "c' = c" by (simp_all add: same_clock_def)
  with same_clock_moves [OF this(1) 1(3)] show ?case by (simp add: payouts_made_def)
next
  case (2 A t m ms c)
  then obtain d where d: "perform A t m c = Inr d" "run_calls A ms d = Inr c'" by (auto simp: and_then_Inr_iff)
  note kept = perform_kept [OF "2.prems"(2) d(1)]
  note step = perform_clock [OF d(1) "2.prems"(2,3)]
  show ?case
  proof (cases "escape_deadline d = None")
    case True
    with d(1) have "(t, m) # ms = [(t, m)] @ ms" "run_calls A [(t, m)] c = Inr d" by simp_all
    with True show ?thesis by blast
  next
    case False
    with step obtain s1 where s1: "accused d s1 target" "unat (settled_inbox_cursor c) \<le> unat (settled_inbox_cursor d)"
      "unat (settled_inbox_cursor c) < unat target \<longrightarrow> unat (settled_inbox_cursor d) < unat target"
      "clock_step (unat (escape_grace c)) (unat (settled_inbox_cursor d) - unat (settled_inbox_cursor c) + credited_payout A (t, m)) s s1"
      and grace: "escape_grace d = escape_grace c"
      by (auto simp: clock_moves_def)
    from "2.IH" [OF d(1,2) kept s1(1)] show ?thesis
    proof (elim disjE exE conjE)
      fix ns rest e
      assume "ms = ns @ rest" "run_calls A ns d = Inr e" "escape_deadline e = None"
      then have "(t, m) # ms = ((t, m) # ns) @ rest" "run_calls A ((t, m) # ns) c = Inr e" using d(1) by simp_all
      with \<open>escape_deadline e = None\<close> show ?thesis by blast
    next
      assume "clock_moves A (payouts_made A ms) (unat (escape_grace d)) d c' s1 target" "escape_grace c' = escape_grace d"
      then obtain s2 where s2: "accused c' s2 target" "unat (settled_inbox_cursor d) \<le> unat (settled_inbox_cursor c')"
        "unat (settled_inbox_cursor d) < unat target \<longrightarrow> unat (settled_inbox_cursor c') < unat target"
        "clock_step (unat (escape_grace c)) (unat (settled_inbox_cursor c') - unat (settled_inbox_cursor d) + payouts_made A ms) s1 s2"
        by (auto simp: clock_moves_def grace)
      have "unat (settled_inbox_cursor d) - unat (settled_inbox_cursor c) + credited_payout A (t, m)
          + (unat (settled_inbox_cursor c') - unat (settled_inbox_cursor d) + payouts_made A ms)
        = unat (settled_inbox_cursor c') - unat (settled_inbox_cursor c) + payouts_made A ((t, m) # ms)"
        using s1(2) s2(2) by (simp add: payouts_made_def)
      with clock_step_trans [OF s1(4) s2(4)]
      have "clock_moves A (payouts_made A ((t, m) # ms)) (unat (escape_grace c)) c c' s target"
        unfolding clock_moves_def using s1(2,3) s2(1-3) by (intro exI [of _ s2]) simp
      with \<open>escape_grace c' = escape_grace d\<close> grace show ?thesis by simp
    qed
  qed
qed

section \<open>What an escape freezes\<close>

definition frozen_from :: "contract \<Rightarrow> contract \<Rightarrow> bool" where
  "frozen_from c c' \<longleftrightarrow> escaped c' \<and> contract_root c' = contract_root c
     \<and> inbox_cursor c' = inbox_cursor c \<and> live_inbox_chain c' = live_inbox_chain c
     \<and> settled_inbox_cursor c' = settled_inbox_cursor c \<and> settled_inbox_chain c' = settled_inbox_chain c
     \<and> inbox_boxes c' \<subseteq>\<^sub>m inbox_boxes c \<and> exits c \<subseteq>\<^sub>m exits c'"

fun needs_running :: "contract_call \<Rightarrow> bool" where
  "needs_running (MakeDeposit payment recipient) = True"
| "needs_running (RequestWithdrawal payment n address recipient scheme key sig) = True"
| "needs_running (OpenBatch len target) = True"
| "needs_running (VerifyBatch verifier signals vals) = True"
| "needs_running SecurityCouncilEscape = True"
| "needs_running ExecuteEscape = True"
| "needs_running SignalEscape = True"
| "needs_running _ = False"

lemma needs_running_refused:
  assumes "escaped c" and "needs_running m"
  shows "perform A t m c \<noteq> Inr c'"
  using assms
  by (cases m)
     (auto simp: contract_deposit_def request_withdrawal_def open_batch_def contract_verify_batch_def
        security_council_escape_def execute_escape_def signal_escape_def contract_Inr_iffs map_sum_def Let_def
        split: sum.splits)

lemma perform_frozen:
  assumes ok: "perform A t m c = Inr c'" and "escaped c"
  shows "frozen_from c c'"
proof -
  have "\<not> needs_running m" using needs_running_refused [OF assms(2)] ok by blast
  with perform_effect [OF ok] assms(2) show ?thesis
    by (cases m) (auto simp: frozen_from_def effect_defs map_le_def split: if_splits)
qed

lemma run_calls_frozen:
  assumes "run_calls A ms c = Inr c'" and "escaped c"
  shows "frozen_from c c'"
  using assms
proof (induction A ms c rule: run_calls.induct)
  case (1 A c)
  then show ?case by (simp add: frozen_from_def)
next
  case (2 A t m ms c)
  then obtain d where d: "perform A t m c = Inr d" "run_calls A ms d = Inr c'" by (auto simp: and_then_Inr_iff)
  from perform_frozen [OF d(1) "2.prems"(2)] have cd: "frozen_from c d" .
  then have "frozen_from d c'" using "2.IH" [OF d] by (simp add: frozen_from_def)
  with cd show ?case by (auto simp: frozen_from_def intro: map_le_trans)
qed

section \<open>The payouts due can be drained\<close>

text \<open>
  The calls that pay a batch's links, as the host hands them over, by anyone, the sequencer among them
  while nobody accuses it (its payouts also feed the clock).
\<close>

definition pay_call :: "call \<Rightarrow> withdrawal_link \<Rightarrow> call \<times> contract_call" where
  "pay_call t l = (t, PayWithdrawal (link_recipient l) (link_amount l) (link_tail l))"

lemma run_calls_pay [simp]:
  "run_calls A (pay_call t l # ms) c =
     and_then (pay_withdrawal A t (link_recipient l) (link_amount l) (link_tail l) c) (run_calls A ms)"
  by (simp add: pay_call_def)

lemma itxn_payment_enough:
  assumes "avm_delivers A r amt" and "app_min_balance c + unat amt \<le> app_balance c"
  shows "\<exists>left. itxn_payment A r amt c = Inr (c\<lparr>app_balance := left, app_payments := app_payments c @ [(r, amt)]\<rparr>)
    \<and> app_balance c \<le> left + unat amt \<and> (r \<noteq> avm_app_address A \<longrightarrow> left + unat amt = app_balance c)"
proof (cases "r = avm_app_address A")
  case True
  with assms show ?thesis by (intro exI [of _ "app_balance c"]) (simp add: itxn_payment_def Let_def)
next
  case False
  with assms show ?thesis by (intro exI [of _ "app_balance c - unat amt"]) (simp add: itxn_payment_def Let_def)
qed

lemma pay_withdrawal_due:
  assumes "same_hash A P" and "call_sender t = avm_creator A \<longrightarrow> escape_deadline c = None"
    and "pending_withdrawals c = Some (withdrawal_chain (sha256 P) (contract_domain A) ((r, a) # ps))"
    and "avm_delivers A r a" and "app_min_balance c + unat a \<le> app_balance c"
  shows "\<exists>left. pay_withdrawal A t r a (withdrawal_chain (sha256 P) (contract_domain A) ps) c
      = Inr (c\<lparr>pending_withdrawals := (if withdrawal_chain (sha256 P) (contract_domain A) ps = withdrawal_terminal A
          then None else Some (withdrawal_chain (sha256 P) (contract_domain A) ps)),
        app_balance := left, app_payments := app_payments c @ [(r, a)]\<rparr>)
    \<and> app_balance c \<le> left + unat a"
proof -
  let ?tail = "withdrawal_chain (sha256 P) (contract_domain A) ps"
  define rest where "rest = (if ?tail = withdrawal_terminal A then None else Some ?tail)"
  let ?c1 = "c\<lparr>pending_withdrawals := rest\<rparr>"
  obtain left where left: "itxn_payment A r a ?c1 = Inr (?c1\<lparr>app_balance := left, app_payments := app_payments c @ [(r, a)]\<rparr>)"
    "app_balance c \<le> left + unat a"
    using itxn_payment_enough [OF assms(4), of ?c1] assms(5) by auto
  have "pay_withdrawal A t r a ?tail c = itxn_payment A r a ?c1"
    using assms(1-3)
    by (cases "call_sender t = avm_creator A")
       (simp_all add: pay_withdrawal_def same_hash_def accumulate_withdrawal_def rest_def credit_escape_progress_def Let_def)
  then have "pay_withdrawal A t r a ?tail c = Inr (?c1\<lparr>app_balance := left, app_payments := app_payments c @ [(r, a)]\<rparr>)"
    using left(1) by (rule trans)
  then show ?thesis using left(2) unfolding rest_def by blast
qed

lemma chain_at_terminal:
  assumes "same_hash A P" and "collision_free (sha256 P) (payout_preimages (sha256 P) (contract_domain A) ps)"
  shows "withdrawal_chain (sha256 P) (contract_domain A) ps = withdrawal_terminal A \<longleftrightarrow> ps = []"
proof
  assume "withdrawal_chain (sha256 P) (contract_domain A) ps = withdrawal_terminal A"
  then have "withdrawal_chain (sha256 P) (contract_domain A) ps = withdrawal_chain (sha256 P) (contract_domain A) []"
    using assms(1) by (simp add: withdrawal_terminal_eq same_hash_def)
  moreover have "collision_free (sha256 P)
      (payout_preimages (sha256 P) (contract_domain A) ps @ payout_preimages (sha256 P) (contract_domain A) [])"
    by (rule collision_free_mono [OF assms(2)]) (auto simp: payout_preimages_def)
  ultimately show "ps = []" using withdrawal_chain_pins by blast
qed (use assms(1) in \<open>simp add: withdrawal_terminal_eq same_hash_def\<close>)

lemma payout_preimages_tail:
  "set (payout_preimages H d ps) \<subseteq> set (payout_preimages H d (p # ps))"
  by (cases p) (auto simp: payout_preimages_def)

lemma pay_links_drain:
  assumes "same_hash A P" and "call_sender t = avm_creator A \<longrightarrow> escape_deadline c = None"
    and "pending_withdrawals c = (if ps = [] then None else Some (withdrawal_chain (sha256 P) (contract_domain A) ps))"
    and "\<forall>(r, a)\<in>set ps. avm_delivers A r a" and "app_min_balance c + paid_out ps \<le> app_balance c"
    and "collision_free (sha256 P) (payout_preimages (sha256 P) (contract_domain A) ps)"
  shows "\<exists>left. run_calls A (map (pay_call t) (withdrawal_links (sha256 P) (contract_domain A) ps)) c
    = Inr (c\<lparr>pending_withdrawals := None, app_balance := left, app_payments := app_payments c @ ps\<rparr>)"
  using assms(2-)
proof (induction ps arbitrary: c)
  case Nil
  then show ?case by (intro exI [of _ "app_balance c"]) (cases c; simp)
next
  case (Cons p ps)
  obtain r a where p: "p = (r, a)" by (cases p)
  let ?tail = "withdrawal_chain (sha256 P) (contract_domain A) ps"
  have enough: "app_min_balance c + unat a \<le> app_balance c" using Cons.prems(4) by (simp add: p paid_out_def)
  have cf: "collision_free (sha256 P) (payout_preimages (sha256 P) (contract_domain A) ps)"
    by (rule collision_free_mono [OF Cons.prems(5) payout_preimages_tail])
  from pay_withdrawal_due [OF assms(1) Cons.prems(1) _ _ enough, of r ps] Cons.prems(2,3)
  obtain left where pay: "pay_withdrawal A t r a ?tail c
      = Inr (c\<lparr>pending_withdrawals := (if ps = [] then None else Some ?tail),
        app_balance := left, app_payments := app_payments c @ [(r, a)]\<rparr>)" and left: "app_balance c \<le> left + unat a"
    by (auto simp: p chain_at_terminal [OF assms(1) cf])
  define d where "d = c\<lparr>pending_withdrawals := (if ps = [] then None else Some ?tail),
        app_balance := left, app_payments := app_payments c @ [(r, a)]\<rparr>"
  have "\<exists>left. run_calls A (map (pay_call t) (withdrawal_links (sha256 P) (contract_domain A) ps)) d
    = Inr (d\<lparr>pending_withdrawals := None, app_balance := left, app_payments := app_payments d @ ps\<rparr>)"
    by (rule Cons.IH) (use Cons.prems cf left in \<open>simp_all add: d_def p paid_out_def\<close>)
  then show ?case using pay by (simp add: p d_def)
qed

section \<open>Exits stay open\<close>

lemma force_exit_accepts:
  assumes same: "same_hash A P" and escaped: "escaped c" and fresh: "exits c a = None"
    and proves: "verify_proof (sha256 P) (contract_root c) a (Some (account_new n amt auth)) (from_parts ss Own)"
    and key: "address_from_public_key (sha256 P) Ed25519 key = auth"
    and signed: "avm_ed25519verify_bare A (ascii ''EXIT'' @ bytes_of (contract_domain A) @ bytes_of a @ bytes_of recipient) sig key"
    and worth: "unat (avm_exit_box_cost A) < unat amt"
    and delivers: "avm_delivers A recipient (amt - avm_exit_box_cost A)"
    and funds: "app_min_balance c + unat amt \<le> app_balance c"
  shows "\<exists>c'. force_exit A a n amt auth SCHEME_ED25519 key sig recipient (concat (map bytes_of ss)) c = Inr c'
    \<and> exits c' = (exits c)(a \<mapsto> amt) \<and> app_payments c' = app_payments c @ [(recipient, amt - avm_exit_box_cost A)]"
proof -
  let ?sibs = "concat (map bytes_of ss)" and ?charge = "unat (avm_exit_box_cost A)"
  have depth: "length ss \<le> 256"
    using proves by (auto simp: verify_proof_def root_from_proof_def from_parts_def DEPTH_def Let_def split: if_splits)
  have "exit_climb A a ?sibs (length ss) (leaf_hash (sha256 P) a (account_new n amt auth)) = contract_root c"
    using exit_climb_root_from_proof [OF same, of ?sibs a "account_new n amt auth"] proves depth
    by (simp add: verify_proof_def)
  then have climb: "exit_climb A a ?sibs (length ss)
      (avm_sha256 A (ascii ''LEAF'' @ bytes_of a @ to_be_bytes n @ to_be_bytes amt @ bytes_of auth)) = contract_root c"
    using same by (simp add: leaf_hash_def leaf_preimage_def encode_account_eq account_new_def same_hash_def)
  have payout: "unat (amt - avm_exit_box_cost A) + ?charge = unat amt"
    using worth by (simp add: unat_sub word_le_nat_alt)
  have minus: "minus64 amt (avm_exit_box_cost A) = Inr (amt - avm_exit_box_cost A)"
    using payout by (simp add: minus64_Inr_iff)
  let ?d = "c\<lparr>exits := (exits c)(a \<mapsto> amt), app_min_balance := app_min_balance c + ?charge\<rparr>"
  have "app_min_balance ?d + unat (amt - avm_exit_box_cost A) \<le> app_balance ?d"
    using funds payout by simp
  from itxn_payment_enough [OF delivers this] obtain left where
    pay: "itxn_payment A recipient (amt - avm_exit_box_cost A) ?d
      = Inr (?d\<lparr>app_balance := left, app_payments := app_payments c @ [(recipient, amt - avm_exit_box_cost A)]\<rparr>)" by auto
  have "force_exit A a n amt auth SCHEME_ED25519 key sig recipient ?sibs c
      = itxn_payment A recipient (amt - avm_exit_box_cost A) ?d"
    using escaped fresh key signed climb depth worth minus same
    by (simp add: force_exit_def exit_box_write_parts [OF fresh] SCHEME_ED25519_def address_from_public_key_def
        same_hash_def Let_def word_less_nat_alt)
  then have "force_exit A a n amt auth SCHEME_ED25519 key sig recipient ?sibs c
      = Inr (?d\<lparr>app_balance := left, app_payments := app_payments c @ [(recipient, amt - avm_exit_box_cost A)]\<rparr>)"
    using pay by (rule trans)
  then show ?thesis by (intro exI, rule conjI) simp
qed

lemma reclaim_deposit_accepts:
  assumes "escaped c" and waiting: "unat (settled_inbox_cursor c) \<le> unat i" "unat i < unat (inbox_cursor c)"
    and box: "inbox_boxes c i = Some entry" and "record_kind entry = ascii ''d''"
    and held: "unat (avm_inbox_box_cost A) \<le> app_min_balance c"
    and fits: "unat (record_amount entry) + unat (avm_inbox_box_cost A) < 2 ^ 64"
    and delivers: "avm_delivers A (record_payer entry) (record_amount entry + avm_inbox_box_cost A)"
    and funds: "app_min_balance c + unat (record_amount entry) \<le> app_balance c"
  shows "\<exists>c'. reclaim_deposit A i c = Inr c' \<and> inbox_boxes c' = (inbox_boxes c)(i := None)
    \<and> app_payments c' = app_payments c @ [(record_payer entry, record_amount entry + avm_inbox_box_cost A)]"
proof -
  let ?amt = "record_amount entry + avm_inbox_box_cost A"
  have amt: "unat ?amt = unat (record_amount entry) + unat (avm_inbox_box_cost A)"
    using fits by (simp add: unat_word_ariths)
  let ?d = "c\<lparr>inbox_boxes := (inbox_boxes c)(i := None), app_min_balance := app_min_balance c - unat (avm_inbox_box_cost A)\<rparr>"
  have "app_min_balance ?d + unat ?amt \<le> app_balance ?d" using funds held amt by simp
  from itxn_payment_enough [OF delivers this] obtain left where
    pay: "itxn_payment A (record_payer entry) ?amt ?d
      = Inr (?d\<lparr>app_balance := left, app_payments := app_payments c @ [(record_payer entry, ?amt)]\<rparr>)" by auto
  have "plus64 (record_amount entry) (avm_inbox_box_cost A) = Inr ?amt" using amt by (simp add: plus64_Inr_iff)
  then have "reclaim_deposit A i c = itxn_payment A (record_payer entry) ?amt ?d"
    using assms(1,4,5) waiting held
    by (simp add: reclaim_deposit_def inbox_box_delete_def Let_def word_le_nat_alt word_less_nat_alt)
  then have "reclaim_deposit A i c
      = Inr (?d\<lparr>app_balance := left, app_payments := app_payments c @ [(record_payer entry, ?amt)]\<rparr>)"
    using pay by (rule trans)
  then show ?thesis by (intro exI, rule conjI) simp
qed

end
