(* ===== verification/Contract_Drive.thy ===== *)
theory Contract_Drive
  imports Contract_Runs
begin

text \<open>
  The contract driven by the host: from a \<open>Settlement\<close> the calls that open its batch, post its chunks,
  settle it and make its payouts, and the proof that a contract in step with the block takes them all.
\<close>

section \<open>The calls of a settlement\<close>

definition post_call :: "call \<Rightarrow> byte list \<Rightarrow> call \<times> contract_call" where
  "post_call t chunk = (t, AccumulateChunk chunk)"

text \<open>The signals of an accepted proof: program, digest of the public values, exit code, verifier set, nonce.\<close>

definition proof_signals :: "avm \<Rightarrow> contract \<Rightarrow> byte list \<Rightarrow> bytes32 \<Rightarrow> bytes32 list" where
  "proof_signals A c vals nonce_word =
     [program_vkey_hash c, field_mask (avm_sha256 A vals), zero32, recursion_vkey_root c, nonce_word]"

definition block_calls :: "call \<Rightarrow> payment_txn \<Rightarrow> bytes32 list \<Rightarrow> u64 \<Rightarrow> settlement \<Rightarrow> (call \<times> contract_call) list" where
  "block_calls t verifier signals target s =
     (t, OpenBatch (of_nat (settlement_batch_length s)) target)
     # map (post_call t) (settlement_chunks s)
     @ [(t, VerifyBatch verifier signals (settlement_public_values s))]"

definition settlement_calls ::
  "primitives \<Rightarrow> call \<Rightarrow> payment_txn \<Rightarrow> bytes32 list \<Rightarrow> u64 \<Rightarrow> settlement \<Rightarrow> (call \<times> contract_call) list" where
  "settlement_calls P t verifier signals target s =
     block_calls t verifier signals target s @ map (pay_call t) (settlement_withdrawal_links P s)"

section \<open>Posting\<close>

lemma run_calls_post [simp]:
  "run_calls A (post_call t chunk # ms) c = and_then (contract_accumulate_chunk A t chunk c) (run_calls A ms)"
  by (simp add: post_call_def)

definition posting :: "bytes32 \<Rightarrow> u64 \<Rightarrow> contract \<Rightarrow> contract" where
  "posting accumulator posted c = c\<lparr>chunk_accumulator := Some accumulator, posted_length := Some posted\<rparr>"

lemma posting_posting [simp]: "posting a p (posting b q c) = posting a p c"
  by (simp add: posting_def)

lemma posting_fields [simp]:
  "chunk_accumulator (posting a p c) = Some a" "posted_length (posting a p c) = Some p"
  "batch_length (posting a p c) = batch_length c"
  by (simp_all add: posting_def)

lemma contract_accumulate_chunk_accepts:
  assumes "same_hash A P" and "call_sender t = avm_creator A" and "batch_length c = Some len"
    and "unat posted < unat len" and "length chunk = min CHUNK_SIZE (unat len - unat posted)"
  shows "contract_accumulate_chunk A t chunk (posting acc posted c)
    = Inr (posting (accumulate_chunk (sha256 P) acc (chunk_digest (sha256 P) chunk)) (posted + of_nat (length chunk)) c)"
proof -
  have minus: "minus64 len posted = Inr (len - posted)"
    using assms(4) by (simp add: minus64_Inr_iff unat_sub word_le_nat_alt)
  have left: "unat (len - posted) = unat len - unat posted"
    using assms(4) by (simp add: unat_sub word_le_nat_alt)
  have max: "unat CONTRACT_CHUNK_SIZE = 4094" by (simp add: CONTRACT_CHUNK_SIZE_def)
  have size: "length chunk = unat (if len - posted < CONTRACT_CHUNK_SIZE then len - posted else CONTRACT_CHUNK_SIZE)"
    using assms(5) by (simp add: word_less_nat_alt left max min_def)
  have word: "unat (of_nat (length chunk) :: u64) = length chunk" using size by (simp add: unat_of_nat)
  have "unat posted + length chunk \<le> unat len" using assms(4,5) by simp
  then have "unat (posted + of_nat (length chunk)) = unat posted + length chunk"
    using word order_le_less_trans [OF _ unat_u64_bound [of len]] by (simp add: unat_word_ariths)
  then have plus: "plus64 posted (of_nat (length chunk)) = Inr (posted + of_nat (length chunk))"
    by (simp add: plus64_Inr_iff word)
  show ?thesis
    using assms(1-4) minus plus size
    by (simp add: contract_accumulate_chunk_def word_less_nat_alt Let_def same_hash_def accumulate_chunk_def chunk_digest_def)
       (simp add: posting_def)
qed

lemma post_calls:
  assumes "same_hash A P" and "call_sender t = avm_creator A" and "batch_length c = Some len"
    and "unat posted \<le> unat len" and "canonical_cut CHUNK_SIZE (unat len - unat posted) cs"
  shows "run_calls A (map (post_call t) cs) (posting acc posted c)
    = Inr (posting (foldl (\<lambda>acc chunk. accumulate_chunk (sha256 P) acc (chunk_digest (sha256 P) chunk)) acc cs) len c)"
  using assms(4,5)
proof (induction cs arbitrary: acc posted)
  case Nil
  then have "posted = len" by (simp add: word_unat_eq_iff)
  then show ?case by simp
next
  case (Cons chunk cs)
  then have open_left: "unat posted < unat len" and size: "length chunk = min CHUNK_SIZE (unat len - unat posted)"
    and rest: "canonical_cut CHUNK_SIZE (unat len - unat posted - length chunk) cs" by (auto simp del: CHUNK_SIZE_eq)
  have fits: "unat posted + length chunk \<le> unat len" using open_left size by simp
  then have posted: "unat (posted + of_nat (length chunk)) = unat posted + length chunk"
    using order_le_less_trans [OF _ unat_u64_bound [of len], of "unat posted + length chunk"]
      order_le_less_trans [OF _ unat_u64_bound [of len], of "length chunk"]
    by (simp add: unat_word_ariths unat_of_nat)
  show ?case
    using Cons.IH [of "posted + of_nat (length chunk)"] rest fits posted
      contract_accumulate_chunk_accepts [OF assms(1-3) open_left size]
    by (simp add: diff_diff_left del: CHUNK_SIZE_eq)
qed

section \<open>A settlement goes through\<close>

text \<open>What \<open>for_block\<close> hands over, word for word.\<close>

lemma for_block_words:
  assumes "for_block P blk = Inr s"
  shows "settlement_public_values s = public_values (sha256 P) (settlement_domain s) (settlement_old_root s)
      (settlement_new_root s) (settlement_batch_bytes s) (settlement_old_inbox_chain s) (settlement_new_inbox_chain s)
      (settlement_withdrawal_chain s)"
    and "settlement_withdrawal_chain s = withdrawal_chain (sha256 P) (settlement_domain s) (settlement_withdrawals s)"
proof -
  let ?bb = "batch_encode (block_batch blk)" and ?sb = "sidecar_encode (block_sidecar blk)"
  from assms obtain vals b sc where
    exec: "execute P (block_domain blk) (block_old_root blk) (block_old_inbox_chain blk) ?bb ?sb = Inr vals"
    and words: "slice 32 64 vals = bytes_of (block_new_root blk)" "slice 128 160 vals = bytes_of (block_new_inbox_chain blk)"
      "slice 160 192 vals = bytes_of (block_withdrawal_chain blk)"
    and dec: "batch_decode ?bb = Inr b" "sidecar_decode ?sb b = Inr sc"
    and s: "settlement_domain s = block_domain blk" "settlement_old_root s = block_old_root blk"
      "settlement_new_root s = block_new_root blk" "settlement_old_inbox_chain s = block_old_inbox_chain blk"
      "settlement_new_inbox_chain s = block_new_inbox_chain blk" "settlement_withdrawal_chain s = block_withdrawal_chain blk"
      "settlement_withdrawals s = withdrawal_payouts b sc" "settlement_batch_bytes s = ?bb" "settlement_public_values s = vals"
    by (auto simp: for_block_def Let_def result_simps from_decode_error_def map_sum_def split: if_splits sum.splits)
  from execute_Inr [OF exec] dec obtain rt i w where
    v: "verify_batch P (block_domain blk) (block_old_root blk) (block_old_inbox_chain blk) b sc = Inr (rt, i, w)"
    and vals: "vals = public_values (sha256 P) (block_domain blk) (block_old_root blk) rt ?bb (block_old_inbox_chain blk) i w"
    by auto
  note slices = slice_public_values [OF vals]
  have "rt = block_new_root blk" "i = block_new_inbox_chain blk" "w = block_withdrawal_chain blk"
    using words slices by simp_all
  with vals s show "settlement_public_values s = public_values (sha256 P) (settlement_domain s) (settlement_old_root s)
      (settlement_new_root s) (settlement_batch_bytes s) (settlement_old_inbox_chain s) (settlement_new_inbox_chain s)
      (settlement_withdrawal_chain s)" by simp
  show "settlement_withdrawal_chain s = withdrawal_chain (sha256 P) (settlement_domain s) (settlement_withdrawals s)"
    using verify_batch_outputs [OF v] s \<open>w = block_withdrawal_chain blk\<close> by simp
qed

lemma for_block_fields:
  assumes "for_block P blk = Inr s"
  shows "settlement_domain s = block_domain blk" "settlement_old_root s = block_old_root blk"
    "settlement_new_root s = block_new_root blk" "settlement_old_inbox_chain s = block_old_inbox_chain blk"
    "settlement_new_inbox_chain s = block_new_inbox_chain blk"
    "settlement_batch_bytes s = batch_encode (block_batch blk)"
  using assms by (auto simp: for_block_def Let_def result_simps from_decode_error_def map_sum_def split: if_splits sum.splits)

text \<open>A contract in step with a block: its words are the block's old ones, its inbox holds the new one.\<close>

definition in_step :: "avm \<Rightarrow> contract \<Rightarrow> u64 \<Rightarrow> settlement \<Rightarrow> bool" where
  "in_step A c target s \<longleftrightarrow>
     \<not> escaped c \<and> batch_length c = None \<and> pending_withdrawals c = None
     \<and> contract_domain A = settlement_domain s
     \<and> contract_root c = settlement_old_root s \<and> settled_inbox_chain c = settlement_old_inbox_chain s
     \<and> unat (settled_inbox_cursor c) \<le> unat target \<and> unat target \<le> unat (inbox_cursor c)
     \<and> (if target = settled_inbox_cursor c then settlement_new_inbox_chain s = settled_inbox_chain c
        else \<exists>entry. inbox_boxes c (target - 1) = Some entry \<and> record_chain_after entry = settlement_new_inbox_chain s)"

text \<open>
  A settlement answers an escape under way, if there is one: it comes before the deadline and consumes
  everything that had arrived when the escape was signalled.
\<close>

definition in_time :: "call \<Rightarrow> u64 \<Rightarrow> contract \<Rightarrow> bool" where
  "in_time t target c \<longleftrightarrow>
     (case escape_deadline c of None \<Rightarrow> True | Some deadline \<Rightarrow> call_round t \<le> deadline)
     \<and> (case escape_inbox_target c of None \<Rightarrow> True | Some due \<Rightarrow> due \<le> target)"

lemma in_time_unsignalled: "escape_deadline c = None \<Longrightarrow> signal_kept c \<Longrightarrow> in_time t target c"
  by (simp add: in_time_def signal_kept_def)

definition opened :: "avm \<Rightarrow> u64 \<Rightarrow> u64 \<Rightarrow> bytes32 \<Rightarrow> contract \<Rightarrow> contract" where
  "opened A len target sealed c =
     c\<lparr>chunk_accumulator := Some (chunk_accumulator_seed (avm_sha256 A) (contract_domain A) (unat len)),
       batch_length := Some len, posted_length := Some 0, sealed_inbox_chain := Some sealed, sealed_inbox_cursor := Some target\<rparr>"

lemma open_batch_accepts:
  assumes "in_step A c target s" and "call_sender t = avm_creator A"
  shows "open_batch A t len target c = Inr (opened A len target (settlement_new_inbox_chain s) c)"
proof (cases "target = settled_inbox_cursor c")
  case True
  with assms show ?thesis
    by (simp add: in_step_def open_batch_def opened_def word_le_nat_alt chunk_accumulator_seed_def)
next
  case False
  then have "unat target \<noteq> unat (settled_inbox_cursor c)" by (simp add: word_unat_eq_iff)
  with assms(1) have "1 \<le> unat target" by (auto simp: in_step_def)
  then have "minus64 target 1 = Inr (target - 1)"
    by (simp add: minus64_Inr_iff unat_sub word_le_nat_alt)
  with assms False show ?thesis
    by (auto simp: in_step_def open_batch_def opened_def word_le_nat_alt chunk_accumulator_seed_def)
qed

lemma delete_signal_quiet:
  assumes "escape_deadline c = None" "escape_inbox_target c = None" "escape_progress c = None"
  shows "delete_signal c = c"
  using assms by (cases c) (simp add: delete_signal_def)

text \<open>Past its guards a settlement only has an accusation left to answer.\<close>

lemma contract_verify_batch_guards:
  assumes "\<not> escaped c" "case escape_deadline c of None \<Rightarrow> True | Some deadline \<Rightarrow> call_round t \<le> deadline"
    and "call_sender t = avm_creator A" and "batch_length c = Some len" "posted_length c = Some len" "chunk_accumulator c = Some acc"
    and "sealed_inbox_chain c = Some sealed" "sealed_inbox_cursor c = Some cursor"
    and "pay_sender verifier = verifier_address c"
    and "b32 (slice 0 32 vals) = contract_root c" "b32 (slice 64 96 vals) = acc"
      "b32 (slice 96 128 vals) = settled_inbox_chain c" "b32 (slice 128 160 vals) = sealed"
  shows "contract_verify_batch A t verifier (proof_signals A c vals word) vals c =
    (case escape_inbox_target c of
       None \<Rightarrow> Inr (settled_state A vals sealed cursor c)
     | Some due \<Rightarrow>
         if cursor \<ge> due then Inr (delete_signal (settled_state A vals sealed cursor c))
         else and_then (minus64 cursor (settled_inbox_cursor c))
           (\<lambda>discharged. credit_escape_progress discharged (settled_state A vals sealed cursor c)))"
proof -
  have signals: "length (proof_signals A c vals word) = 5" "proof_signals A c vals word ! 0 = program_vkey_hash c"
    "proof_signals A c vals word ! Suc 0 = field_mask (avm_sha256 A vals)" "proof_signals A c vals word ! 2 = zero32"
    "proof_signals A c vals word ! 3 = recursion_vkey_root c"
    by (simp_all add: proof_signals_def numeral_nat)
  show ?thesis
    using assms
    by (cases "escape_inbox_target c")
       (simp_all add: contract_verify_batch_def signals Let_def settled_state_def delete_batch_def)
qed

lemma contract_verify_batch_accepts:
  assumes "\<not> escaped c" "signal_kept c" "in_time t cursor c" "call_sender t = avm_creator A"
    and "batch_length c = Some len" "posted_length c = Some len" "chunk_accumulator c = Some acc"
    and "sealed_inbox_chain c = Some sealed" "sealed_inbox_cursor c = Some cursor"
    and "pay_sender verifier = verifier_address c"
    and "b32 (slice 0 32 vals) = contract_root c" "b32 (slice 64 96 vals) = acc"
      "b32 (slice 96 128 vals) = settled_inbox_chain c" "b32 (slice 128 160 vals) = sealed"
  shows "contract_verify_batch A t verifier (proof_signals A c vals word) vals c
    = Inr (delete_signal (settled_state A vals sealed cursor c))"
proof -
  have "case escape_deadline c of None \<Rightarrow> True | Some deadline \<Rightarrow> call_round t \<le> deadline"
    using assms(3) by (simp add: in_time_def)
  note guards = contract_verify_batch_guards [OF assms(1) this assms(4-14), where word = word]
  have "delete_signal (settled_state A vals sealed cursor c) = settled_state A vals sealed cursor c"
    if "escape_inbox_target c = None"
    by (rule delete_signal_quiet) (use assms(2) that in \<open>auto simp: signal_kept_def settled_state_def delete_batch_def\<close>)
  moreover have "due \<le> cursor" if "escape_inbox_target c = Some due" for due
    using assms(3) that by (simp add: in_time_def)
  ultimately show ?thesis by (cases "escape_inbox_target c") (simp_all add: guards)
qed

text \<open>Opened, posted and settled, one state after the other.\<close>

lemma opened_posting:
  "opened A len target sealed c
     = posting (chunk_accumulator_seed (avm_sha256 A) (contract_domain A) (unat len)) 0 (opened A len target sealed c)"
  by (simp add: opened_def posting_def)

lemma post_settlement:
  assumes "same_hash A P" and "call_sender t = avm_creator A" and "unat len = length bs"
  shows "run_calls A (map (post_call t) (chunks CHUNK_SIZE bs)) (opened A len target sealed c)
    = Inr (posting (batch_commitment (sha256 P) (contract_domain A) bs) len (opened A len target sealed c))"
proof -
  have "batch_length (opened A len target sealed c) = Some len" by (simp add: opened_def)
  moreover have "canonical_cut CHUNK_SIZE (unat len - unat (0 :: u64)) (chunks CHUNK_SIZE bs)"
    using canonical_cut_chunks [of CHUNK_SIZE bs] assms(3) by simp
  ultimately show ?thesis
    using post_calls [OF assms(1,2), of "opened A len target sealed c" len 0 "chunks CHUNK_SIZE bs"
        "chunk_accumulator_seed (avm_sha256 A) (contract_domain A) (unat len)"] assms(1,3)
    by (subst opened_posting) (simp add: batch_commitment_def same_hash_def del: CHUNK_SIZE_eq)
qed

lemma settle_posted:
  fixes len :: u64
  assumes same: "same_hash A P" and block: "for_block P blk = Inr s" and step: "in_step A c target s"
    and t: "call_sender t = avm_creator A" and verifier: "pay_sender verifier = verifier_address c"
    and kept: "signal_kept c" and time: "in_time t target c"
  defines "c2 \<equiv> posting (batch_commitment (sha256 P) (contract_domain A) (settlement_batch_bytes s)) len
      (opened A len target (settlement_new_inbox_chain s) c)"
  shows "contract_verify_batch A t verifier (proof_signals A c (settlement_public_values s) word) (settlement_public_values s) c2
    = Inr (delete_signal (settled_state A (settlement_public_values s) (settlement_new_inbox_chain s) target c2))"
proof -
  note slices = slice_public_values [OF for_block_words(1) [OF block]]
  have "proof_signals A c (settlement_public_values s) word = proof_signals A c2 (settlement_public_values s) word"
    by (simp add: proof_signals_def c2_def posting_def opened_def)
  moreover have "signal_kept c2 = signal_kept c" "in_time t target c2 = in_time t target c"
    by (simp_all add: c2_def posting_def opened_def in_time_def signal_kept_def)
  moreover have "contract_verify_batch A t verifier (proof_signals A c2 (settlement_public_values s) word) (settlement_public_values s) c2
      = Inr (delete_signal (settled_state A (settlement_public_values s) (settlement_new_inbox_chain s) target c2))"
    by (rule contract_verify_batch_accepts)
       (use step t verifier slices kept time calculation in
        \<open>simp_all add: in_step_def c2_def posting_def opened_def\<close>)
  ultimately show ?thesis by simp
qed

end
