(* ===== verification/Contract_Blocks.thy ===== *)
theory Contract_Blocks
  imports Contract_Drive
begin

text \<open>
  The sequencer against the contract: a block a ledger built, in step with a contract that has seen
  the same inbox, opens, posts, settles and pays out, whatever the history that led there.
\<close>

section \<open>Runs of a history\<close>

lemma on_chain_same: "on_chain g = c \<Longrightarrow> g\<lparr>on_chain := c\<rparr> = g"
  by (cases g) simp

lemma history_posts:
  assumes "history A P g" and "run_calls A (map (post_call t) cs) (on_chain g) = Inr c'"
  shows "history A P (g\<lparr>on_chain := c', posted_chunks := posted_chunks g @ cs\<rparr>)"
  using assms
proof (induction cs arbitrary: g)
  case (Cons chunk cs)
  then obtain d where d: "contract_accumulate_chunk A t chunk (on_chain g) = Inr d"
    and rest: "run_calls A (map (post_call t) cs) d = Inr c'" by (auto simp: and_then_Inr_iff)
  have "history A P (record_call (sha256 P) (AccumulateChunk chunk) d g)"
    by (rule history.called [OF Cons.prems(1), of _ t]) (use d in simp_all)
  from Cons.IH [OF this] rest show ?case by simp
qed (simp add: on_chain_same)

definition link_string :: "withdrawal_link \<Rightarrow> byte list" where
  "link_string l = payout_step (link_tail l) (link_recipient l, link_amount l)"

lemma history_pays:
  assumes "history A P g" and "run_calls A (map (pay_call t) ls) (on_chain g) = Inr c'"
  shows "history A P (g\<lparr>on_chain := c', dues := drop (length ls) (dues g),
      hashed_strings := hashed_strings g @ map link_string ls\<rparr>)"
  using assms
proof (induction ls arbitrary: g)
  case (Cons l ls)
  then obtain d where d: "pay_withdrawal A t (link_recipient l) (link_amount l) (link_tail l) (on_chain g) = Inr d"
    and rest: "run_calls A (map (pay_call t) ls) d = Inr c'" by (auto simp: and_then_Inr_iff)
  have "history A P (record_call (sha256 P) (PayWithdrawal (link_recipient l) (link_amount l) (link_tail l)) d g)"
    by (rule history.called [OF Cons.prems(1), of _ t]) (use d in simp_all)
  from Cons.IH [OF this] rest show ?case by (simp add: link_string_def drop_Suc)
qed (simp add: on_chain_same)

lemma length_withdrawal_links [simp]: "length (withdrawal_links H d ps) = length ps"
  by (induction ps) auto

lemma link_strings_paid:
  "set (map link_string (withdrawal_links H d ps)) \<subseteq> set (payout_preimages H d ps)"
proof (induction ps)
  case (Cons p ps)
  then show ?case using payout_preimages_tail [of H d ps p] by (cases p) (auto simp: link_string_def payout_preimages_def withdrawal_chain_fold)
qed simp

lemma get_block_domain:
  assumes "wf_ledger P l" and "get_block P xs l = Inr (blk, l')"
  shows "ledger_domain l' = ledger_domain l"
proof (rule get_block_cases [OF assms])
  fix st
  assume "spec_txns P (ledger_domain l) xs (ledger_rollup l) = Inr st"
  with get_block_Inr [OF assms(1) this] assms(2) show ?thesis by auto
qed

section \<open>In step\<close>

text \<open>
  The contract holds the words the ledger starts from, the accounts it has settled are the ledger's,
  and nothing is under way.
\<close>

definition at_rest :: "avm \<Rightarrow> primitives \<Rightarrow> chronicle \<Rightarrow> ledger \<Rightarrow> bool" where
  "at_rest A P g l \<longleftrightarrow>
     contract_domain A = ledger_domain l \<and> contract_root (on_chain g) = state_root P l
     \<and> settled_inbox_chain (on_chain g) = ledger_inbox_chain l \<and> tree_accounts (settled_tree g) = ledger_accounts l
     \<and> \<not> escaped (on_chain g) \<and> batch_length (on_chain g) = None \<and> pending_withdrawals (on_chain g) = None"

text \<open>The strings hashed up to and with a block's settlement.\<close>

definition block_strings :: "avm \<Rightarrow> primitives \<Rightarrow> chronicle \<Rightarrow> block \<Rightarrow> byte list list" where
  "block_strings A P g blk =
     hashed_strings g
     @ settlement_strings A P (g\<lparr>posted_chunks := chunks CHUNK_SIZE (batch_encode (block_batch blk))\<rparr>)
         (block_domain blk) (batch_encode (block_batch blk)) (block_batch blk) (block_sidecar blk)"

lemma fold_next_items:
  assumes told: "inbox_told P g" and "unat (settled_inbox_cursor (on_chain g)) \<le> unat target"
    and "unat target \<le> unat (inbox_cursor (on_chain g))"
  shows "inbox.fold_chain (sha256 P) (settled_inbox_chain (on_chain g)) (next_items g target) = chain_at P g (unat target)"
proof -
  have "unat target \<le> length (arrived g)" using assms(3) inbox_toldD(1) [OF told] by simp
  note items = settled_then_next [OF assms(2) this]
  have "chain_at P g (unat target)
      = inbox.fold_chain (sha256 P) (inbox.fold_chain (sha256 P) INBOX_CHAIN_GENESIS (settled_items g)) (next_items g target)"
    by (simp add: chain_at_def flip: items)
  then show ?thesis using inbox_toldD(3) [OF told] by (simp add: chain_at_def settled_items_def)
qed

text \<open>The accounts settled are the ones the block leaves the ledger with.\<close>

lemma settled_accounts:
  assumes wf: "wf_ledger P l" and blk: "get_block P xs l = Inr (blk, l')" and rest: "at_rest A P g l"
    and tree: "wf_tree (sha256 P) (settled_tree g)" "contract_root (on_chain g) = root (sha256 P) (settled_tree g)"
    and cf: "collision_free (sha256 P) (event_preimages (sha256 P) (settled_tree g) (batch_events (block_batch blk) (block_sidecar blk)))"
  shows "tree_accounts (merkle.track (sha256 P) (settled_tree g) (batch_events (block_batch blk) (block_sidecar blk)))
    = ledger_accounts l'"
proof (rule get_block_cases [OF wf blk])
  fix st
  assume run: "spec_txns P (ledger_domain l) xs (ledger_rollup l) = Inr st" and accs: "ledger_accounts l' = spec_accounts st"
    and signed: "batch_signed (block_batch blk) (block_sidecar blk) = xs"
    and words: "block_domain blk = ledger_domain l" "block_old_root blk = state_root P l" and ok: "verify_block P blk = Inr ()"
  have "state_root P l = root (sha256 P) (settled_tree g)" using rest tree(2) by (simp add: at_rest_def)
  with ok words have "verify_batch P (ledger_domain l) (root (sha256 P) (settled_tree g)) (block_old_inbox_chain blk)
      (block_batch blk) (block_sidecar blk) = Inr (block_new_root blk, block_new_inbox_chain blk, block_withdrawal_chain blk)"
    by (simp add: verify_block_Inr_iff)
  note verify_batch_tracks(1) [OF tree(1) cf this]
  moreover have "ledger_rollup l = \<lparr>spec_accounts = tree_accounts (settled_tree g), spec_items = [], spec_payouts = []\<rparr>"
    using rest by (simp add: at_rest_def ledger_rollup_def)
  ultimately have "st = \<lparr>spec_accounts = tree_accounts (merkle.track (sha256 P) (settled_tree g)
        (batch_events (block_batch blk) (block_sidecar blk))),
      spec_items = batch_inbox_items (block_batch blk),
      spec_payouts = withdrawal_payouts (block_batch blk) (block_sidecar blk)\<rparr>"
    using run signed by simp
  then show ?thesis using accs by simp
qed

text \<open>A rested contract that has seen what the block consumes is in step with its settlement.\<close>

lemma in_step_at:
  assumes told: "inbox_told P g" and kept: "well_kept (on_chain g)" and rest: "at_rest A P g l"
    and words: "settlement_domain s = ledger_domain l" "settlement_old_root s = state_root P l"
      "settlement_old_inbox_chain s = ledger_inbox_chain l"
      "settlement_new_inbox_chain s = inbox.fold_chain (sha256 P) (ledger_inbox_chain l) (next_items g target)"
    and bounds: "unat (settled_inbox_cursor (on_chain g)) \<le> unat target" "unat target \<le> unat (inbox_cursor (on_chain g))"
  shows "in_step A (on_chain g) target s"
proof -
  let ?c = "on_chain g"
  have end_chain: "settlement_new_inbox_chain s = chain_at P g (unat target)"
    using fold_next_items [OF told bounds] rest words(4) by (simp add: at_rest_def)
  have "if target = settled_inbox_cursor ?c then settlement_new_inbox_chain s = settled_inbox_chain ?c
      else \<exists>entry. inbox_boxes ?c (target - 1) = Some entry \<and> record_chain_after entry = settlement_new_inbox_chain s"
  proof (cases "target = settled_inbox_cursor ?c")
    case True
    with end_chain inbox_toldD(3) [OF told] show ?thesis by simp
  next
    case False
    then have "unat target \<noteq> unat (settled_inbox_cursor ?c)" by (simp add: word_unat_eq_iff)
    with bounds(1) have last: "unat (target - 1) = unat target - 1" "0 < unat target"
      "unat (settled_inbox_cursor ?c) \<le> unat target - 1" by (simp_all add: unat_sub word_le_nat_alt)
    with bounds(2) well_keptD(4) [OF kept] rest obtain entry where "inbox_boxes ?c (target - 1) = Some entry"
      by (fastforce simp: inbox_kept_def at_rest_def)
    with inbox_toldD(5) [OF told this] last end_chain False show ?thesis by (simp add: box_told_def)
  qed
  with rest words bounds show ?thesis by (simp add: in_step_def at_rest_def)
qed

section \<open>Settled on chain\<close>

text \<open>
  Opened and fully posted: the history the contract then has, in which \<open>verifyBatch\<close> returns.
\<close>

definition posted_chronicle :: "avm \<Rightarrow> primitives \<Rightarrow> u64 \<Rightarrow> settlement \<Rightarrow> chronicle \<Rightarrow> chronicle" where
  "posted_chronicle A P target s g =
     g\<lparr>on_chain := posting (batch_commitment (sha256 P) (contract_domain A) (settlement_batch_bytes s))
         (of_nat (settlement_batch_length s))
         (opened A (of_nat (settlement_batch_length s)) target (settlement_new_inbox_chain s) (on_chain g)),
       posted_chunks := settlement_chunks s\<rparr>"

lemma block_posts_in_history:
  assumes hist: "history A P g" and same: "same_hash A P" and block: "for_block P blk = Inr s"
    and step: "in_step A (on_chain g) target s" and t: "call_sender t = avm_creator A"
    and len: "settlement_batch_length s < 2 ^ 64"
  shows "history A P (posted_chronicle A P target s g)"
    and "run_calls A ((t, OpenBatch (of_nat (settlement_batch_length s)) target) # map (post_call t) (settlement_chunks s))
      (on_chain g) = Inr (on_chain (posted_chronicle A P target s g))"
proof -
  let ?c = "on_chain g" and ?len = "of_nat (settlement_batch_length s) :: u64" and ?sealed = "settlement_new_inbox_chain s"
  let ?c1 = "opened A ?len target ?sealed ?c" and ?c2 = "on_chain (posted_chronicle A P target s g)"
  let ?g1 = "record_call (sha256 P) (OpenBatch ?len target) ?c1 g"
  have ulen: "unat ?len = length (settlement_batch_bytes s)"
    using len by (simp add: unat_of_nat settlement_batch_length_def)
  note opens = open_batch_accepts [OF step t, of ?len]
  have posts: "run_calls A (map (post_call t) (settlement_chunks s)) ?c1 = Inr ?c2"
    using post_settlement [OF same t ulen, of target ?sealed ?c] by (simp add: posted_chronicle_def settlement_chunks_def)
  have "history A P ?g1" by (rule history.called [OF hist, of _ t]) (use opens in simp_all)
  from history_posts [OF this, of t "settlement_chunks s" ?c2] posts
  show "history A P (posted_chronicle A P target s g)" by (simp add: posted_chronicle_def)
  show "run_calls A ((t, OpenBatch ?len target) # map (post_call t) (settlement_chunks s)) ?c = Inr ?c2"
    using opens posts by simp
qed

text \<open>Settled, as far as the payouts.\<close>

lemma block_settles_in_history:
  assumes hist: "history A P g" and same: "same_hash A P" and block: "for_block P blk = Inr s"
    and step: "in_step A (on_chain g) target s"
    and t: "call_sender t = avm_creator A" and verifier: "pay_sender verifier = verifier_address (on_chain g)"
    and time: "in_time t target (on_chain g)"
    and len: "settlement_batch_length s < 2 ^ 64"
    and guest: "guest_main P (bytes_of (block_domain blk)) (bytes_of (block_old_root blk))
        (bytes_of (block_old_inbox_chain blk)) (batch_encode (block_batch blk))
        (sidecar_encode (block_sidecar blk)) = Inr (settlement_public_values s)"
    and decoded: "batch_decode (batch_encode (block_batch blk)) = Inr (block_batch blk)"
      "sidecar_decode (sidecar_encode (block_sidecar blk)) (block_batch blk) = Inr (block_sidecar blk)"
  shows "\<exists>g'. run_calls A (block_calls t verifier
        (proof_signals A (on_chain g) (settlement_public_values s) word) target s) (on_chain g) = Inr (on_chain g')
    \<and> history A P g' \<and> contract_root (on_chain g') = settlement_new_root s
    \<and> settled_inbox_chain (on_chain g') = settlement_new_inbox_chain s \<and> settled_inbox_cursor (on_chain g') = target
    \<and> app_payments (on_chain g') = app_payments (on_chain g)
    \<and> escape_deadline (on_chain g') = None \<and> batch_length (on_chain g') = None \<and> \<not> escaped (on_chain g')
    \<and> dues g' = withdrawal_payouts (block_batch blk) (block_sidecar blk) \<and> hashed_strings g' = block_strings A P g blk
    \<and> settled_tree g' = merkle.track (sha256 P) (settled_tree g) (batch_events (block_batch blk) (block_sidecar blk))"
proof -
  let ?c = "on_chain g" and ?vals = "settlement_public_values s" and ?sealed = "settlement_new_inbox_chain s"
    and ?g2 = "posted_chronicle A P target s g"
  let ?c3 = "delete_signal (settled_state A ?vals ?sealed target (on_chain ?g2))"
  define g3 where "g3 = record_settlement A P (b32 (bytes_of (block_domain blk))) (batch_encode (block_batch blk))
      (block_batch blk) (block_sidecar blk) ?c3 ?g2"
  note posts = block_posts_in_history [OF hist same block step t len]
  have settles: "contract_verify_batch A t verifier (proof_signals A ?c ?vals word) ?vals (on_chain ?g2) = Inr ?c3"
    using settle_posted [OF same block step t verifier well_keptD(2) [OF history_kept [OF hist]] time, where word = word] by (simp add: posted_chronicle_def)
  have "history A P g3"
    unfolding g3_def by (rule history.settled [OF posts(1) settles guest decoded])
  moreover have c3: "on_chain g3 = ?c3" by (simp add: g3_def)
  moreover have "run_calls A (block_calls t verifier (proof_signals A ?c ?vals word) target s) ?c = Inr ?c3"
    using posts(2) settles
      run_calls_append [of A "(t, OpenBatch (of_nat (settlement_batch_length s)) target) # map (post_call t) (settlement_chunks s)"
        "[(t, VerifyBatch verifier (proof_signals A ?c ?vals word) ?vals)]" ?c]
    by (simp add: block_calls_def)
  moreover have "contract_root ?c3 = settlement_new_root s"
    using slice_public_values [OF for_block_words(1) [OF block]] by (simp add: settled_state_def delete_batch_def delete_signal_def)
  moreover have "hashed_strings g3 = block_strings A P g blk"
    by (simp add: g3_def record_settlement_def block_strings_def settlement_strings_def settled_items_def
        settlement_chunks_def for_block_fields(6) [OF block] posted_chronicle_def posting_def opened_def del: CHUNK_SIZE_eq)
  moreover have "dues g3 = withdrawal_payouts (block_batch blk) (block_sidecar blk)"
      "settled_tree g3 = merkle.track (sha256 P) (settled_tree g) (batch_events (block_batch blk) (block_sidecar blk))"
    by (simp_all add: g3_def record_settlement_def posted_chronicle_def)
  moreover have "settled_inbox_chain ?c3 = ?sealed \<and> settled_inbox_cursor ?c3 = target \<and> app_payments ?c3 = app_payments ?c
      \<and> escape_deadline ?c3 = None \<and> batch_length ?c3 = None \<and> \<not> escaped ?c3"
    using step by (simp add: posted_chronicle_def settled_state_def delete_batch_def delete_signal_def posting_def opened_def in_step_def)
  ultimately show ?thesis by (intro exI [of _ g3]) (simp only: simp_thms)
qed

text \<open>A block built by a ledger at rest with the contract is in step with it, and the guest accepts it.\<close>

lemma built_block_in_step:
  assumes told: "inbox_told P g" and kept: "well_kept (on_chain g)"
    and wf: "wf_ledger P l" "list_all wf_signed xs" and blk: "get_block P xs l = Inr (blk, l')"
    and size: "length (batch_encode (block_batch blk)) < 2 ^ 64" "length (sidecar_encode (block_sidecar blk)) < 2 ^ 64"
    and rest: "at_rest A P g l"
    and bounds: "unat (settled_inbox_cursor (on_chain g)) \<le> unat target" "unat target \<le> unat (inbox_cursor (on_chain g))"
    and items: "batch_inbox_items (block_batch blk) = next_items g target"
  shows "\<exists>s. for_block P blk = Inr s \<and> in_step A (on_chain g) target s \<and> settlement_batch_length s < 2 ^ 64
    \<and> guest_main P (bytes_of (block_domain blk)) (bytes_of (block_old_root blk)) (bytes_of (block_old_inbox_chain blk))
        (batch_encode (block_batch blk)) (sidecar_encode (block_sidecar blk)) = Inr (settlement_public_values s)
    \<and> settlement_withdrawals s = withdrawal_payouts (block_batch blk) (block_sidecar blk)
    \<and> settlement_domain s = contract_domain A
    \<and> settlement_new_root s = state_root P l' \<and> settlement_new_inbox_chain s = ledger_inbox_chain l'"
proof -
  note wire = built_block_wire [OF wf blk size]
  from get_block_cases [OF wf(1) blk] have words: "block_domain blk = ledger_domain l" "block_old_root blk = state_root P l"
      "block_new_root blk = state_root P l'" "block_old_inbox_chain blk = ledger_inbox_chain l"
      "block_new_inbox_chain blk = ledger_inbox_chain l'"
      "ledger_inbox_chain l' = inbox.fold_chain (sha256 P) (ledger_inbox_chain l) (batch_inbox_items (block_batch blk))"
    by metis+
  from for_block_of_executed [OF wire(3,1,2)] obtain s where block: "for_block P blk = Inr s"
    and s: "settlement_withdrawals s = withdrawal_payouts (block_batch blk) (block_sidecar blk)"
      "settlement_public_values s = public_values (sha256 P) (block_domain blk)
        (block_old_root blk) (block_new_root blk) (batch_encode (block_batch blk)) (block_old_inbox_chain blk)
        (block_new_inbox_chain blk) (block_withdrawal_chain blk)"
    by blast
  note fields = for_block_fields [OF block]
  have "in_step A (on_chain g) target s"
    by (rule in_step_at [OF told kept rest _ _ _ _ bounds]) (simp_all add: fields words items)
  moreover have "guest_main P (bytes_of (block_domain blk)) (bytes_of (block_old_root blk)) (bytes_of (block_old_inbox_chain blk))
      (batch_encode (block_batch blk)) (sidecar_encode (block_sidecar blk)) = Inr (settlement_public_values s)"
    using wire(3) s(2) by (simp add: guest_main_def try_into_32_def)
  moreover have "settlement_batch_length s < 2 ^ 64" using size(1) by (simp add: settlement_batch_length_def fields)
  moreover have "settlement_domain s = contract_domain A" using rest by (simp add: fields words at_rest_def)
  ultimately show ?thesis using block s(1) fields words by (intro exI [of _ s]) (simp only: simp_thms)
qed

section \<open>A block on chain\<close>

text \<open>
  Whatever brought the contract there: if it holds the words a ledger starts from and has taken in
  what the block consumes, the calls the host prepares all go through, money included, and leave
  it with the words the ledger ends at, ready for the next block.
\<close>

lemma settles_on_chain:
  assumes hist: "history A P g" and same: "same_hash A P"
    and wf: "wf_ledger P l" "list_all wf_signed xs" and blk: "get_block P xs l = Inr (blk, l')"
    and size: "length (batch_encode (block_batch blk)) < 2 ^ 64" "length (sidecar_encode (block_sidecar blk)) < 2 ^ 64"
    and rest: "at_rest A P g l"
    and bounds: "unat (settled_inbox_cursor (on_chain g)) \<le> unat target" "unat target \<le> unat (inbox_cursor (on_chain g))"
    and items: "batch_inbox_items (block_batch blk) = next_items g target"
    and t: "call_sender t = avm_creator A" and verifier: "pay_sender verifier = verifier_address (on_chain g)"
    and time: "in_time t target (on_chain g)"
    and delivers: "\<forall>(r, a)\<in>set (withdrawal_payouts (block_batch blk) (block_sidecar blk)). avm_delivers A r a"
    and cf: "collision_free (sha256 P) (block_strings A P g blk)"
  shows "\<exists>s g'. for_block P blk = Inr s
    \<and> run_calls A (settlement_calls P t verifier
        (proof_signals A (on_chain g) (settlement_public_values s) word) target s) (on_chain g) = Inr (on_chain g')
    \<and> history A P g' \<and> at_rest A P g' l' \<and> escape_deadline (on_chain g') = None
    \<and> settled_inbox_cursor (on_chain g') = target \<and> dues g' = [] \<and> set (hashed_strings g') \<subseteq> set (block_strings A P g blk)
    \<and> app_payments (on_chain g') = app_payments (on_chain g) @ withdrawal_payouts (block_batch blk) (block_sidecar blk)"
proof -
  let ?d = "contract_domain A" and ?ps = "withdrawal_payouts (block_batch blk) (block_sidecar blk)" and ?c = "on_chain g"
  note wire = built_block_wire [OF wf blk size]
  from built_block_in_step [OF history_inbox_told [OF hist same] history_kept [OF hist] wf blk size rest bounds items]
  obtain s where block: "for_block P blk = Inr s" and step: "in_step A ?c target s"
    and len: "settlement_batch_length s < 2 ^ 64"
    and guest: "guest_main P (bytes_of (block_domain blk)) (bytes_of (block_old_root blk)) (bytes_of (block_old_inbox_chain blk))
      (batch_encode (block_batch blk)) (sidecar_encode (block_sidecar blk)) = Inr (settlement_public_values s)"
    and s: "settlement_withdrawals s = ?ps" "settlement_domain s = ?d" "settlement_new_root s = state_root P l'"
      "settlement_new_inbox_chain s = ledger_inbox_chain l'" by blast
  from block_settles_in_history [OF hist same block step t verifier time len guest wire(1,2)]
  obtain g3 where run: "run_calls A (block_calls t verifier (proof_signals A ?c (settlement_public_values s) word) target s) ?c = Inr (on_chain g3)"
    and g3: "history A P g3" "contract_root (on_chain g3) = settlement_new_root s"
      "settled_inbox_chain (on_chain g3) = settlement_new_inbox_chain s" "app_payments (on_chain g3) = app_payments ?c"
      "settled_inbox_cursor (on_chain g3) = target"
      "escape_deadline (on_chain g3) = None" "batch_length (on_chain g3) = None" "\<not> escaped (on_chain g3)"
      "dues g3 = ?ps" "hashed_strings g3 = block_strings A P g blk"
      "settled_tree g3 = merkle.track (sha256 P) (settled_tree g) (batch_events (block_batch blk) (block_sidecar blk))"
    by blast
  have books: "books A P g3" by (rule history_books [OF g3(1) same]) (use cf in \<open>simp add: g3\<close>)
  have cfp: "collision_free (sha256 P) (payout_preimages (sha256 P) ?d ?ps)"
    by (rule collision_free_mono [OF cf]) (auto simp: block_strings_def settlement_strings_def)
  have pending: "pending_withdrawals (on_chain g3) = (if ?ps = [] then None else Some (withdrawal_chain (sha256 P) ?d ?ps))"
    and funds: "app_min_balance (on_chain g3) + paid_out ?ps \<le> app_balance (on_chain g3)"
    using books by (simp_all add: books_def dues_told_def solvent_def owed_def g3(9))
  obtain left where pays: "run_calls A (map (pay_call t) (withdrawal_links (sha256 P) ?d ?ps)) (on_chain g3)
      = Inr ((on_chain g3)\<lparr>pending_withdrawals := None, app_balance := left, app_payments := app_payments ?c @ ?ps\<rparr>)"
    using pay_links_drain [OF same _ pending delivers funds cfp, of t] g3(4-6) by auto
  let ?c' = "(on_chain g3)\<lparr>pending_withdrawals := None, app_balance := left, app_payments := app_payments ?c @ ?ps\<rparr>"
  have "run_calls A (settlement_calls P t verifier (proof_signals A ?c (settlement_public_values s) word) target s) ?c = Inr ?c'"
    using run pays
    by (simp add: settlement_calls_def run_calls_append settlement_withdrawal_links_def s)
  moreover let ?g' = "g3\<lparr>on_chain := ?c', dues := [],
      hashed_strings := hashed_strings g3 @ map link_string (withdrawal_links (sha256 P) ?d ?ps)\<rparr>"
  have "history A P ?g'" using history_pays [OF g3(1) pays] by (simp add: g3(9))
  moreover have "books A P g"
    by (rule history_books [OF hist same collision_free_mono [OF cf]]) (auto simp: block_strings_def)
  then have tree: "wf_tree (sha256 P) (settled_tree g)" "contract_root ?c = root (sha256 P) (settled_tree g)"
    by (simp_all add: books_def dues_told_def)
  have "at_rest A P ?g' l'"
    using rest get_block_domain [OF wf(1) blk] s g3 settled_accounts [OF wf(1) blk rest tree collision_free_mono [OF cf]]
    by (auto simp: at_rest_def block_strings_def settlement_strings_def)
  moreover have "set (hashed_strings ?g') \<subseteq> set (block_strings A P g blk)"
    using link_strings_paid [of "sha256 P" ?d ?ps]
    by (auto simp: g3(10) block_strings_def settlement_strings_def)
  moreover have "escape_deadline (on_chain ?g') = None" "settled_inbox_cursor (on_chain ?g') = target" using g3 by simp_all
  ultimately show ?thesis using block by (intro exI [of _ s] exI [of _ ?g']) simp
qed

end
