(* ===== verification/Contract_Service.thy ===== *)
theory Contract_Service
  imports Contract_Blocks Wire_Sizes Funding
begin

text \<open>
  Nobody's entry can be refused. For whatever entries wait in the inbox a ledger in step with the
  contract builds a block that consumes them, that block settles on chain, and an escape signalled
  over them is answered by it; so a sequencer that serves its inbox is never forced out.
\<close>

section \<open>The entries of an inbox always run\<close>

fun item_transaction :: "inbox_item \<Rightarrow> signed_transaction" where
  "item_transaction (InboxDeposit a amt) = SignedDeposit (deposit_new a amt)"
| "item_transaction (InboxForcedWithdrawal a r) = SignedForcedWithdrawal (forced_withdrawal_new a r)"

lemma item_transaction_wf [simp]: "wf_signed (item_transaction i)" "signature_within n (item_transaction i)"
  by (cases i; simp)+

text \<open>Room for them: value and nonces stay within their words.\<close>

definition room_for :: "inbox_item list \<Rightarrow> account_map \<Rightarrow> bool" where
  "room_for items m \<longleftrightarrow>
     finite (dom m) \<and> total m + deposited items < 2 ^ 64 \<and> (\<forall>a. nonce_of (m a) + length items < 2 ^ 64)"

lemma deposit_has_room:
  assumes "room_for (InboxDeposit a amt # items) m"
  shows "\<exists>m'. spec_credit a amt m = Inr m' \<and> room_for items m'"
proof -
  let ?acc = "case m a of None \<Rightarrow> account_empty a | Some acc \<Rightarrow> acc"
  have fin: "finite (dom m)" using assms by (simp add: room_for_def)
  have "unat (amount ?acc) = unat (balance_of (m a))"
    by (simp add: account_empty_def account_new_def split: option.splits)
  then have "unat (amount ?acc) + unat amt < 2 ^ 64"
    using balance_le_total [OF fin, of a] assms by (simp add: room_for_def)
  then obtain m' where m': "spec_credit a amt m = Inr m'"
    by (auto simp: spec_credit_Inr_iff receive_Inr_iff Let_def)
  have "nonce_of (m' b) + length items < 2 ^ 64" for b
    using assms spec_credit_slot(1) [OF m', of b] by (auto simp: room_for_def elim!: allE [of _ b])
  then have "room_for items m'"
    using spec_credit_total [OF m' fin] assms by (simp add: room_for_def)
  with m' show ?thesis by blast
qed

lemma request_has_room:
  assumes "room_for (InboxForcedWithdrawal a r # items) m"
  shows "\<exists>m'. spec_empty a m = Inr m' \<and> room_for items m'"
proof -
  have fin: "finite (dom m)" and nonces: "\<And>b. nonce_of (m b) + Suc (length items) < 2 ^ 64"
    using assms by (simp_all add: room_for_def)
  have "\<exists>m'. spec_empty a m = Inr m'"
    using nonces [of a] by (cases "m a") (auto simp: spec_empty_Inr_iff MIN_WITHDRAWAL_def)
  then obtain m' where m': "spec_empty a m = Inr m'" by blast
  have "nonce_of (m' b) \<le> nonce_of (m b) + 1" for b
    using m' nonces [of a] by (auto simp: spec_empty_Inr_iff unat_succ_u64 split: if_splits)
  then have "nonce_of (m' b) + length items \<le> nonce_of (m b) + Suc (length items)" for b
    by simp
  note le_less_trans [OF this nonces]
  then have "room_for items m'"
    using spec_empty_total [OF m' fin] assms by (simp add: room_for_def)
  with m' show ?thesis by blast
qed

lemma items_run:
  assumes "room_for items (spec_accounts st)"
  shows "\<exists>st'. spec_txns P domain (map item_transaction items) st = Inr st' \<and> spec_items st' = spec_items st @ items"
  using assms
proof (induction items arbitrary: st)
  case (Cons i items)
  have "\<exists>st1. spec_txn P domain (item_transaction i) st = Inr st1 \<and> spec_items st1 = spec_items st @ [i]
      \<and> room_for items (spec_accounts st1)"
  proof (cases i)
    case (InboxDeposit a amt)
    with deposit_has_room Cons.prems obtain m' where "spec_credit a amt (spec_accounts st) = Inr m'" "room_for items m'"
      by blast
    then show ?thesis by (simp add: InboxDeposit deposit_new_def)
  next
    case (InboxForcedWithdrawal a r)
    with request_has_room Cons.prems obtain m' where "spec_empty a (spec_accounts st) = Inr m'" "room_for items m'"
      by blast
    then show ?thesis by (simp add: InboxForcedWithdrawal forced_withdrawal_new_def Let_def)
  qed
  then show ?case using Cons.IH by fastforce
qed simp

text \<open>The payouts are those of the requests among them.\<close>

lemma items_payouts:
  assumes "spec_txns P domain (map item_transaction items) st = Inr st'"
  shows "\<exists>ps. spec_payouts st' = spec_payouts st @ ps
    \<and> (\<forall>(r, amt)\<in>set ps. MIN_WITHDRAWAL \<le> amt \<and> (\<exists>a. InboxForcedWithdrawal a r \<in> set items))"
  using assms
proof (induction items arbitrary: st)
  case (Cons i items)
  then obtain st1 where one: "spec_txn P domain (item_transaction i) st = Inr st1"
    and rest: "spec_txns P domain (map item_transaction items) st1 = Inr st'" by (auto simp: and_then_Inr_iff)
  have "\<exists>qs. spec_payouts st1 = spec_payouts st @ qs
      \<and> (\<forall>(r, amt)\<in>set qs. MIN_WITHDRAWAL \<le> amt \<and> (\<exists>a. i = InboxForcedWithdrawal a r))"
    using one by (cases i) (auto simp: and_then_Inr_iff deposit_new_def forced_withdrawal_new_def Let_def)
  with Cons.IH [OF rest] show ?case by fastforce
qed simp

section \<open>What an escape waits for has arrived\<close>

definition target_arrived :: "contract \<Rightarrow> bool" where
  "target_arrived c \<longleftrightarrow> (\<forall>due. escape_inbox_target c = Some due \<longrightarrow> due \<le> inbox_cursor c)"

lemma perform_inbox_grows:
  assumes ok: "perform A t m c = Inr c'"
  shows "inbox_cursor c \<le> inbox_cursor c'"
proof (cases m)
  case (MakeDeposit payment recipient)
  with ok obtain i where "contract_deposit A t payment recipient c = Inr (i, c')"
    by (auto simp: map_sum_def split: sum.splits)
  from contract_deposit_effect [OF this] show ?thesis by (auto simp: word_le_nat_alt appended_def)
next
  case (RequestWithdrawal payment n address recipient scheme key sig)
  with ok obtain i where "request_withdrawal A t payment n address recipient scheme key sig c = Inr (i, c')"
    by (auto simp: map_sum_def split: sum.splits)
  from request_withdrawal_effect [OF this] show ?thesis by (auto simp: word_le_nat_alt appended_def)
qed (use perform_effect [OF ok] in \<open>auto simp: effect_defs\<close>)

text \<open>A target only comes from a signal.\<close>

lemma perform_sets_target:
  assumes ok: "perform A t m c = Inr c'" and silent: "escape_inbox_target c = None"
  shows "escape_inbox_target c' = None \<or> escape_inbox_target c' = Some (inbox_cursor c')"
proof (cases m)
  case (VerifyBatch verifier signals vals)
  with ok have "contract_verify_batch A t verifier signals vals c = Inr c'" by simp
  then show ?thesis
    by (rule contract_verify_batch_steps) (use silent in \<open>auto simp: settled_state_def delete_batch_def\<close>)
qed (use perform_effect [OF ok] silent in \<open>auto simp: effect_defs\<close>)

lemma perform_target_arrived:
  assumes kept: "well_kept c" and arrived: "target_arrived c" and ok: "perform A t m c = Inr c'"
  shows "target_arrived c'"
proof (cases "escape_inbox_target c")
  case None
  with perform_sets_target [OF ok] show ?thesis by (auto simp: target_arrived_def)
next
  case (Some due)
  then obtain s where "accused c s due"
    using well_keptD(2) [OF kept] by (auto simp: signal_kept_def accused_def)
  from perform_clock [OF ok kept this] have "escape_inbox_target c' = None \<or> escape_inbox_target c' = Some due"
    using well_keptD(2) [OF perform_kept [OF kept ok]] by (auto simp: signal_kept_def clock_moves_def accused_def)
  moreover have "due \<le> inbox_cursor c'"
    using arrived Some perform_inbox_grows [OF ok] by (auto simp: target_arrived_def)
  ultimately show ?thesis by (auto simp: target_arrived_def)
qed

interpretation target: contract_invariant A target_arrived for A
proof
  show "target_arrived (create_application v p r timeout grace council delay balance min_balance)"
    for v p r timeout grace council delay balance min_balance
    by (simp add: target_arrived_def create_application_def)
  show "target_arrived (c\<lparr>app_balance := app_balance c + n\<rparr>)" if "target_arrived c" for c n
    using that by (simp add: target_arrived_def)
qed (rule perform_target_arrived)

section \<open>What waits can be settled\<close>

text \<open>The contract is solvent, so what it holds bounds every balance the entries can lead to.\<close>

lemma next_items_covered:
  assumes books: "books A P g" and told: "inbox_told P g" and kept: "well_kept (on_chain g)" and rest: "at_rest A P g l"
    and bounds: "unat (settled_inbox_cursor (on_chain g)) \<le> unat target" "unat target \<le> unat (inbox_cursor (on_chain g))"
  shows "total (ledger_accounts l) + deposited (next_items g target) \<le> app_balance (on_chain g)"
proof -
  let ?c = "on_chain g"
  have live: "\<not> escaped ?c" and accs: "tree_accounts (settled_tree g) = ledger_accounts l"
    using rest by (simp_all add: at_rest_def)
  have "exits ?c = Map.empty" by (rule inbox_keptD(3) [OF well_keptD(4) [OF kept] live])
  then have "unexited g = ledger_accounts l" by (simp add: unexited_def accs)
  moreover have "unsettled_deposits ?c = deposited (next_items g target) + unsettled_deposits (?c\<lparr>settled_inbox_cursor := target\<rparr>)"
    using unsettled_deposits_settle [OF told well_keptD(4) [OF kept] live, of "?c\<lparr>settled_inbox_cursor := target\<rparr>"] bounds
    by simp
  ultimately show ?thesis using books by (simp add: books_def solvent_def owed_def)
qed

text \<open>The block of the entries up to \<open>target\<close>.\<close>

abbreviation inbox_block :: "primitives \<Rightarrow> chronicle \<Rightarrow> u64 \<Rightarrow> ledger \<Rightarrow> panic + block \<times> ledger" where
  "inbox_block P g target l \<equiv> get_block P (map item_transaction (next_items g target)) l"

lemma inbox_block_builds:
  assumes hist: "history A P g" and same: "same_hash A P" and cf: "collision_free (sha256 P) (hashed_strings g)"
    and wf: "wf_ledger P l" and rest: "at_rest A P g l"
    and bounds: "unat (settled_inbox_cursor (on_chain g)) \<le> unat target" "unat target \<le> unat (inbox_cursor (on_chain g))"
    and balance: "app_balance (on_chain g) < 2 ^ 64"
    and nonces: "\<forall>a. nonce_of (ledger_accounts l a) + length (next_items g target) < 2 ^ 64"
    and few: "length (next_items g target) < 2 ^ 40"
  obtains blk l' where "inbox_block P g target l = Inr (blk, l')"
    and "length (batch_encode (block_batch blk)) < 2 ^ 64" and "length (sidecar_encode (block_sidecar blk)) < 2 ^ 64"
    and "batch_inbox_items (block_batch blk) = next_items g target"
    and "\<forall>(r, amt)\<in>set (withdrawal_payouts (block_batch blk) (block_sidecar blk)).
      MIN_WITHDRAWAL \<le> amt \<and> (\<exists>a. InboxForcedWithdrawal a r \<in> set (next_items g target))"
proof -
  let ?items = "next_items g target"
  have accs: "tree_accounts (settled_tree g) = ledger_accounts l" using rest by (simp add: at_rest_def)
  have "total (ledger_accounts l) + deposited ?items < 2 ^ 64"
    using next_items_covered [OF history_books [OF hist same cf] history_inbox_told [OF hist same] history_kept [OF hist] rest bounds]
      balance by linarith
  then have "room_for ?items (spec_accounts (ledger_rollup l))"
    using nonces finite_tree_accounts [of "settled_tree g"] by (simp add: room_for_def ledger_rollup_def accs)
  from items_run [OF this, of P "ledger_domain l"] obtain st where
    st: "spec_txns P (ledger_domain l) (map item_transaction ?items) (ledger_rollup l) = Inr st" "spec_items st = ?items"
    by (auto simp: ledger_rollup_def)
  from get_block_Inr [OF wf st(1)] obtain blk l' where blk: "inbox_block P g target l = Inr (blk, l')"
    and built: "built_block P l blk" "batch_signed (block_batch blk) (block_sidecar blk) = map item_transaction ?items"
    and outs: "spec_items st = batch_inbox_items (block_batch blk)"
      "spec_payouts st = withdrawal_payouts (block_batch blk) (block_sidecar blk)" by blast
  have "list_all (signature_within 0) (map item_transaction ?items)" by (simp add: list_all_iff)
  note size = built_block_sizes [OF wf built this]
  have "length (batch_encode (block_batch blk)) < 2 ^ 64" "length (sidecar_encode (block_sidecar blk)) < 2 ^ 64"
    using size few by simp_all
  moreover have "\<forall>(r, amt)\<in>set (withdrawal_payouts (block_batch blk) (block_sidecar blk)).
      MIN_WITHDRAWAL \<le> amt \<and> (\<exists>a. InboxForcedWithdrawal a r \<in> set ?items)"
    using items_payouts [OF st(1)] outs(2) by (auto simp: ledger_rollup_def)
  ultimately show ?thesis using that [OF blk] outs(1) st(2) by simp
qed

lemma inbox_block_settles:
  assumes hist: "history A P g" and same: "same_hash A P" and cf: "collision_free (sha256 P) (hashed_strings g)"
    and wf: "wf_ledger P l" and rest: "at_rest A P g l"
    and bounds: "unat (settled_inbox_cursor (on_chain g)) \<le> unat target" "unat target \<le> unat (inbox_cursor (on_chain g))"
    and balance: "app_balance (on_chain g) < 2 ^ 64"
    and nonces: "\<forall>a. nonce_of (ledger_accounts l a) + length (next_items g target) < 2 ^ 64"
    and few: "length (next_items g target) < 2 ^ 40"
    and t: "call_sender t = avm_creator A" and verifier: "pay_sender verifier = verifier_address (on_chain g)"
    and time: "in_time t target (on_chain g)"
    and delivers: "\<And>a r amt. InboxForcedWithdrawal a r \<in> set (next_items g target) \<Longrightarrow> MIN_WITHDRAWAL \<le> amt \<Longrightarrow>
      avm_delivers A r amt"
  shows "\<exists>blk l'. inbox_block P g target l = Inr (blk, l')
    \<and> (collision_free (sha256 P) (block_strings A P g blk) \<longrightarrow>
       (\<exists>s g'. for_block P blk = Inr s
         \<and> run_calls A (settlement_calls P t verifier
             (proof_signals A (on_chain g) (settlement_public_values s) word) target s) (on_chain g) = Inr (on_chain g')
         \<and> history A P g' \<and> at_rest A P g' l' \<and> escape_deadline (on_chain g') = None
         \<and> settled_inbox_cursor (on_chain g') = target \<and> dues g' = []))"
proof -
  obtain blk l' where blk: "inbox_block P g target l = Inr (blk, l')"
    and size: "length (batch_encode (block_batch blk)) < 2 ^ 64" "length (sidecar_encode (block_sidecar blk)) < 2 ^ 64"
    and items: "batch_inbox_items (block_batch blk) = next_items g target"
    and payouts: "\<forall>(r, amt)\<in>set (withdrawal_payouts (block_batch blk) (block_sidecar blk)).
      MIN_WITHDRAWAL \<le> amt \<and> (\<exists>a. InboxForcedWithdrawal a r \<in> set (next_items g target))"
    by (rule inbox_block_builds [OF hist same cf wf rest bounds balance nonces few])
  have "list_all wf_signed (map item_transaction (next_items g target))" by (simp add: list_all_iff)
  moreover have "\<forall>(r, a)\<in>set (withdrawal_payouts (block_batch blk) (block_sidecar blk)). avm_delivers A r a"
    using payouts delivers by blast
  ultimately show ?thesis
    using settles_on_chain [OF hist same wf _ blk size rest bounds items t verifier time] blk by blast
qed

text \<open>All of it at once answers any escape signalled over it.\<close>

lemma whole_inbox_in_time:
  assumes "history A P g" and "case escape_deadline (on_chain g) of None \<Rightarrow> True | Some deadline \<Rightarrow> call_round t \<le> deadline"
  shows "in_time t (inbox_cursor (on_chain g)) (on_chain g)"
  using target.history [OF assms(1)] assms(2)
  by (auto simp: in_time_def target_arrived_def split: option.splits)

end
