(* ===== verification/Contract_Exits.thy ===== *)
theory Contract_Exits
  imports Contract_Runs
begin

text \<open>
  The way out. In every history, once the rollup has escaped, whoever holds an account bound to an
  Ed25519 key can take its balance out with the proof the tree gives, and whoever paid for a deposit
  no batch consumed can have it back: the money is there, and so is the box.
\<close>

section \<open>Boxes are paid for\<close>

text \<open>The account is held to at least the cost of its boxes, and a deposit with its box fits a payment.\<close>

definition boxes_backed :: "avm \<Rightarrow> contract \<Rightarrow> bool" where
  "boxes_backed A c \<longleftrightarrow>
     finite (dom (inbox_boxes c))
     \<and> card (dom (inbox_boxes c)) * unat (avm_inbox_box_cost A) \<le> app_min_balance c
     \<and> (\<forall>i entry. inbox_boxes c i = Some entry \<longrightarrow> unat (record_amount entry) + unat (avm_inbox_box_cost A) < 2 ^ 64)"

fun moves_boxes :: "contract_call \<Rightarrow> bool" where
  "moves_boxes (MakeDeposit payment recipient) = True"
| "moves_boxes (RequestWithdrawal payment n address recipient scheme key sig) = True"
| "moves_boxes (PruneRequest i) = True"
| "moves_boxes (PruneDeposit i) = True"
| "moves_boxes (ReclaimDeposit i) = True"
| "moves_boxes _ = False"

lemma perform_same_boxes:
  assumes ok: "perform A t m c = Inr c'" and still: "\<not> moves_boxes m"
  shows "inbox_boxes c' = inbox_boxes c \<and> app_min_balance c \<le> app_min_balance c'"
  using perform_effect [OF ok] still
  by (cases m) (auto simp: effect_defs)

lemma boxes_backed_append:
  assumes backed: "boxes_backed A c" and kept: "inbox_kept c"
    and amt: "unat (record_amount entry) + inbox_charge A c < 2 ^ 64"
    and c': "inbox_boxes c' = (inbox_boxes c)(inbox_cursor c \<mapsto> entry)" "app_min_balance c' = app_min_balance c + inbox_charge A c"
  shows "boxes_backed A c'"
proof -
  have free: "inbox_boxes c (inbox_cursor c) = None" using inbox_keptD(2) [OF kept] by (cases "inbox_boxes c (inbox_cursor c)") auto
  then have "inbox_cursor c \<notin> dom (inbox_boxes c)" by auto
  with free backed amt show ?thesis by (auto simp: boxes_backed_def c' inbox_charge_def)
qed

lemma boxes_backed_remove:
  assumes backed: "boxes_backed A c" and box: "inbox_boxes c i = Some entry"
  shows "boxes_backed A (box_removed i (box_release A c) left p c)"
proof -
  let ?n = "card (dom (inbox_boxes c))" and ?cost = "unat (avm_inbox_box_cost A)"
  have fin: "finite (dom (inbox_boxes c))" and min: "?n * ?cost \<le> app_min_balance c"
    using backed by (simp_all add: boxes_backed_def)
  have "card (dom (inbox_boxes c) - {i}) = ?n - 1" using box fin by (simp add: domI)
  moreover have "(?n - 1) * ?cost \<le> app_min_balance c - box_release A c"
    unfolding box_release_rest using min by (simp add: diff_mult_distrib)
  ultimately show ?thesis using backed by (auto simp: boxes_backed_def box_removed_def)
qed

lemma perform_boxes_backed:
  assumes backed: "boxes_backed A c" and kept: "inbox_kept c" and ok: "perform A t m c = Inr c'"
  shows "boxes_backed A c'"
proof (cases "moves_boxes m")
  case False
  from perform_same_boxes [OF ok False] backed show ?thesis by (auto simp: boxes_backed_def)
next
  case True
  have removed: "boxes_backed A c'" if "prune_request A i c = Inr c' \<or> prune_deposit A i c = Inr c'" for i
    using prune_effect [OF that] boxes_backed_remove [OF backed] by blast
  show ?thesis
    using True
  proof (cases m)
    case (MakeDeposit payment recipient)
    with ok obtain i where "contract_deposit A t payment recipient c = Inr (i, c')"
      by (auto simp: map_sum_def split: sum.splits)
    from contract_deposit_effect [OF this] obtain amt next_index where
      amt: "unat amt + inbox_charge A c = unat (pay_amount payment)"
      and c': "c' = appended next_index (unat (pay_amount payment)) (inbox_charge A c)
          \<lparr>record_kind = ascii ''d'', record_address = recipient, record_recipient = zero32, record_amount = amt,
           record_payer = pay_sender payment, record_round = call_round t,
           record_chain_after = avm_sha256 A (inbox_step (live_inbox_chain c) (InboxDeposit recipient amt))\<rparr> c"
      by blast
    show ?thesis
      by (rule boxes_backed_append [OF backed kept])
         (use amt unat_u64_bound [of "pay_amount payment"] in \<open>auto simp: c' appended_def\<close>)
  next
    case (RequestWithdrawal payment n address recipient scheme key sig)
    with ok obtain i where "request_withdrawal A t payment n address recipient scheme key sig c = Inr (i, c')"
      by (auto simp: map_sum_def split: sum.splits)
    from request_withdrawal_effect [OF this] obtain next_index next_nonce where
      charge: "inbox_charge A c = unat (pay_amount payment)"
      and c': "c' = (appended next_index (unat (pay_amount payment)) (inbox_charge A c)
          \<lparr>record_kind = ascii ''w'', record_address = address, record_recipient = recipient, record_amount = 0,
           record_payer = pay_sender payment, record_round = call_round t,
           record_chain_after = avm_sha256 A (inbox_step (live_inbox_chain c) (InboxForcedWithdrawal address recipient))\<rparr> c)
          \<lparr>request_cursor := next_nonce\<rparr>"
      by blast
    show ?thesis
      by (rule boxes_backed_append [OF backed kept])
         (use charge unat_u64_bound [of "pay_amount payment"] in \<open>auto simp: c' appended_def\<close>)
  next
    case (ReclaimDeposit i)
    with ok have "reclaim_deposit A i c = Inr c'" by simp
    from reclaim_deposit_effect [OF this] boxes_backed_remove [OF backed] show ?thesis by blast
  qed (use ok in \<open>auto intro: removed\<close>)
qed

interpretation boxes: contract_invariant A "boxes_backed A" for A
proof
  show "boxes_backed A (create_application v p r timeout grace council delay balance min_balance)"
    for v p r timeout grace council delay balance min_balance
    by (simp add: boxes_backed_def create_application_def)
  show "boxes_backed A (c\<lparr>app_balance := app_balance c + n\<rparr>)" if "boxes_backed A c" for c n
    using that by (simp add: boxes_backed_def)
  show "boxes_backed A c'" if "well_kept c" "boxes_backed A c" "perform A t m c = Inr c'" for c c' t m
    by (rule perform_boxes_backed [OF that(2) well_keptD(4) [OF that(1)] that(3)])
qed

section \<open>Accounts\<close>

lemma exits_stay_open:
  assumes hist: "history A P g" and same: "same_hash A P" and cf: "collision_free (sha256 P) (hashed_strings g)"
    and escaped: "escaped (on_chain g)" and fresh: "exits (on_chain g) a = None"
    and held: "tree_accounts (settled_tree g) a = Some acc"
    and key: "address_from_public_key (sha256 P) Ed25519 key = auth_address acc"
    and signed: "avm_ed25519verify_bare A (ascii ''EXIT'' @ bytes_of (contract_domain A) @ bytes_of a @ bytes_of recipient) sig key"
    and worth: "unat (avm_exit_box_cost A) < unat (amount acc)"
    and delivers: "avm_delivers A recipient (amount acc - avm_exit_box_cost A)"
  shows "\<exists>c'. force_exit A a (nonce acc) (amount acc) (auth_address acc) SCHEME_ED25519 key sig recipient
      (concat (map bytes_of (siblings (tree_proof (sha256 P) (settled_tree g) a)))) (on_chain g) = Inr c'
    \<and> exits c' = (exits (on_chain g))(a \<mapsto> amount acc)
    \<and> app_payments c' = app_payments (on_chain g) @ [(recipient, amount acc - avm_exit_box_cost A)]"
proof -
  note books = history_books [OF hist same cf]
  then have tree: "wf_tree (sha256 P) (settled_tree g)" "contract_root (on_chain g) = root (sha256 P) (settled_tree g)"
    by (simp_all add: books_def dues_told_def)
  have acc: "account_new (nonce acc) (amount acc) (auth_address acc) = acc" by (cases acc) (simp add: account_new_def)
  have "unat (amount acc) \<le> total (unexited g)"
    using total_without [OF finite_tree_accounts held, of "{a. exits (on_chain g) a = None}"] fresh by (simp add: unexited_def)
  then have funds: "app_min_balance (on_chain g) + unat (amount acc) \<le> app_balance (on_chain g)"
    using books by (simp add: books_def solvent_def owed_def)
  have "verify_proof (sha256 P) (contract_root (on_chain g)) a (Some (account_new (nonce acc) (amount acc) (auth_address acc)))
      (from_parts (siblings (tree_proof (sha256 P) (settled_tree g) a)) Own)"
    using root_from_tree_proof [OF tree(1), of a] held
    by (simp add: acc tree(2) tree_proof_own [OF tree(1) held] verify_proof_def del: tree_proof_parts)
  from force_exit_accepts [OF same escaped fresh this key signed worth delivers funds] show ?thesis .
qed

section \<open>Deposits\<close>

lemma deposits_stay_reclaimable:
  assumes hist: "history A P g" and same: "same_hash A P" and cf: "collision_free (sha256 P) (hashed_strings g)"
    and "escaped (on_chain g)" and waiting: "unat (settled_inbox_cursor (on_chain g)) \<le> unat i"
    and box: "inbox_boxes (on_chain g) i = Some entry" and kind: "record_kind entry = ascii ''d''"
    and delivers: "avm_delivers A (record_payer entry) (record_amount entry + avm_inbox_box_cost A)"
  shows "\<exists>c'. reclaim_deposit A i (on_chain g) = Inr c' \<and> inbox_boxes c' = (inbox_boxes (on_chain g))(i := None)
    \<and> app_payments c' = app_payments (on_chain g) @ [(record_payer entry, record_amount entry + avm_inbox_box_cost A)]"
proof -
  let ?c = "on_chain g"
  have below: "unat i < unat (inbox_cursor ?c)" by (rule inbox_keptD(2) [OF well_keptD(4) [OF history_kept [OF hist]] box])
  note backed = boxes.history [OF hist, unfolded boxes_backed_def]
  then have "dom (inbox_boxes ?c) \<noteq> {}" "finite (dom (inbox_boxes ?c))" using box by auto
  then have "1 \<le> card (dom (inbox_boxes ?c))" by (simp add: Suc_le_eq card_gt_0_iff)
  then have "1 * unat (avm_inbox_box_cost A) \<le> card (dom (inbox_boxes ?c)) * unat (avm_inbox_box_cost A)" by (rule mult_le_mono1)
  with backed have cost: "unat (avm_inbox_box_cost A) \<le> app_min_balance ?c" by linarith
  have fits: "unat (record_amount entry) + unat (avm_inbox_box_cost A) < 2 ^ 64" using backed box by blast
  have "unat (record_amount entry) = owed_box ?c (unat i)" by (simp add: owed_box_def box)
  also have "\<dots> \<le> unsettled_deposits ?c"
    unfolding unsettled_deposits_def by (rule member_le_sum) (use waiting below in auto)
  finally have "app_min_balance ?c + unat (record_amount entry) \<le> app_balance ?c"
    using history_books [OF hist same cf] by (simp add: books_def solvent_def owed_def)
  from reclaim_deposit_accepts [OF assms(4) waiting below box kind cost fits delivers this] show ?thesis .
qed

section \<open>Payouts\<close>

text \<open>The payouts due are never more than the account holds, so anyone can make them all, escape or not.\<close>

lemma dues_payable:
  assumes hist: "history A P g" and same: "same_hash A P" and cf: "collision_free (sha256 P) (hashed_strings g)"
    and caller: "call_sender t = avm_creator A \<longrightarrow> escape_deadline (on_chain g) = None"
    and delivers: "\<forall>(r, a)\<in>set (dues g). avm_delivers A r a"
  shows "\<exists>c'. run_calls A (map (pay_call t) (withdrawal_links (sha256 P) (contract_domain A) (dues g))) (on_chain g) = Inr c'
    \<and> pending_withdrawals c' = None \<and> app_payments c' = app_payments (on_chain g) @ dues g"
proof -
  have books: "books A P g" by (rule history_books [OF hist same cf])
  then have funds: "app_min_balance (on_chain g) + paid_out (dues g) \<le> app_balance (on_chain g)"
    by (simp add: books_def solvent_def owed_def)
  have told: "dues_told A P g" using books by (simp add: books_def)
  show ?thesis
  proof (cases "dues g = []")
    case True
    with dues_toldD(3) [OF told] show ?thesis by simp
  next
    case False
    have "collision_free (sha256 P) (payout_preimages (sha256 P) (contract_domain A) (dues g))"
      by (rule collision_free_mono [OF cf dues_toldD(4) [OF told False]])
    from pay_links_drain [OF same caller dues_toldD(3) [OF told] delivers funds this] show ?thesis by auto
  qed
qed

end
