(* ===== verification/Contract_Custody.thy ===== *)
theory Contract_Custody
  imports Contract_Blocks Contract_Exits Scenario_Builds
begin

text \<open>
  From the host's proof to the money. The exit proof the host writes out of a ledger proves against the
  contract's root from the settlement that brought the two in step until the next one, whatever anyone
  calls in between; so when the rollup escapes, that proof and a signature take the balance out.
\<close>

section \<open>Calls between two settlements\<close>

fun chronicle_after ::
  "avm \<Rightarrow> primitives \<Rightarrow> (call \<times> contract_call) list \<Rightarrow> chronicle \<Rightarrow> contract_error + chronicle" where
  "chronicle_after A P [] g = Inr g"
| "chronicle_after A P ((t, m) # ms) g =
     and_then (perform A t m (on_chain g)) (\<lambda>c. chronicle_after A P ms (record_call (sha256 P) m c g))"

abbreviation no_settlement :: "(call \<times> contract_call) list \<Rightarrow> bool" where
  "no_settlement ms \<equiv> list_all (\<lambda>(t, m). \<not> settles m) ms"

lemma settled_tree_record_call [simp]: "\<not> settles m \<Longrightarrow> settled_tree (record_call H m c g) = settled_tree g"
  by (cases m) simp_all

lemma chronicle_after_history:
  assumes "history A P g" and "no_settlement ms" and "chronicle_after A P ms g = Inr g'"
  shows "history A P g' \<and> settled_tree g' = settled_tree g \<and> run_calls A ms (on_chain g) = Inr (on_chain g')"
  using assms
proof (induction A P ms g rule: chronicle_after.induct)
  case (2 A P t m ms g)
  then obtain c where c: "perform A t m (on_chain g) = Inr c"
    and rest: "chronicle_after A P ms (record_call (sha256 P) m c g) = Inr g'" and still: "\<not> settles m" "no_settlement ms"
    by (auto simp: and_then_Inr_iff)
  from "2.IH" [OF c history.called [OF "2.prems"(1) still(1) c] still(2) rest] c still(1) show ?case by simp
qed simp

section \<open>The host's exit proof\<close>

lemma exit_proof_of_cases:
  assumes wf: "wf_ledger P l" and e: "exit_proof_of P l key = Inr e"
  shows "exit_address e = exit_address_of P key" and "ledger_accounts l (exit_address e) = Some (exit_account e)"
    and "exit_siblings e = siblings (tree_proof (sha256 P) (ledger_tree l) (exit_address e))"
proof -
  let ?a = "exit_address_of P key"
  from e obtain acc where acc: "ledger_accounts l ?a = Some acc"
    and e': "e = \<lparr>exit_address = ?a, exit_pub_key = key, exit_nonce = nonce acc, exit_amount = amount acc,
      exit_auth_address = auth_address acc, exit_siblings = siblings (tree_proof (sha256 P) (ledger_tree l) ?a)\<rparr>"
    by (cases "ledger_accounts l ?a")
       (auto simp: exit_proof_of_def ledger_account_def ledger_proof_def unwrap_option_def Let_def split: if_splits
          simp del: tree_proof_parts)
  show "exit_address e = ?a" and "exit_siblings e = siblings (tree_proof (sha256 P) (ledger_tree l) (exit_address e))"
    by (simp_all add: e' del: tree_proof_parts)
  show "ledger_accounts l (exit_address e) = Some (exit_account e)"
    using acc by (cases acc) (simp add: e' exit_account_def account_new_def del: tree_proof_parts)
qed

lemma host_proof_pays:
  assumes hist: "history A P g" and same: "same_hash A P" and wf: "wf_ledger P l" and rest: "at_rest A P g l"
    and run: "no_settlement ms" "chronicle_after A P ms g = Inr g'"
    and cf: "collision_free (sha256 P) (hashed_strings g')" and escaped: "escaped (on_chain g')"
    and e: "exit_proof_of P l key = Inr e" "exit_auth_address e = exit_address e"
    and fresh: "exits (on_chain g') (exit_address e) = None"
    and signed: "avm_ed25519verify_bare A (ascii ''EXIT'' @ bytes_of (contract_domain A) @ bytes_of (exit_address e)
        @ bytes_of recipient) sig key"
    and worth: "unat (avm_exit_box_cost A) < unat (exit_amount e)"
    and delivers: "avm_delivers A recipient (exit_amount e - avm_exit_box_cost A)"
  shows "\<exists>c'. force_exit A (exit_address e) (exit_nonce e) (exit_amount e) (exit_auth_address e) SCHEME_ED25519 key sig recipient
      (concat (map bytes_of (exit_siblings e))) (on_chain g') = Inr c'
    \<and> exits c' = (exits (on_chain g'))(exit_address e \<mapsto> exit_amount e)
    \<and> app_payments c' = app_payments (on_chain g') @ [(recipient, exit_amount e - avm_exit_box_cost A)]"
proof -
  from chronicle_after_history [OF hist run] have hist': "history A P g'"
    and tree': "settled_tree g' = settled_tree g" by simp_all
  have "wf_tree (sha256 P) (settled_tree g')"
    using history_books [OF hist' same cf] by (simp add: books_def dues_told_def)
  moreover have "wf_tree (sha256 P) (ledger_tree l)" "tree_accounts (ledger_tree l) = tree_accounts (settled_tree g')"
    using wf rest by (simp_all add: wf_ledger_def at_rest_def tree')
  ultimately have tree: "settled_tree g' = ledger_tree l" by (metis wf_tree_canonical)
  note x = exit_proof_of_cases [OF wf e(1)]
  have fields: "nonce (exit_account e) = exit_nonce e" "amount (exit_account e) = exit_amount e"
    "auth_address (exit_account e) = exit_auth_address e"
    by (simp_all add: exit_account_def account_new_def)
  have held: "tree_accounts (settled_tree g') (exit_address e) = Some (exit_account e)"
    using wf x(2) by (simp add: tree wf_ledger_def)
  have "address_from_public_key (sha256 P) Ed25519 key = auth_address (exit_account e)"
    using x(1) e(2) by (simp add: fields exit_address_of_def)
  from exits_stay_open [OF hist' same cf escaped fresh held this signed, unfolded fields tree, folded x(3), OF worth delivers]
  show ?thesis .
qed

end
