(* ===== verification/Merkle_Depth.thy ===== *)
theory Merkle_Depth
  imports Merkle_Proofs
begin

text \<open>
  How long a proof is. The proof a tree hands out for an account it holds has as many siblings as
  decide where another held address turns off last; and short of a collision it is the only inclusion
  proof there is, so nobody can prove the account with fewer.
\<close>

section \<open>The depth of a leaf\<close>

text \<open>Whether another address among the given accounts shares the first \<open>d\<close> bits.\<close>

definition crowded :: "(address \<rightharpoonup> account) \<Rightarrow> address \<Rightarrow> nat \<Rightarrow> bool" where
  "crowded m a d \<longleftrightarrow> (\<exists>b. b \<noteq> a \<and> m b \<noteq> None \<and> d \<le> common_prefix_len a b)"

lemma crowdedI: "b \<noteq> a \<Longrightarrow> m b = Some x \<Longrightarrow> d \<le> common_prefix_len a b \<Longrightarrow> crowded m a d"
  by (auto simp: crowded_def)

lemma crowded_iff: "crowded m a d \<longleftrightarrow> \<not> (\<forall>b. b \<noteq> a \<longrightarrow> m b \<noteq> None \<longrightarrow> common_prefix_len a b < d)"
  unfolding crowded_def by (meson not_less)

lemma not_crowded_iff: "\<not> crowded m a d \<longleftrightarrow> (\<forall>b. b \<noteq> a \<longrightarrow> m b \<noteq> None \<longrightarrow> common_prefix_len a b < d)"
  by (simp only: crowded_iff not_not)

text \<open>A subtree of two leaves holds another address than the given one.\<close>

lemma two_leaves_another:
  assumes "shaped p t" and "2 \<le> length (leaves t)"
  shows "\<exists>b. b \<noteq> a \<and> accounts t b \<noteq> None"
proof (rule ccontr)
  assume "\<not> ?thesis"
  then have "fst ` set (leaves t) \<subseteq> {a}" by (auto simp: accounts_def map_of_eq_None_iff)
  then have "card (set (map fst (leaves t))) \<le> card {a}" by (intro card_mono) auto
  with distinct_card [OF distinct_leaves [OF assms(1)]] assms(2) show False by simp
qed

text \<open>Where a branch forks, the other side shares exactly the bits that led to it.\<close>

lemma crowded_fork:
  assumes side: "shaped (p @ [i]) s" and other: "shaped (p @ [j]) u" and "i \<noteq> j"
    and two: "2 \<le> length (leaves s) + length (leaves u)"
    and a: "under p a" "bit_at a (length p) = i"
    and m: "\<And>b. m b \<noteq> None \<longleftrightarrow> accounts s b \<noteq> None \<or> accounts u b \<noteq> None"
  shows "crowded m a n \<longleftrightarrow> n \<le> length p \<or> crowded (accounts s) a n"
proof -
  have near: "b \<noteq> a \<and> common_prefix_len a b = length p" if "accounts u b = Some x" for b x
  proof -
    from accounts_under [OF other that] have b: "under p b" "bit_at b (length p) = j" by simp_all
    then have "a \<noteq> b" using a(2) \<open>i \<noteq> j\<close> by auto
    with two_under_length(1) [OF this a(1) b(1)] bit_at_below_common_prefix_len [OF this, of "length p"] b(2) a(2) \<open>i \<noteq> j\<close>
    show ?thesis by (auto simp: le_less)
  qed
  have "crowded m a n" if "n \<le> length p"
  proof (cases "leaves u")
    case Nil
    then obtain b x where b: "b \<noteq> a" "accounts s b = Some x"
      using two_leaves_another [OF side, of a] two by auto
    have "under p b" using accounts_under [OF side b(2)] by simp
    from two_under_length(1) [OF b(1) this a(1)] that have "n \<le> common_prefix_len a b"
      by (simp add: common_prefix_len_sym [of a])
    with b m [of b] show ?thesis by (auto intro: crowdedI)
  next
    case (Cons y ys)
    then obtain x where "accounts u (fst y) = Some x" by (cases "accounts u (fst y)") (auto simp: accounts_def)
    with near [OF this] that m [of "fst y"] show ?thesis by (auto intro: crowdedI)
  qed
  moreover have "crowded m a n \<longleftrightarrow> crowded (accounts s) a n" if "\<not> n \<le> length p"
    using that m near unfolding crowded_def by (metis option.exhaust)
  moreover have "crowded (accounts s) a n \<Longrightarrow> crowded m a n" using m by (auto simp: crowded_def)
  ultimately show ?thesis by blast
qed

lemma crowded_Branch:
  assumes sh: "shaped p (Branch h l r)" and held: "accounts (Branch h l r) a = Some x"
  shows "crowded (accounts (Branch h l r)) a n
    \<longleftrightarrow> n \<le> length p \<or> crowded (accounts (if bit_at a (length p) = 0 then l else r)) a n"
proof -
  have parts: "accounts (Branch h l r) b \<noteq> None \<longleftrightarrow> accounts l b \<noteq> None \<or> accounts r b \<noteq> None" for b
    by (auto simp: accounts_Branch map_add_def split: option.splits)
  have under: "under p a" by (rule accounts_under [OF sh held])
  show ?thesis
  proof (cases "bit_at a (length p) = 0")
    case True
    with crowded_fork [of p 0 l 1 r a "accounts (Branch h l r)" n] sh under parts show ?thesis by simp
  next
    case False
    with crowded_fork [of p 1 r 0 l a "accounts (Branch h l r)" n] sh under parts show ?thesis by auto
  qed
qed

lemma proof_path_length_le:
  assumes "shaped p t" and "accounts t a = Some x"
  shows "length p + length (proof_path H t (length p) a) \<le> n \<longleftrightarrow> length p \<le> n \<and> \<not> crowded (accounts t) a n"
  using assms
proof (induction t arbitrary: p)
  case (Branch h l r)
  note fork = crowded_Branch [OF Branch.prems, of n]
  show ?case
    using Branch.prems(1) Branch.IH(1) [of "p @ [0]"] Branch.IH(2) [of "p @ [1]"] fork
      accounts_Branch_bit [OF Branch.prems(1), of a] Branch.prems(2)
    by (auto simp: not_le Suc_le_eq split: if_splits)
qed (auto simp: crowded_def split: if_splits)

lemma tree_proof_length_le:
  assumes "wf_tree H t" and "tree_accounts t a = Some x"
  shows "length (siblings (tree_proof H t a)) \<le> n \<longleftrightarrow> \<not> crowded (tree_accounts t) a n"
  using proof_path_length_le [of "[]" "tree_root t" a x H n] assms
  by (simp add: wf_tree_def wf_node_def tree_accounts_def)

section \<open>One inclusion proof\<close>

lemma leaf_alone:
  assumes "hashed H t" and "hash_of H t = leaf_hash H a x"
    and "collision_free H (leaf_preimage a x # tree_preimages H t)"
  shows "t = Leaf a x"
  using assms by (intro hash_of_inject [of H]) (auto elim: collision_free_mono)

lemma climb_is_path:
  assumes "wf_node H p t" and "climb H a (length p) ss (leaf_hash H a x) = hash_of H t"
    and "collision_free H (leaf_preimage a x # tree_preimages H t @ climb_preimages H a (length p) ss (leaf_hash H a x))"
  shows "ss = proof_path H t (length p) a"
  using assms
proof (induction ss arbitrary: p t)
  case Nil
  then have "t = Leaf a x" by (intro leaf_alone [of H]) (simp_all add: wf_node_def)
  then show ?case by simp
next
  case (Cons s ss)
  have "collision_free H (tree_preimages H t @ climb_preimages H a (length p) (s # ss) (leaf_hash H a x))"
    by (rule collision_free_mono [OF Cons.prems(3)]) auto
  from climb_to_branch [OF Cons.prems(1,2) this] obtain h l r where t: "t = Branch h l r"
    and wf: "wf_node H (p @ [0]) l" "wf_node H (p @ [1]) r"
    and sides: "if bit_at a (length p) = 0
         then climb H a (Suc (length p)) ss (leaf_hash H a x) = hash_of H l \<and> s = hash_of H r
         else climb H a (Suc (length p)) ss (leaf_hash H a x) = hash_of H r \<and> s = hash_of H l" .
  have cf: "collision_free H (leaf_preimage a x # tree_preimages H (if bit_at a (length p) = 0 then l else r)
      @ climb_preimages H a (Suc (length p)) ss (leaf_hash H a x))"
    by (rule collision_free_mono [OF Cons.prems(3)]) (auto simp: t)
  show ?case
    using Cons.IH [of "p @ [0]" l] Cons.IH [of "p @ [1]" r] wf sides cf by (auto simp: t split: if_splits)
qed

lemma inclusion_proof_unique:
  assumes "wf_tree H t" and "root_from_proof H a (Some x) (from_parts ss Own) = Some (root H t)"
    and "collision_free H (tree_preimages H (tree_root t) @ proof_preimages H a (Some x) (from_parts ss Own))"
  shows "ss = siblings (tree_proof H t a)"
proof -
  have "ss = proof_path H (tree_root t) (length ([] :: nat list)) a"
  proof (rule climb_is_path)
    show "wf_node H [] (tree_root t)" using assms(1) by (simp add: wf_tree_def)
    show "climb H a (length ([] :: nat list)) ss (leaf_hash H a x) = hash_of H (tree_root t)"
      using assms(2) by (auto simp: root_from_proof_climb from_parts_def slot_hash_def root_def split: if_splits)
    show "collision_free H (leaf_preimage a x # tree_preimages H (tree_root t)
        @ climb_preimages H a (length ([] :: nat list)) ss (leaf_hash H a x))"
      by (rule collision_free_mono [OF assms(3)]) (auto simp: proof_preimages_def from_parts_def slot_hash_def)
  qed
  then show ?thesis by simp
qed

text \<open>Checking the tree's own inclusion proof hashes nothing the tree does not hash.\<close>

lemma own_proof_preimages:
  assumes "wf_node H p t" and "accounts t a = Some x"
  shows "leaf_preimage a x \<in> set (tree_preimages H t)
    \<and> set (climb_preimages H a (length p) (proof_path H t (length p) a) (leaf_hash H a x)) \<subseteq> set (tree_preimages H t)"
  using assms
proof (induction t arbitrary: p)
  case (Branch h l r)
  from Branch.prems(1) have wf: "wf_node H (p @ [0]) l" "wf_node H (p @ [1]) r" and sh: "shaped p (Branch h l r)"
    by (auto simp: wf_node_def)
  have under: "under p a" by (rule accounts_under [OF sh Branch.prems(2)])
  have climb: "climb H a (Suc (length p)) (proof_path H s (Suc (length p)) a) (leaf_hash H a x) = hash_of H s"
    if "wf_node H q s" "under q a" "accounts s a = Some x" "length q = Suc (length p)" for q s
    using prove_node_complete(1) [OF that(1,2)] that proof_slot_held [of q s a x H]
    by (auto simp: slot_hash_def wf_node_def)
  show ?case
    using Branch.IH(1) [of "p @ [0]"] Branch.IH(2) [of "p @ [1]"] wf under climb [of "p @ [0]" l] climb [of "p @ [1]" r]
      accounts_Branch_bit [OF sh, of a] Branch.prems(2)
    by (auto split: if_splits)
qed (auto split: if_splits)

end
