(* ===== verification/Contract_Delivery.thy ===== *)
theory Contract_Delivery
  imports Contract_Custody Merkle_Depth
begin

text \<open>
  What reaches the contract at all. A method's arguments are ARC-4 encoded, each in one application
  argument of at most \<open>MAX_APP_ARG\<close> bytes, and a byte string of open length spends two of them on its
  own length. So a call is submitted before it is performed: what does not fit is never executed. The
  limit is what decides who can leave after an escape, because an exit carries a whole Merkle proof in
  one argument.
\<close>

section \<open>Submitting a call\<close>

definition fits_argument :: "byte list \<Rightarrow> bool" where
  "fits_argument bs \<longleftrightarrow> ABI_LENGTH_PREFIX + length bs \<le> MAX_APP_ARG"

text \<open>The lengths the methods declare: \<open>bytes<n>\<close> is \<open>n\<close> bytes, \<open>bytes\<close> and an array of words carry a length.\<close>

fun deliverable :: "contract_call \<Rightarrow> bool" where
  "deliverable (RequestWithdrawal payment n address recipient scheme key sig) \<longleftrightarrow>
     length scheme = 3 \<and> length key = 32 \<and> length sig = 64"
| "deliverable (ForceExit address n amt auth scheme key sig recipient sibs) \<longleftrightarrow>
     length scheme = 3 \<and> length key = 32 \<and> length sig = 64 \<and> fits_argument sibs"
| "deliverable (AccumulateChunk chunk) \<longleftrightarrow> fits_argument chunk"
| "deliverable (VerifyBatch verifier signals vals) \<longleftrightarrow>
     fits_argument (concat (map bytes_of signals)) \<and> length vals = 192"
| "deliverable _ \<longleftrightarrow> True"

datatype submit_error =
    Undeliverable
  | Failed contract_error

definition submit :: "avm \<Rightarrow> call \<Rightarrow> contract_call \<Rightarrow> contract \<Rightarrow> submit_error + contract" where
  "submit A t m c = (if deliverable m then map_sum Failed id (perform A t m c) else Inl Undeliverable)"

lemma submit_Inr_iff [result_simps]: "submit A t m c = Inr c' \<longleftrightarrow> deliverable m \<and> perform A t m c = Inr c'"
  by (cases "perform A t m c") (simp_all add: submit_def)

lemma fits_argument_iff: "fits_argument bs \<longleftrightarrow> length bs \<le> 4094"
  by (auto simp: fits_argument_def ABI_LENGTH_PREFIX_def MAX_APP_ARG_def)

text \<open>A path of more than 127 siblings does not fit.\<close>

lemma fits_siblings: "fits_argument (concat (map bytes_of ss)) \<longleftrightarrow> length ss \<le> 127"
  by (auto simp: fits_argument_iff)

lemma fits_whole_words: "fits_argument bs \<Longrightarrow> length bs div 32 \<le> 127"
  by (simp add: fits_argument_iff)

text \<open>What a sequencer sends to settle, and anyone to pay out, always fits.\<close>

lemma chunks_deliverable: "chunk \<in> set (chunks CHUNK_SIZE bs) \<Longrightarrow> deliverable (AccumulateChunk chunk)"
  using chunks_bound [of chunk CHUNK_SIZE bs] by (simp add: fits_argument_iff)

lemma settlement_deliverable:
  assumes "for_block P blk = Inr s" and "length signals = 5"
  shows "list_all (\<lambda>(t, m). deliverable m) (settlement_calls P t verifier signals target s)"
proof -
  obtain vals where "execute P (block_domain blk) (block_old_root blk) (block_old_inbox_chain blk)
      (batch_encode (block_batch blk)) (sidecar_encode (block_sidecar blk)) = Inr vals"
    and vals: "settlement_public_values s = vals"
    using assms(1) by (auto simp: for_block_def Let_def and_then_Inr_iff split: if_splits)
  from execute_Inr [OF this(1)] vals have "length (settlement_public_values s) = 192" by auto
  moreover have "\<forall>chunk\<in>set (settlement_chunks s). deliverable (AccumulateChunk chunk)"
    by (auto simp: settlement_chunks_def intro!: chunks_deliverable simp del: deliverable.simps CHUNK_SIZE_eq)
  ultimately show ?thesis
    using assms(2) by (auto simp: settlement_calls_def block_calls_def post_call_def pay_call_def list_all_iff fits_argument_iff)
qed

section \<open>Exits\<close>

lemma exit_deliverable:
  "length key = 32 \<Longrightarrow> length sig = 64 \<Longrightarrow> length ss \<le> 127 \<Longrightarrow>
     deliverable (ForceExit a n amt auth SCHEME_ED25519 key sig recipient (concat (map bytes_of ss)))"
  by (simp add: fits_siblings SCHEME_ED25519_def ascii_def)

text \<open>With nobody else on the first 127 bits of its address, an account's proof can be sent.\<close>

lemma exit_reaches:
  assumes hist: "history A P g" and same: "same_hash A P" and cf: "collision_free (sha256 P) (hashed_strings g)"
    and escaped: "escaped (on_chain g)" and fresh: "exits (on_chain g) a = None"
    and held: "tree_accounts (settled_tree g) a = Some acc"
    and alone: "\<not> crowded (tree_accounts (settled_tree g)) a 127"
    and key: "length key = 32" "address_from_public_key (sha256 P) Ed25519 key = auth_address acc"
    and signed: "length sig = 64"
      "avm_ed25519verify_bare A (ascii ''EXIT'' @ bytes_of (contract_domain A) @ bytes_of a @ bytes_of recipient) sig key"
    and worth: "unat (avm_exit_box_cost A) < unat (amount acc)"
    and delivers: "avm_delivers A recipient (amount acc - avm_exit_box_cost A)"
  shows "\<exists>c'. submit A t (ForceExit a (nonce acc) (amount acc) (auth_address acc) SCHEME_ED25519 key sig recipient
      (concat (map bytes_of (siblings (tree_proof (sha256 P) (settled_tree g) a))))) (on_chain g) = Inr c'
    \<and> exits c' = (exits (on_chain g))(a \<mapsto> amount acc)
    \<and> app_payments c' = app_payments (on_chain g) @ [(recipient, amount acc - avm_exit_box_cost A)]"
proof -
  have "wf_tree (sha256 P) (settled_tree g)"
    using history_books [OF hist same cf] by (simp add: books_def dues_told_def)
  with alone held have "length (siblings (tree_proof (sha256 P) (settled_tree g) a)) \<le> 127"
    by (simp add: tree_proof_length_le del: tree_proof_parts)
  note exit_deliverable [OF key(1) signed(1) this]
  with exits_stay_open [OF hist same cf escaped fresh held key(2) signed(2) worth delivers] show ?thesis
    by (simp add: submit_Inr_iff del: tree_proof_parts deliverable.simps)
qed

text \<open>The host's proof: how long it is, and what it does when it can be sent.\<close>

lemma short_proof_iff:
  assumes "wf_ledger P l" and "exit_proof_of P l key = Inr e"
  shows "length (exit_siblings e) \<le> n \<longleftrightarrow> \<not> crowded (ledger_accounts l) (exit_address e) n"
  using exit_proof_of_cases [OF assms] assms(1) tree_proof_length_le [of "sha256 P" "ledger_tree l"]
  by (simp add: wf_ledger_def del: tree_proof_parts)

lemma host_proof_reaches:
  assumes hist: "history A P g" and same: "same_hash A P" and wf: "wf_ledger P l" and rest: "at_rest A P g l"
    and run: "no_settlement ms" "chronicle_after A P ms g = Inr g'"
    and cf: "collision_free (sha256 P) (hashed_strings g')" and escaped: "escaped (on_chain g')"
    and e: "exit_proof_of P l key = Inr e" "exit_auth_address e = exit_address e"
    and short: "length (exit_siblings e) \<le> 127" and lengths: "length key = 32" "length sig = 64"
    and fresh: "exits (on_chain g') (exit_address e) = None"
    and signed: "avm_ed25519verify_bare A (ascii ''EXIT'' @ bytes_of (contract_domain A) @ bytes_of (exit_address e)
        @ bytes_of recipient) sig key"
    and worth: "unat (avm_exit_box_cost A) < unat (exit_amount e)"
    and delivers: "avm_delivers A recipient (exit_amount e - avm_exit_box_cost A)"
  shows "\<exists>c'. submit A t (ForceExit (exit_address e) (exit_nonce e) (exit_amount e) (exit_auth_address e) SCHEME_ED25519 key sig
      recipient (concat (map bytes_of (exit_siblings e)))) (on_chain g') = Inr c'
    \<and> exits c' = (exits (on_chain g'))(exit_address e \<mapsto> exit_amount e)
    \<and> app_payments c' = app_payments (on_chain g') @ [(recipient, exit_amount e - avm_exit_box_cost A)]"
  using host_proof_pays [OF hist same wf rest run cf escaped e fresh signed worth delivers]
    exit_deliverable [OF lengths short]
  by (simp add: submit_Inr_iff del: deliverable.simps)

text \<open>With somebody on the first 127 bits nothing anyone sends is an exit of that account.\<close>

lemma crowded_cannot_exit:
  assumes same: "same_hash A P" and tree: "wf_tree (sha256 P) u" "contract_root c = root (sha256 P) u"
    and crowd: "crowded (tree_accounts u) a 127"
    and cf: "collision_free (sha256 P) (exit_strings (sha256 P) u a (account_new n amt auth) sibs)"
  shows "submit A t (ForceExit a n amt auth scheme key sig recipient sibs) c \<noteq> Inr c'"
proof
  let ?H = "sha256 P" and ?acc = "account_new n amt auth"
  assume "submit A t (ForceExit a n amt auth scheme key sig recipient sibs) c = Inr c'"
  then have fits: "length sibs div 32 \<le> 127"
    and ok: "force_exit A a n amt auth scheme key sig recipient sibs c = Inr c'"
    by (auto simp: submit_Inr_iff intro: fits_whole_words)
  from force_exit_effect [OF ok] have depth: "length sibs div 32 \<le> 256"
    and climb: "exit_climb A a sibs (length sibs div 32) (avm_sha256 A (leaf_preimage a ?acc)) = contract_root c"
    by blast+
  have proves: "root_from_proof ?H a (Some ?acc) (from_parts (sibling_words sibs) Own) = Some (root ?H u)"
    using exit_climb_root_from_proof [OF same depth, of a ?acc] climb same tree(2)
    by (simp add: leaf_hash_def same_hash_def)
  note cf = cf [unfolded exit_strings_def]
  have "sibling_words sibs = siblings (tree_proof ?H u a)" by (rule inclusion_proof_unique [OF tree(1) proves cf])
  then have "length (siblings (tree_proof ?H u a)) \<le> 127" using fits by (metis length_sibling_words)
  with crowd root_from_proof_sound(1) [OF tree(1) cf proves] tree(1) show False
    by (simp add: tree_proof_length_le del: tree_proof_parts)
qed

text \<open>The strings hashed to check the tree's own proof.\<close>

lemma own_exit_strings:
  assumes "wf_tree H t" and "tree_accounts t a = Some x"
  shows "set (exit_strings H t a x (concat (map bytes_of (siblings (tree_proof H t a))))) = set (tree_preimages H (tree_root t))"
  using own_proof_preimages [of H "[]" "tree_root t" a x] assms
  by (auto simp: exit_strings_def proof_preimages_def from_parts_def slot_hash_def wf_tree_def tree_accounts_def)

end
