(* ===== verification/Contract_Interleaving.thy ===== *)
theory Contract_Interleaving
  imports Contract_Blocks
begin

text \<open>
  The sequencer among others. Posting a block takes many calls, and anyone may call in between. Short
  of the council, an escape or a new verifier taking over, no such call disturbs what the sequencer
  has posted: opening, posting and settling a block go through as if nobody else were there.
\<close>

section \<open>Calls of others\<close>

text \<open>
  The sequencer's calls have to return; a call of anyone else that fails leaves no trace.
\<close>

fun run_mixed :: "avm \<Rightarrow> (call \<times> contract_call) list \<Rightarrow> contract \<Rightarrow> contract_error + contract" where
  "run_mixed A [] c = Inr c"
| "run_mixed A ((t, m) # ms) c =
     (case perform A t m c of
        Inr d \<Rightarrow> run_mixed A ms d
      | Inl e \<Rightarrow> if call_sender t = avm_creator A then Inl e else run_mixed A ms c)"

definition by_sequencer :: "avm \<Rightarrow> call \<times> contract_call \<Rightarrow> bool" where
  "by_sequencer A tm \<longleftrightarrow> call_sender (fst tm) = avm_creator A"

fun takes_over :: "contract_call \<Rightarrow> bool" where
  "takes_over SecurityCouncilEscape = True"
| "takes_over ExecuteEscape = True"
| "takes_over ExecuteVerifierUpdate = True"
| "takes_over _ = False"

text \<open>What the sequencer's calls read, as far as others cannot touch it; the inbox only grows past the cursor.\<close>

definition undisturbed :: "contract \<Rightarrow> contract \<Rightarrow> bool" where
  "undisturbed d c \<longleftrightarrow>
     contract_root c = contract_root d \<and> settled_inbox_chain c = settled_inbox_chain d
     \<and> settled_inbox_cursor c = settled_inbox_cursor d \<and> pending_withdrawals c = pending_withdrawals d
     \<and> chunk_accumulator c = chunk_accumulator d \<and> batch_length c = batch_length d \<and> posted_length c = posted_length d
     \<and> sealed_inbox_chain c = sealed_inbox_chain d \<and> sealed_inbox_cursor c = sealed_inbox_cursor d
     \<and> verifier_address c = verifier_address d \<and> program_vkey_hash c = program_vkey_hash d
     \<and> recursion_vkey_root c = recursion_vkey_root d \<and> escaped c = escaped d
     \<and> inbox_cursor d \<le> inbox_cursor c
     \<and> (\<forall>i entry. settled_inbox_cursor d \<le> i \<longrightarrow> inbox_boxes d i = Some entry \<longrightarrow> inbox_boxes c i = Some entry)"

lemma undisturbed_refl [simp]: "undisturbed c c"
  by (simp add: undisturbed_def)

lemma undisturbed_trans: "undisturbed d c \<Longrightarrow> undisturbed c b \<Longrightarrow> undisturbed d b"
  unfolding undisturbed_def by (metis order_trans)

text \<open>An entry that joins the inbox lands on a free box behind all others; one that goes was settled.\<close>

lemma appended_undisturbed:
  assumes "inbox_kept c" and "unat next_index = unat (inbox_cursor c) + 1"
  shows "undisturbed c (appended next_index paid charge entry c)"
proof -
  have "inbox_boxes c (inbox_cursor c) = None"
    using inbox_keptD(2) [OF assms(1), of "inbox_cursor c"] by (cases "inbox_boxes c (inbox_cursor c)") auto
  with assms(2) show ?thesis by (auto simp: undisturbed_def appended_def word_le_nat_alt)
qed

lemma pruned_undisturbed:
  assumes "prune_request A i c = Inr c' \<or> prune_deposit A i c = Inr c'" and "\<not> escaped c"
  shows "undisturbed c c'"
proof -
  have "i < settled_inbox_cursor c"
    using assms by (auto simp: prune_request_def prune_deposit_def contract_Inr_iffs)
  with prune_effect [OF assms(1)] show ?thesis by (auto simp: undisturbed_def box_removed_def)
qed

lemma others_leave_undisturbed:
  assumes kept: "well_kept c" and live: "\<not> escaped c" and paid: "pending_withdrawals c = None"
    and ok: "perform A t m c = Inr c'" and other: "call_sender t \<noteq> avm_creator A" "\<not> takes_over m"
  shows "undisturbed c c'"
proof (cases m)
  case (MakeDeposit payment recipient)
  with ok obtain i where "contract_deposit A t payment recipient c = Inr (i, c')"
    by (auto simp: map_sum_def split: sum.splits)
  from contract_deposit_effect [OF this] appended_undisturbed [OF well_keptD(4) [OF kept]] show ?thesis by blast
next
  case (RequestWithdrawal payment n address recipient scheme key sig)
  with ok obtain i where "request_withdrawal A t payment n address recipient scheme key sig c = Inr (i, c')"
    by (auto simp: map_sum_def split: sum.splits)
  from request_withdrawal_effect [OF this] obtain next_index entry paid charge k where
    "unat next_index = unat (inbox_cursor c) + 1" and c': "c' = (appended next_index paid charge entry c)\<lparr>request_cursor := k\<rparr>"
    by blast
  then have "undisturbed c (appended next_index paid charge entry c)"
    by (intro appended_undisturbed [OF well_keptD(4) [OF kept]])
  then show ?thesis by (simp add: undisturbed_def c')
next
  case (PruneRequest i)
  with ok pruned_undisturbed [of A i c c'] live show ?thesis by simp
next
  case (PruneDeposit i)
  with ok pruned_undisturbed [of A i c c'] live show ?thesis by simp
next
  case (PayWithdrawal recipient amt tail)
  with ok paid show ?thesis by (simp add: pay_withdrawal_def contract_Inr_iffs)
next
  case (ReclaimDeposit i)
  with ok live show ?thesis by (simp add: reclaim_deposit_def contract_Inr_iffs)
next
  case AbandonBatch
  with ok other show ?thesis by (simp add: abandon_batch_def contract_Inr_iffs)
next
  case (OpenBatch len target)
  with ok other show ?thesis by (simp add: open_batch_def contract_Inr_iffs)
next
  case (AccumulateChunk chunk)
  with ok other show ?thesis by (simp add: contract_accumulate_chunk_def contract_Inr_iffs)
next
  case (VerifyBatch verifier signals vals)
  with ok other show ?thesis by (simp add: contract_verify_batch_def contract_Inr_iffs)
qed (use perform_effect [OF ok] other in \<open>auto simp: undisturbed_def\<close>)

section \<open>The sequencer's calls\<close>

text \<open>A call that opens or posts does the same to a state others have been at.\<close>

fun posts :: "contract_call \<Rightarrow> bool" where
  "posts (OpenBatch len target) = True"
| "posts (AccumulateChunk chunk) = True"
| "posts _ = False"

lemma open_batch_undisturbed:
  assumes same: "undisturbed d c" and ok: "open_batch A t len target d = Inr d'"
  shows "\<exists>c'. open_batch A t len target c = Inr c' \<and> undisturbed d' c'"
proof -
  from open_batch_effect [OF ok] obtain sealed where
    d': "d' = d\<lparr>chunk_accumulator := Some (avm_sha256 A (ascii ''BATCH'' @ bytes_of (contract_domain A) @ to_be_bytes len)),
      batch_length := Some len, posted_length := Some 0, sealed_inbox_chain := Some sealed, sealed_inbox_cursor := Some target\<rparr>"
    and live: "\<not> escaped d" "batch_length d = None" "pending_withdrawals d = None"
    and bounds: "unat (settled_inbox_cursor d) \<le> unat target" "unat target \<le> unat (inbox_cursor d)"
    and sealed: "if target = settled_inbox_cursor d then sealed = settled_inbox_chain d
       else \<exists>last entry. unat last + 1 = unat target \<and> inbox_boxes d last = Some entry \<and> sealed = record_chain_after entry"
    by blast
  have creator: "call_sender t = avm_creator A" using ok by (simp add: open_batch_def contract_Inr_iffs)
  note fields = same [unfolded undisturbed_def]
  let ?c' = "c\<lparr>chunk_accumulator := Some (avm_sha256 A (ascii ''BATCH'' @ bytes_of (contract_domain A) @ to_be_bytes len)),
      batch_length := Some len, posted_length := Some 0, sealed_inbox_chain := Some sealed, sealed_inbox_cursor := Some target\<rparr>"
  have word: "(if target = settled_inbox_cursor c then Inr (settled_inbox_chain c)
        else and_then (minus64 target 1) (\<lambda>last. and_then (present (inbox_boxes c last)) (\<lambda>rec. Inr (record_chain_after rec))))
      = Inr sealed"
  proof (cases "target = settled_inbox_cursor d")
    case False
    with sealed obtain last entry where last: "unat last + 1 = unat target" "inbox_boxes d last = Some entry"
      "sealed = record_chain_after entry" by auto
    have "unat target \<noteq> unat (settled_inbox_cursor d)" using False by (simp add: word_unat_eq_iff)
    with last(1) bounds(1) have "settled_inbox_cursor d \<le> last" by (simp add: word_le_nat_alt)
    with last(2) fields have "inbox_boxes c last = Some entry" by blast
    moreover have "minus64 target 1 = Inr last"
      using last(1) by (simp add: minus64_Inr_iff word_unat_eq_iff unat_sub word_le_nat_alt)
    ultimately show ?thesis using False fields last(3) by simp
  qed (use sealed fields in simp)
  have "unat (inbox_cursor d) \<le> unat (inbox_cursor c)" using fields by (simp add: word_le_nat_alt)
  then have "open_batch A t len target c = Inr ?c'"
    unfolding open_batch_def word using creator live bounds fields by (simp add: word_le_nat_alt)
  moreover have "undisturbed d' ?c'" using fields by (simp add: undisturbed_def d')
  ultimately show ?thesis by blast
qed

lemma contract_accumulate_chunk_undisturbed:
  assumes same: "undisturbed d c" and ok: "contract_accumulate_chunk A t chunk d = Inr d'"
  shows "\<exists>c'. contract_accumulate_chunk A t chunk c = Inr c' \<and> undisturbed d' c'"
proof -
  note fields = same [unfolded undisturbed_def]
  from ok obtain len posted accumulator posted' remaining where
    facts: "call_sender t = avm_creator A" "batch_length d = Some len" "posted_length d = Some posted"
      "chunk_accumulator d = Some accumulator" "posted < len" "minus64 len posted = Inr remaining"
      "plus64 posted (of_nat (length chunk)) = Inr posted'"
      "length chunk = unat (if remaining < CONTRACT_CHUNK_SIZE then remaining else CONTRACT_CHUNK_SIZE)"
    and d': "d' = d\<lparr>chunk_accumulator := Some (avm_sha256 A (ascii ''CHUNK'' @ bytes_of accumulator @ bytes_of (avm_sha256 A chunk))),
         posted_length := Some posted'\<rparr>"
    unfolding contract_accumulate_chunk_def and_then_Inr_iff require_Inr_iff present_Inr_iff Let_def by blast
  let ?c' = "c\<lparr>chunk_accumulator := Some (avm_sha256 A (ascii ''CHUNK'' @ bytes_of accumulator @ bytes_of (avm_sha256 A chunk))),
         posted_length := Some posted'\<rparr>"
  have "contract_accumulate_chunk A t chunk c = Inr ?c'"
    using fields facts by (simp add: contract_accumulate_chunk_def Let_def)
  moreover have "undisturbed d' ?c'" using fields by (simp add: undisturbed_def d')
  ultimately show ?thesis by blast
qed

lemma posts_undisturbed:
  assumes "undisturbed d c" and "perform A t m d = Inr d'" and "posts m"
  shows "\<exists>c'. perform A t m c = Inr c' \<and> undisturbed d' c'"
  using assms open_batch_undisturbed contract_accumulate_chunk_undisturbed by (cases m) simp_all

text \<open>
  The calls of a mixed run: the sequencer posts, the others do not take over. Its calls go through as
  they would alone, and leave what they would have left.
\<close>

definition posting_run :: "avm \<Rightarrow> (call \<times> contract_call) list \<Rightarrow> bool" where
  "posting_run A ms \<longleftrightarrow> list_all (\<lambda>tm. if by_sequencer A tm then posts (snd tm) else \<not> takes_over (snd tm)) ms"

lemma posts_still:
  assumes "perform A t m d = Inr d'" and "posts m"
  shows "escaped d' = escaped d \<and> pending_withdrawals d' = pending_withdrawals d"
  using perform_effect [OF assms(1)] assms(2) by (cases m) (auto simp: effect_defs)

lemma run_mixed_simulates:
  assumes "run_calls A (filter (by_sequencer A) ms) d = Inr d'" and "posting_run A ms"
    and "undisturbed d c" and "well_kept c" and "\<not> escaped d" and "pending_withdrawals d = None"
  shows "\<exists>c'. run_mixed A ms c = Inr c' \<and> undisturbed d' c' \<and> well_kept c'"
  using assms
proof (induction ms arbitrary: d c)
  case (Cons tm ms)
  obtain t m where tm: "tm = (t, m)" by (cases tm)
  have rest: "posting_run A ms" using Cons.prems(2) by (simp add: posting_run_def)
  show ?case
  proof (cases "by_sequencer A tm")
    case True
    with Cons.prems(1,2) obtain d1 where d1: "perform A t m d = Inr d1" and m: "posts m"
      and run: "run_calls A (filter (by_sequencer A) ms) d1 = Inr d'"
      by (auto simp: tm posting_run_def and_then_Inr_iff)
    from posts_undisturbed [OF Cons.prems(3) d1 m] obtain c1 where c1: "perform A t m c = Inr c1" "undisturbed d1 c1" by blast
    have "\<not> escaped d1" "pending_withdrawals d1 = None" using posts_still [OF d1 m] Cons.prems(5,6) by simp_all
    from Cons.IH [OF run rest c1(2) perform_kept [OF Cons.prems(4) c1(1)] this] c1(1) show ?thesis
      by (simp add: tm del: perform.simps)
  next
    case False
    then have sender: "call_sender t \<noteq> avm_creator A" and m: "\<not> takes_over m"
      using Cons.prems(2) by (simp_all add: tm posting_run_def by_sequencer_def)
    have run: "run_calls A (filter (by_sequencer A) ms) d = Inr d'" using Cons.prems(1) False by simp
    show ?thesis
    proof (cases "perform A t m c")
      case (Inl e)
      with Cons.IH [OF run rest Cons.prems(3-6)] sender show ?thesis by (simp add: tm del: perform.simps)
    next
      case (Inr c1)
      have "\<not> escaped c" "pending_withdrawals c = None" using Cons.prems(3,5,6) by (simp_all add: undisturbed_def)
      from undisturbed_trans [OF Cons.prems(3) others_leave_undisturbed [OF Cons.prems(4) this Inr sender m]]
      have "undisturbed d c1" .
      from Cons.IH [OF run rest this perform_kept [OF Cons.prems(4) Inr] Cons.prems(5,6)] Inr show ?thesis
        by (simp add: tm del: perform.simps)
    qed
  qed
qed auto

section \<open>The proof\<close>

text \<open>
  A settlement comes in time for an escape that may have been signalled meanwhile, whether it answers
  it or only works on it; the sums are of rounds and of entries, which 64-bit words hold.
\<close>

definition answerable :: "call \<Rightarrow> contract \<Rightarrow> bool" where
  "answerable t c \<longleftrightarrow>
     (case escape_deadline c of None \<Rightarrow> True
      | Some deadline \<Rightarrow> call_round t \<le> deadline \<and> unat deadline + unat (escape_grace c) < 2 ^ 64)
     \<and> (case escape_progress c of None \<Rightarrow> True
      | Some progress \<Rightarrow> unat progress + unat (inbox_cursor c) < 2 ^ 64)"

lemma credit_escape_progress_returns:
  assumes "\<And>deadline. escape_deadline c = Some deadline \<Longrightarrow> unat deadline + unat (escape_grace c) < 2 ^ 64
      \<and> (\<exists>progress. escape_progress c = Some progress \<and> unat progress + unat n < 2 ^ 64)"
  shows "\<exists>c'. credit_escape_progress n c = Inr c'"
proof (cases "escape_deadline c")
  case (Some deadline)
  with assms obtain progress where progress: "escape_progress c = Some progress" "unat progress + unat n < 2 ^ 64"
    and deadline: "unat deadline + unat (escape_grace c) < 2 ^ 64" by blast
  have "plus64 progress n = Inr (progress + n)" "plus64 deadline (escape_grace c) = Inr (deadline + escape_grace c)"
    using progress(2) deadline by (simp_all add: plus64_Inr_iff unat_word_ariths)
  then show ?thesis using Some progress(1) by (simp add: credit_escape_progress_def)
qed (simp add: credit_escape_progress_def)

lemma settlement_returns:
  assumes kept: "well_kept c" and live: "\<not> escaped c" and time: "answerable t c" and t: "call_sender t = avm_creator A"
    and batch: "batch_length c = Some len" "posted_length c = Some len" "chunk_accumulator c = Some acc"
      "sealed_inbox_chain c = Some sealed" "sealed_inbox_cursor c = Some cursor"
    and verifier: "pay_sender verifier = verifier_address c"
    and words: "b32 (slice 0 32 vals) = contract_root c" "b32 (slice 64 96 vals) = acc"
      "b32 (slice 96 128 vals) = settled_inbox_chain c" "b32 (slice 128 160 vals) = sealed"
  shows "\<exists>c'. contract_verify_batch A t verifier (proof_signals A c vals word) vals c = Inr c'
    \<and> contract_root c' = b32 (slice 32 64 vals) \<and> settled_inbox_chain c' = sealed \<and> settled_inbox_cursor c' = cursor
    \<and> pending_withdrawals c' = (if b32 (slice 160 192 vals) = withdrawal_terminal A then pending_withdrawals c
        else Some (b32 (slice 160 192 vals)))"
proof -
  let ?d = "settled_state A vals sealed cursor c"
  let ?answer = "case escape_inbox_target c of None \<Rightarrow> Inr ?d
     | Some due \<Rightarrow>
         if cursor \<ge> due then Inr (delete_signal ?d)
         else and_then (minus64 cursor (settled_inbox_cursor c)) (\<lambda>discharged. credit_escape_progress discharged ?d)"
  have d: "escape_inbox_target ?d = escape_inbox_target c" "escape_deadline ?d = escape_deadline c"
    "escape_progress ?d = escape_progress c" "escape_grace ?d = escape_grace c"
    by (simp_all add: settled_state_def delete_batch_def)
  note below = sealed_below [OF kept batch(5)]
  have minus: "minus64 cursor (settled_inbox_cursor c) = Inr (cursor - settled_inbox_cursor c)"
    using below(1) by (simp add: minus64_Inr_iff unat_sub word_le_nat_alt)
  have "unat (cursor - settled_inbox_cursor c) \<le> unat (inbox_cursor c)"
    using below by (simp add: unat_sub word_le_nat_alt)
  then have "\<exists>c'. credit_escape_progress (cursor - settled_inbox_cursor c) ?d = Inr c'"
    using time well_keptD(2) [OF kept]
    by (intro credit_escape_progress_returns) (auto simp: d answerable_def signal_kept_def split: option.splits)
  then have "\<exists>c'. ?answer = Inr c'" by (auto simp: minus split: option.splits)
  then obtain c' where c': "?answer = Inr c'" by blast
  from escape_answer_effect [of ?d cursor "settled_inbox_cursor c" c'] c' obtain dl tg pr where
    "c' = ?d\<lparr>escape_deadline := dl, escape_inbox_target := tg, escape_progress := pr\<rparr>" by (auto simp: d)
  then have "contract_root c' = b32 (slice 32 64 vals) \<and> settled_inbox_chain c' = sealed \<and> settled_inbox_cursor c' = cursor
    \<and> pending_withdrawals c' = (if b32 (slice 160 192 vals) = withdrawal_terminal A then pending_withdrawals c
        else Some (b32 (slice 160 192 vals)))"
    by (simp add: settled_state_def delete_batch_def)
  moreover have "case escape_deadline c of None \<Rightarrow> True | Some deadline \<Rightarrow> call_round t \<le> deadline"
    using time by (simp add: answerable_def split: option.splits)
  ultimately show ?thesis
    using contract_verify_batch_guards [OF live _ t batch verifier words, where word = word] c' by auto
qed

section \<open>A block among others\<close>

text \<open>When the sequencer makes its calls does not matter to opening and posting.\<close>

lemma posts_any_time:
  assumes "list_all (\<lambda>tm. by_sequencer A tm \<and> posts (snd tm)) ns" and "call_sender t = avm_creator A"
  shows "run_calls A ns c = run_calls A (map (\<lambda>m. (t, m)) (map snd ns)) c"
  using assms(1)
proof (induction ns arbitrary: c)
  case (Cons tm ns)
  obtain u m where tm: "tm = (u, m)" by (cases tm)
  have "perform A u m c = perform A t m c"
    using Cons.prems assms(2)
    by (cases m) (simp_all add: tm by_sequencer_def open_batch_def contract_accumulate_chunk_def)
  with Cons show ?case by (simp add: tm and_then_def del: perform.simps split: sum.splits)
qed simp

lemma block_settles_interleaved:
  assumes hist: "history A P g" and same: "same_hash A P" and block: "for_block P blk = Inr s"
    and step: "in_step A (on_chain g) target s" and len: "settlement_batch_length s < 2 ^ 64"
    and ms: "posting_run A ms" "map snd (filter (by_sequencer A) ms)
      = OpenBatch (of_nat (settlement_batch_length s)) target # map AccumulateChunk (settlement_chunks s)"
    and verifier: "pay_sender verifier = verifier_address (on_chain g)"
  shows "\<exists>c. run_mixed A ms (on_chain g) = Inr c
    \<and> (\<forall>t. call_sender t = avm_creator A \<longrightarrow> answerable t c \<longrightarrow>
        (\<exists>c'. contract_verify_batch A t verifier (proof_signals A (on_chain g) (settlement_public_values s) word)
            (settlement_public_values s) c = Inr c'
          \<and> contract_root c' = settlement_new_root s \<and> settled_inbox_chain c' = settlement_new_inbox_chain s
          \<and> settled_inbox_cursor c' = target
          \<and> pending_withdrawals c' = (if settlement_withdrawal_chain s = withdrawal_terminal A then None
              else Some (settlement_withdrawal_chain s))))"
proof -
  let ?c0 = "on_chain g" and ?vals = "settlement_public_values s" and ?t = "\<lparr>call_sender = avm_creator A, call_round = 0\<rparr>"
  define d where "d = on_chain (posted_chronicle A P target s g)"
  let ?ns = "filter (by_sequencer A) ms"
  have still: "\<not> escaped ?c0" "pending_withdrawals ?c0 = None" using step by (simp_all add: in_step_def)
  have "list_all (\<lambda>tm. by_sequencer A tm \<and> posts (snd tm)) ?ns"
    using ms(1) by (auto simp: posting_run_def list_all_iff)
  moreover have "(\<lambda>x. (?t, AccumulateChunk x)) = post_call ?t" by (rule ext) (simp add: post_call_def)
  ultimately have "run_calls A ?ns ?c0 = Inr d"
    using block_posts_in_history(2) [OF hist same block step _ len, of ?t] posts_any_time [of A ?ns ?t ?c0]
    by (simp add: ms(2) d_def comp_def)
  from run_mixed_simulates [OF this ms(1) undisturbed_refl history_kept [OF hist] still]
  obtain c where c: "run_mixed A ms ?c0 = Inr c" and like: "undisturbed d c" and kept: "well_kept c" by blast
  have ideal: "\<not> escaped d" "pending_withdrawals d = None" "batch_length d = Some (of_nat (settlement_batch_length s))"
    "posted_length d = Some (of_nat (settlement_batch_length s))"
    "chunk_accumulator d = Some (batch_commitment (sha256 P) (contract_domain A) (settlement_batch_bytes s))"
    "sealed_inbox_chain d = Some (settlement_new_inbox_chain s)" "sealed_inbox_cursor d = Some target"
    "contract_root d = contract_root ?c0" "settled_inbox_chain d = settled_inbox_chain ?c0" "verifier_address d = verifier_address ?c0"
    "program_vkey_hash d = program_vkey_hash ?c0" "recursion_vkey_root d = recursion_vkey_root ?c0"
    using still by (simp_all add: d_def posted_chronicle_def posting_def opened_def)
  have fields: "\<not> escaped c" "pending_withdrawals c = None" "batch_length c = Some (of_nat (settlement_batch_length s))"
    "posted_length c = Some (of_nat (settlement_batch_length s))"
    "chunk_accumulator c = Some (batch_commitment (sha256 P) (contract_domain A) (settlement_batch_bytes s))"
    "sealed_inbox_chain c = Some (settlement_new_inbox_chain s)" "sealed_inbox_cursor c = Some target"
    "contract_root c = contract_root ?c0" "settled_inbox_chain c = settled_inbox_chain ?c0" "verifier_address c = verifier_address ?c0"
    "proof_signals A c ?vals word = proof_signals A ?c0 ?vals word"
    using like ideal by (simp_all add: undisturbed_def proof_signals_def)
  note slices = slice_public_values [OF for_block_words(1) [OF block]]
  have "\<exists>c'. contract_verify_batch A t verifier (proof_signals A ?c0 ?vals word) ?vals c = Inr c'
      \<and> contract_root c' = settlement_new_root s \<and> settled_inbox_chain c' = settlement_new_inbox_chain s
      \<and> settled_inbox_cursor c' = target
      \<and> pending_withdrawals c' = (if settlement_withdrawal_chain s = withdrawal_terminal A then None
          else Some (settlement_withdrawal_chain s))"
    if "call_sender t = avm_creator A" "answerable t c" for t
  proof -
    have words: "pay_sender verifier = verifier_address c" "b32 (slice 0 32 ?vals) = contract_root c"
      "b32 (slice 64 96 ?vals) = batch_commitment (sha256 P) (contract_domain A) (settlement_batch_bytes s)"
      "b32 (slice 96 128 ?vals) = settled_inbox_chain c" "b32 (slice 128 160 ?vals) = settlement_new_inbox_chain s"
      using slices step verifier fields(8-10) by (simp_all add: in_step_def)
    from settlement_returns [OF kept fields(1) that(2,1) fields(3-7) words, where word = word] slices fields(2,11)
    show ?thesis by (simp cong: if_cong split del: if_split)
  qed
  with c show ?thesis by blast
qed

end
