(* ===== verification/Contract_Example.thy ===== *)
theory Contract_Example
  imports Rollup_Properties Contract_Service Contract_Delivery Contract_Interleaving
begin

text \<open>
  A small deployment for the examples: created, given a deposit, and settled with a block that
  withdraws some of it. Box costs and the account's balance are small numbers.
\<close>

definition toy_avm :: avm where
  "toy_avm = \<lparr>avm_sha256 = toy_hash, avm_ed25519verify_bare = (\<lambda>msg sig key. hd sig = 7),
     avm_creator = addr 1, avm_app_address = addr 2, avm_test_deployment = False, avm_genesis_hash = zero32,
     avm_app_id = 7, avm_inbox_box_cost = 40, avm_exit_box_cost = 20, avm_delivers = (\<lambda>r a. True)\<rparr>"

lemma toy_avm_simps [simp]:
  "avm_sha256 toy_avm = toy_hash" "avm_ed25519verify_bare toy_avm msg sig key = (hd sig = 7)"
  "avm_creator toy_avm = addr 1" "avm_app_address toy_avm = addr 2" "avm_inbox_box_cost toy_avm = 40"
  "avm_exit_box_cost toy_avm = 20" "avm_delivers toy_avm r a" "same_hash toy_avm toy"
  by (simp_all add: toy_avm_def same_hash_def)

definition toy_domain :: deployment_domain where "toy_domain = b32 (72 # 72 # replicate 30 1)"

lemma toy_avm_domain [simp]: "contract_domain toy_avm = toy_domain"
  by code_simp

definition eddie_key :: "byte list" where "eddie_key = replicate 32 1"
definition eddie :: address where "eddie = b32 (104 # 254 # replicate 30 1)"

lemma eddie_address: "address_from_public_key toy_hash Ed25519 eddie_key = eddie"
  by code_simp

definition eddie_sig :: signature where
  "eddie_sig = \<lparr>sig_scheme = Ed25519, sig_pub_key = eddie_key, sig_bytes = 7 # replicate 63 0\<rparr>"

definition eddie_stxns :: "signed_transaction list" where
  "eddie_stxns =
     [SignedDeposit (deposit_new eddie 200300),
      SignedWithdrawal (withdrawal_new eddie (addr 9) 100000 0) eddie_sig]"

definition sequencer :: call where "sequencer = \<lparr>call_sender = addr 1, call_round = 1\<rparr>"
definition anyone :: call where "anyone = \<lparr>call_sender = addr 6, call_round = 1\<rparr>"

lemma anyone_else: "call_sender sequencer = avm_creator toy_avm" "call_sender anyone \<noteq> avm_creator toy_avm"
  by (code_simp, code_simp)

definition deployed :: chronicle where
  "deployed = first_chronicle (create_application (addr 3) zero32 zero32 10 5 (addr 4) 100 200 100)"

definition deposit_payment :: payment_txn where
  "deposit_payment = \<lparr>pay_sender = addr 6, pay_receiver = addr 2, pay_amount = 200340\<rparr>"

definition deposit_entry :: inbox_record where
  "deposit_entry = \<lparr>record_kind = ascii ''d'', record_address = eddie, record_recipient = zero32, record_amount = 200300,
     record_payer = addr 6, record_round = 1,
     record_chain_after = toy_hash (inbox_step zero32 (InboxDeposit eddie 200300))\<rparr>"

definition funded_contract :: contract where
  "funded_contract = appended 1 200340 40 deposit_entry (on_chain deployed)"

lemmas funded_defs = funded_contract_def appended_def deployed_def first_chronicle_def create_application_def

lemma toy_deposit:
  "perform toy_avm anyone (MakeDeposit deposit_payment eddie) (on_chain deployed) = Inr funded_contract"
  by (simp add: deployed_def first_chronicle_def create_application_def contract_deposit_def deposit_payment_def
      deposit_entry_def funded_contract_def appended_def anyone_def require_def ensure_def receive_payment_def
      inbox_box_create_def append_record_def end_of_call_def plus64_def minus64_def checked_add_def checked_sub_def Let_def
      map_sum_def)


definition with_deposit :: chronicle where
  "with_deposit = \<lparr>on_chain = funded_contract, settled_tree = tree_new, arrived = [InboxDeposit eddie 200300], dues = [],
     posted_chunks = [], hashed_strings = []\<rparr>"

lemma history_deployed: "history toy_avm toy deployed"
  unfolding deployed_def by (rule history.created) simp

lemma history_funded: "history toy_avm toy with_deposit"
proof -
  have "record_call (sha256 toy) (MakeDeposit deposit_payment eddie) funded_contract deployed = with_deposit"
    by (simp add: with_deposit_def deployed_def first_chronicle_def appended_items_def funded_contract_def appended_def
        create_application_def deposit_entry_def record_item_of_fields)
  moreover have "history toy_avm toy (record_call (sha256 toy) (MakeDeposit deposit_payment eddie) funded_contract deployed)"
    by (rule history.called [OF history_deployed _ toy_deposit]) simp
  ultimately show ?thesis by simp
qed

text \<open>The strings of the chain of payouts, as a function that computes.\<close>

definition payouts_hashed :: "hash_fn \<Rightarrow> bytes32 \<Rightarrow> (l1_address \<times> u64) list \<Rightarrow> byte list list" where
  "payouts_hashed = payout_chain.preimages"

lemma payouts_hashed_code [code]:
  "payouts_hashed H c [] = []"
  "payouts_hashed H c (p # ps) = payout_step c p # payouts_hashed H (H (payout_step c p)) ps"
  by (simp_all add: payouts_hashed_def)

lemma payout_preimages_code [code]:
  "payout_preimages H domain ps = payout_anchor domain # payouts_hashed H (H (payout_anchor domain)) (rev ps)"
  by (simp add: payout_preimages_def payouts_hashed_def)

text \<open>A batch of one chunk.\<close>

lemma chunks_short: "bs \<noteq> [] \<Longrightarrow> length bs \<le> CHUNK_SIZE \<Longrightarrow> chunks CHUNK_SIZE bs = [bs]"
  by (simp add: chunks_step)

lemma commitment_preimages_short:
  assumes "bs \<noteq> []" and "length bs \<le> CHUNK_SIZE"
  shows "commitment_preimages H domain bs =
    [chunk_anchor (domain, of_nat (length bs)), chunk_step (H (chunk_anchor (domain, of_nat (length bs)))) (H bs), bs]"
  using assms by (simp add: commitment_preimages_def chunks_short del: CHUNK_SIZE_eq)

text \<open>The ledger of that deployment, and the block it builds.\<close>

definition toy_ledger :: ledger where "toy_ledger = ledger_with_domain toy_domain"

definition eddie_block :: "panic + block \<times> ledger" where
  "eddie_block = get_block toy eddie_stxns toy_ledger"

definition eddie_strings :: "block \<Rightarrow> byte list list" where
  "eddie_strings blk =
     event_preimages toy_hash tree_new (batch_events (block_batch blk) (block_sidecar blk))
     @ inbox_preimages toy_hash INBOX_CHAIN_GENESIS (batch_inbox_items (block_batch blk))
     @ inbox_preimages toy_hash INBOX_CHAIN_GENESIS [InboxDeposit eddie 200300]
     @ (let bs = batch_encode (block_batch blk); anchor = chunk_anchor (toy_domain, of_nat (length bs)) in
         [anchor, chunk_step (toy_hash anchor) (toy_hash bs), bs])
     @ payout_preimages toy_hash toy_domain (withdrawal_payouts (block_batch blk) (block_sidecar blk))"

definition eddie_ready :: "panic + block \<times> ledger \<Rightarrow> bool" where
  "eddie_ready r = (case r of Inl _ \<Rightarrow> False | Inr (blk, l) \<Rightarrow>
     batch_encode (block_batch blk) \<noteq> [] \<and>
     length (batch_encode (block_batch blk)) < 500 \<and> length (sidecar_encode (block_sidecar blk)) < 2000
     \<and> batch_inbox_items (block_batch blk) = [InboxDeposit eddie 200300]
     \<and> withdrawal_payouts (block_batch blk) (block_sidecar blk) = [(addr 9, 100000)]
     \<and> tree_root (ledger_tree l) = Leaf eddie (account_new 1 100300 eddie)
     \<and> collision_free toy_hash (eddie_strings blk))"

lemma eddie_block_ready: "eddie_ready eddie_block"
  by code_simp


lemma toy_ledger_facts [simp]:
  "wf_ledger toy toy_ledger" "ledger_domain toy_ledger = toy_domain"
  "state_root toy toy_ledger = zero32" "ledger_inbox_chain toy_ledger = zero32" "ledger_accounts toy_ledger = Map.empty"
  by (simp_all add: toy_ledger_def) (simp_all add: ledger_with_domain_def state_root_def root_tree_new INBOX_CHAIN_GENESIS_def)

lemma funded_rest: "at_rest toy_avm toy with_deposit toy_ledger"
  by (simp add: at_rest_def with_deposit_def funded_defs)

lemma eddie_stxns_wf: "list_all wf_signed eddie_stxns"
  by (simp add: eddie_stxns_def)

lemma funded_strings:
  assumes "block_domain blk = toy_domain" and "batch_encode (block_batch blk) \<noteq> []"
    and "length (batch_encode (block_batch blk)) \<le> CHUNK_SIZE"
  shows "set (block_strings toy_avm toy with_deposit blk) = set (eddie_strings blk)"
proof -
  have "concat (chunks CHUNK_SIZE (batch_encode (block_batch blk))) = batch_encode (block_batch blk)" by simp
  with assms(1) commitment_preimages_short [OF assms(2,3)] show ?thesis
    by (auto simp: block_strings_def settlement_strings_def eddie_strings_def settled_items_def with_deposit_def funded_defs Let_def simp del: CHUNK_SIZE_eq)
qed

lemma funded_items: "next_items with_deposit 1 = [InboxDeposit eddie 200300]"
  by (simp add: next_items_def with_deposit_def funded_defs)

lemma eddie_block_facts:
  obtains blk l where "get_block toy eddie_stxns toy_ledger = Inr (blk, l)"
    and "length (batch_encode (block_batch blk)) < 2 ^ 64" and "length (sidecar_encode (block_sidecar blk)) < 2 ^ 64"
    and "chunks CHUNK_SIZE (batch_encode (block_batch blk)) = [batch_encode (block_batch blk)]"
    and "batch_inbox_items (block_batch blk) = next_items with_deposit 1"
    and "withdrawal_payouts (block_batch blk) (block_sidecar blk) = [(addr 9, 100000)]"
    and "ledger_accounts l = [eddie \<mapsto> account_new 1 100300 eddie]"
    and "collision_free (sha256 toy) (block_strings toy_avm toy with_deposit blk)"
proof -
  from eddie_block_ready obtain blk l where blk: "get_block toy eddie_stxns toy_ledger = Inr (blk, l)"
    and size: "length (batch_encode (block_batch blk)) < 500" "length (sidecar_encode (block_sidecar blk)) < 2000"
    and ne: "batch_encode (block_batch blk) \<noteq> []"
    and facts: "batch_inbox_items (block_batch blk) = [InboxDeposit eddie 200300]"
      "withdrawal_payouts (block_batch blk) (block_sidecar blk) = [(addr 9, 100000)]"
      "tree_root (ledger_tree l) = Leaf eddie (account_new 1 100300 eddie)" "collision_free toy_hash (eddie_strings blk)"
    by (auto simp: eddie_ready_def eddie_block_def split: sum.splits prod.splits)
  have "wf_ledger toy l" by (rule get_block_cases [OF toy_ledger_facts(1) blk])
  then have accounts: "ledger_accounts l = [eddie \<mapsto> account_new 1 100300 eddie]"
    by (simp add: wf_ledger_def tree_accounts_def facts(3) flip: fun_upd_def)
  have "block_domain blk = toy_domain"
    using get_block_claims(2) [OF toy_ledger_facts(1) blk] by simp
  from funded_strings [OF this ne] size(1) have "collision_free (sha256 toy) (block_strings toy_avm toy with_deposit blk)"
    by (intro collision_free_mono [OF facts(4) [folded toy_simps(1)]]) simp
  with that [OF blk] size facts accounts chunks_short [OF ne] show ?thesis by (simp add: funded_items)
qed

text \<open>The block opened and posted, one call short of settled.\<close>

definition verifier_call :: payment_txn where
  "verifier_call = \<lparr>pay_sender = addr 3, pay_receiver = addr 2, pay_amount = 0\<rparr>"

lemma funded_ready:
  "call_sender sequencer = avm_creator toy_avm" "pay_sender verifier_call = verifier_address (on_chain with_deposit)"
  "in_time sequencer 1 (on_chain with_deposit)" "signal_kept (on_chain with_deposit)"
  "unat (settled_inbox_cursor (on_chain with_deposit)) \<le> unat (1 :: u64)" "unat (1 :: u64) \<le> unat (inbox_cursor (on_chain with_deposit))"
  by (simp_all add: sequencer_def verifier_call_def with_deposit_def funded_defs in_time_def signal_kept_def)

lemma posted_deployment:
  obtains g signals vals c' domain old_root anchor batch_bytes sidecar_bytes b s
  where "history toy_avm toy g" and "contract_verify_batch toy_avm sequencer verifier_call signals vals (on_chain g) = Inr c'"
    and "guest_main toy domain old_root anchor batch_bytes sidecar_bytes = Inr vals"
    and "batch_decode batch_bytes = Inr b" and "sidecar_decode sidecar_bytes b = Inr s"
    and "collision_free (sha256 toy) (hashed_strings g @ settlement_strings toy_avm toy g (b32 domain) batch_bytes b s)"
proof -
  obtain blk l where blk: "get_block toy eddie_stxns toy_ledger = Inr (blk, l)"
    and size: "length (batch_encode (block_batch blk)) < 2 ^ 64" "length (sidecar_encode (block_sidecar blk)) < 2 ^ 64"
    and items: "batch_inbox_items (block_batch blk) = next_items with_deposit 1"
    and cf: "collision_free (sha256 toy) (block_strings toy_avm toy with_deposit blk)"
    by (rule eddie_block_facts)
  note wire = built_block_wire [OF toy_ledger_facts(1) eddie_stxns_wf blk size]
  have same: "same_hash toy_avm toy" by simp
  from built_block_in_step [OF history_inbox_told [OF history_funded same] history_kept [OF history_funded] toy_ledger_facts(1)
      eddie_stxns_wf blk size funded_rest funded_ready(5,6) items]
  obtain s where block: "for_block toy blk = Inr s" and step: "in_step toy_avm (on_chain with_deposit) 1 s"
    and len: "settlement_batch_length s < 2 ^ 64"
    and guest: "guest_main toy (bytes_of (block_domain blk)) (bytes_of (block_old_root blk)) (bytes_of (block_old_inbox_chain blk))
      (batch_encode (block_batch blk)) (sidecar_encode (block_sidecar blk)) = Inr (settlement_public_values s)" by blast
  note posts = block_posts_in_history(1) [OF history_funded same block step funded_ready(1) len]
  note settles = settle_posted [OF same block step funded_ready(1,2,4,3),
      where len = "of_nat (settlement_batch_length s)" and word = zero32]
  let ?g = "posted_chronicle toy_avm toy 1 s with_deposit"
  have "hashed_strings ?g @ settlement_strings toy_avm toy ?g (block_domain blk) (batch_encode (block_batch blk))
      (block_batch blk) (block_sidecar blk) = block_strings toy_avm toy with_deposit blk"
    by (simp add: posted_chronicle_def block_strings_def settlement_strings_def settled_items_def settlement_chunks_def
        for_block_fields(6) [OF block] posting_def opened_def del: CHUNK_SIZE_eq)
  with cf settles show ?thesis
    by (intro that [OF posts _ guest wire(1,2)]) (auto simp: posted_chronicle_def)
qed

text \<open>No call changes the council.\<close>

lemma perform_council: "perform A t m c = Inr c' \<Longrightarrow> security_council c' = security_council c"
  using perform_effect [of A t m c c'] by (cases m) (auto simp: effect_defs)

lemma run_calls_council: "run_calls A ms c = Inr c' \<Longrightarrow> security_council c' = security_council c"
  by (induction A ms c rule: run_calls.induct) (auto simp: and_then_Inr_iff perform_council)

text \<open>The deployment with the block settled, and after the council has called an escape.\<close>

lemma settled_ledger:
  obtains g l where "history toy_avm toy g" and "wf_ledger toy l" and "at_rest toy_avm toy g l"
    and "security_council (on_chain g) = addr 4" and "exits (on_chain g) = Map.empty"
    and "collision_free (sha256 toy) (hashed_strings g)"
    and "ledger_accounts l = [eddie \<mapsto> account_new 1 100300 eddie]" and "app_payments (on_chain g) = [(addr 9, 100000)]"
proof -
  obtain blk l where blk: "get_block toy eddie_stxns toy_ledger = Inr (blk, l)"
    and size: "length (batch_encode (block_batch blk)) < 2 ^ 64" "length (sidecar_encode (block_sidecar blk)) < 2 ^ 64"
    and items: "batch_inbox_items (block_batch blk) = next_items with_deposit 1"
    and paid: "withdrawal_payouts (block_batch blk) (block_sidecar blk) = [(addr 9, 100000)]"
    and eddie: "ledger_accounts l = [eddie \<mapsto> account_new 1 100300 eddie]"
    and cf: "collision_free (sha256 toy) (block_strings toy_avm toy with_deposit blk)"
    by (rule eddie_block_facts)
  have "\<forall>(r, a)\<in>set (withdrawal_payouts (block_batch blk) (block_sidecar blk)). avm_delivers toy_avm r a" by simp
  from settles_on_chain [OF history_funded _ toy_ledger_facts(1) eddie_stxns_wf blk size funded_rest funded_ready(5,6) items funded_ready(1-3) this cf]
  obtain ms g where run: "run_calls toy_avm ms (on_chain with_deposit) = Inr (on_chain g)" and hist: "history toy_avm toy g"
    and rest: "at_rest toy_avm toy g l" and strings: "set (hashed_strings g) \<subseteq> set (block_strings toy_avm toy with_deposit blk)"
    and pays: "app_payments (on_chain g) = app_payments (on_chain with_deposit) @ [(addr 9, 100000)]"
    by (simp add: paid) blast
  have wf: "wf_ledger toy l" by (rule get_block_cases [OF toy_ledger_facts(1) blk])
  have "security_council (on_chain g) = addr 4"
    using run_calls_council [OF run] by (simp add: with_deposit_def funded_defs)
  moreover have "exits (on_chain g) = Map.empty"
    by (rule inbox_keptD(3) [OF well_keptD(4) [OF history_kept [OF hist]]]) (use rest in \<open>simp add: at_rest_def\<close>)
  moreover have "app_payments (on_chain g) = [(addr 9, 100000)]"
    using pays by (simp add: with_deposit_def funded_defs)
  ultimately show ?thesis using that [OF hist wf rest] eddie collision_free_mono [OF cf strings] by simp
qed

lemma settled_deployment:
  obtains g where "history toy_avm toy g" and "\<not> escaped (on_chain g)" and "security_council (on_chain g) = addr 4"
    and "exits (on_chain g) = Map.empty" and "collision_free (sha256 toy) (hashed_strings g)"
    and "tree_accounts (settled_tree g) = [eddie \<mapsto> account_new 1 100300 eddie]"
    and "app_payments (on_chain g) = [(addr 9, 100000)]"
  by (rule settled_ledger) (rule that, auto simp: at_rest_def)

text \<open>The block settled and not yet paid out.\<close>

lemma unpaid_deployment:
  obtains g where "history toy_avm toy g" and "collision_free (sha256 toy) (hashed_strings g)"
    and "dues g = [(addr 9, 100000)]" and "app_payments (on_chain g) = []"
proof -
  obtain blk l where blk: "get_block toy eddie_stxns toy_ledger = Inr (blk, l)"
    and size: "length (batch_encode (block_batch blk)) < 2 ^ 64" "length (sidecar_encode (block_sidecar blk)) < 2 ^ 64"
    and items: "batch_inbox_items (block_batch blk) = next_items with_deposit 1"
    and paid: "withdrawal_payouts (block_batch blk) (block_sidecar blk) = [(addr 9, 100000)]"
    and cf: "collision_free (sha256 toy) (block_strings toy_avm toy with_deposit blk)"
    by (rule eddie_block_facts)
  have same: "same_hash toy_avm toy" by simp
  from built_block_in_step [OF history_inbox_told [OF history_funded same] history_kept [OF history_funded] toy_ledger_facts(1)
      eddie_stxns_wf blk size funded_rest funded_ready(5,6) items]
  obtain s where s: "for_block toy blk = Inr s" "in_step toy_avm (on_chain with_deposit) 1 s" "settlement_batch_length s < 2 ^ 64"
    and guest: "guest_main toy (bytes_of (block_domain blk)) (bytes_of (block_old_root blk)) (bytes_of (block_old_inbox_chain blk))
      (batch_encode (block_batch blk)) (sidecar_encode (block_sidecar blk)) = Inr (settlement_public_values s)" by blast
  note wire = built_block_wire [OF toy_ledger_facts(1) eddie_stxns_wf blk size]
  from block_settles_in_history [OF history_funded same s(1,2) funded_ready(1-3) s(3) guest wire(1,2), where word = zero32]
  obtain g where "history toy_avm toy g" "dues g = [(addr 9, 100000)]"
    "hashed_strings g = block_strings toy_avm toy with_deposit blk" "app_payments (on_chain g) = app_payments (on_chain with_deposit)"
    unfolding paid by blast
  with cf that show ?thesis by (simp add: with_deposit_def funded_defs)
qed

text \<open>The council calls the escape.\<close>

definition council :: call where "council = \<lparr>call_sender = addr 4, call_round = 2\<rparr>"

lemma council_escapes:
  assumes "security_council c = addr 4" and "\<not> escaped c"
  obtains c' where "perform toy_avm council SecurityCouncilEscape c = Inr c'" and "escaped c'" and "exits c' = exits c"
proof -
  from assms obtain c' where c': "perform toy_avm council SecurityCouncilEscape c = Inr c'"
    by (simp add: council_def security_council_escape_def assert_security_council_def require_def ensure_def Let_def)
  show ?thesis by (rule that [OF c']) (use perform_effect [OF c'] in \<open>auto simp: effect_defs\<close>)
qed

lemma escaped_deployment:
  obtains g where "history toy_avm toy g" and "escaped (on_chain g)" and "exits (on_chain g) = Map.empty"
    and "collision_free (sha256 toy) (hashed_strings g)"
    and "tree_accounts (settled_tree g) = [eddie \<mapsto> account_new 1 100300 eddie]"
proof -
  obtain g where g: "history toy_avm toy g" "\<not> escaped (on_chain g)" "security_council (on_chain g) = addr 4"
    "exits (on_chain g) = Map.empty" "collision_free (sha256 toy) (hashed_strings g)"
    "tree_accounts (settled_tree g) = [eddie \<mapsto> account_new 1 100300 eddie]"
    by (rule settled_deployment)
  obtain c' where c': "perform toy_avm council SecurityCouncilEscape (on_chain g) = Inr c'"
    and out: "escaped c'" "exits c' = exits (on_chain g)"
    by (rule council_escapes [OF g(3,2)])
  have "history toy_avm toy (record_call (sha256 toy) SecurityCouncilEscape c' g)"
    by (rule history.called [OF g(1) _ c']) simp
  then show ?thesis using that g out by simp
qed

text \<open>The block a sequencer would build of the waiting deposit alone.\<close>

definition service_ready :: "panic + block \<times> ledger \<Rightarrow> bool" where
  "service_ready r = (case r of Inl _ \<Rightarrow> False | Inr (blk, l) \<Rightarrow>
     batch_encode (block_batch blk) \<noteq> [] \<and> length (batch_encode (block_batch blk)) < 500
     \<and> collision_free toy_hash (eddie_strings blk))"

definition served_block :: "panic + block \<times> ledger" where
  "served_block = get_block toy [item_transaction (InboxDeposit eddie 200300)] toy_ledger"

lemma served_block_ready: "service_ready served_block"
  by code_simp

lemma served_strings:
  assumes "inbox_block toy with_deposit 1 toy_ledger = Inr (blk, l)"
  shows "collision_free (sha256 toy) (block_strings toy_avm toy with_deposit blk)"
proof -
  from assms have blk: "get_block toy [item_transaction (InboxDeposit eddie 200300)] toy_ledger = Inr (blk, l)"
    by (simp add: funded_items)
  with served_block_ready have facts: "batch_encode (block_batch blk) \<noteq> []"
      "length (batch_encode (block_batch blk)) < 500" "collision_free toy_hash (eddie_strings blk)"
    by (simp_all add: service_ready_def served_block_def)
  have "block_domain blk = toy_domain" using get_block_claims(2) [OF toy_ledger_facts(1) blk] by simp
  from funded_strings [OF this facts(1)] facts(2) show ?thesis
    by (intro collision_free_mono [OF facts(3) [folded toy_simps(1)]]) simp
qed

section \<open>Two accounts on 127 bits\<close>

text \<open>
  A hash that reads three bytes is enough to keep apart what a tree of two such accounts hashes: on
  the way up the left child's first byte counts the levels.
\<close>

lemma collision_free_distinct:
  "distinct (map H xs) \<Longrightarrow> zero32 \<notin> set (map H xs) \<Longrightarrow> collision_free H xs"
  by (auto simp: collision_free_def list_all_iff distinct_map image_iff dest: inj_onD)

lemma b32_eq_iff: "length xs = 32 \<Longrightarrow> length ys = 32 \<Longrightarrow> b32 xs = b32 ys \<longleftrightarrow> xs = ys"
  by (metis bytes_of_b32)

lemma b32_not_zero: "length bs = 32 \<Longrightarrow> bs ! 1 \<noteq> 0 \<Longrightarrow> zero32 \<noteq> b32 bs"
  by (metis bytes_of_b32 bytes_of_zero32 nth_replicate one_less_numeral_iff semiring_norm(76))

definition level_hash :: hash_fn where
  "level_hash bs = b32 ((bs ! 4 + 1) # bs ! 0 # bs ! 19 # replicate 29 1)"

definition level_word :: "nat \<Rightarrow> bytes32" where
  "level_word k = b32 ((2 + of_nat k) # 78 # 1 # replicate 29 1)"

definition near_zero :: address where "near_zero = b32 (replicate 15 0 @ 1 # replicate 16 0)"

definition zero_account :: account where
  "zero_account = account_new 1 100300 (address_from_public_key level_hash Ed25519 eddie_key)"

definition crowd_tree :: sparse_merkle_tree where
  "crowd_tree = update level_hash (update level_hash tree_new zero32 (Some zero_account)) near_zero (Some (account_new 0 1 near_zero))"

lemma near_prefix: "common_prefix_len zero32 near_zero = 127"
  by code_simp

lemma bytes_of_level_word [simp]: "bytes_of (level_word k) = (2 + of_nat k) # 78 # 1 # replicate 29 1"
  by (simp add: level_word_def)

lemma level_hash_climb: "level_hash (node_preimage (level_word k) s) = level_word (Suc k)"
  by (simp add: level_hash_def node_preimage_def ascii_def level_word_def add.commute nth_append)

lemma zero32_bits [simp]: "d < 256 \<Longrightarrow> bit_at zero32 d = 0"
  by (simp add: bit_at_def)

lemma wrapped_levels:
  assumes "hash_of level_hash t = level_word 0" and "d \<le> 127"
  shows "hash_of level_hash (wrap level_hash zero32 d 127 t) = level_word (127 - d)
    \<and> set (tree_preimages level_hash (wrap level_hash zero32 d 127 t))
      = set (tree_preimages level_hash t) \<union> (\<lambda>k. node_preimage (level_word k) zero32) ` {..<127 - d}"
  using assms(2)
proof (induction rule: inc_induct)
  case (step n)
  then have "127 - n = Suc (127 - Suc n)" by simp
  with step show ?case
    by (simp add: wrap_step branch_def node_hash_def level_hash_climb EMPTY_SUBTREE_def lessThan_Suc)
qed (simp add: assms(1))


lemma near_not_zero [simp]: "near_zero \<noteq> zero32" "zero32 \<noteq> near_zero"
  using near_prefix by auto

lemma crowd_tree_facts:
  "wf_tree level_hash crowd_tree"
  "tree_accounts crowd_tree = [zero32 \<mapsto> zero_account, near_zero \<mapsto> account_new 0 1 near_zero]"
  "crowded (tree_accounts crowd_tree) zero32 127"
proof -
  show "wf_tree level_hash crowd_tree" by (simp add: crowd_tree_def wf_tree_update)
  show accs: "tree_accounts crowd_tree = [zero32 \<mapsto> zero_account, near_zero \<mapsto> account_new 0 1 near_zero]"
    by (simp add: crowd_tree_def wf_tree_update)
  show "crowded (tree_accounts crowd_tree) zero32 127" by (rule crowdedI [of near_zero]) (simp_all add: accs near_prefix)
qed

lemma leaf_words:
  "level_hash (leaf_preimage zero32 x) = b32 (1 # 76 # 0 # replicate 29 1)"
  "level_hash (leaf_preimage near_zero x) = b32 (1 # 76 # 1 # replicate 29 1)"
  by (simp_all add: level_hash_def leaf_preimage_def ascii_def near_zero_def nth_append)

lemma fork_word: "node_hash level_hash (b32 (1 # 76 # 0 # replicate 29 1)) h = level_word 0"
  by (simp add: node_hash_def level_hash_def node_preimage_def level_word_def ascii_def nth_append)

definition crowd_strings :: "byte list list" where
  "crowd_strings = [leaf_preimage zero32 zero_account, leaf_preimage near_zero (account_new 0 1 near_zero),
     node_preimage (b32 (1 # 76 # 0 # replicate 29 1)) (b32 (1 # 76 # 1 # replicate 29 1))]
     @ map (\<lambda>k. node_preimage (level_word k) zero32) [0..<127]"

lemma crowd_tree_strings: "set (tree_preimages level_hash (tree_root crowd_tree)) = set crowd_strings"
proof -
  let ?a = "Leaf zero32 zero_account" and ?b = "Leaf near_zero (account_new 0 1 near_zero)"
  let ?t = "branch level_hash ?a ?b"
  have "tree_root crowd_tree = wrap level_hash zero32 0 127 ?t"
    by (simp add: crowd_tree_def update_def tree_new_def split_node_wrap near_prefix)
  moreover have "hash_of level_hash ?t = level_word 0" by (simp add: leaf_hash_def leaf_words fork_word)
  ultimately show ?thesis
    using wrapped_levels [of ?t 0] by (auto simp: branch_def leaf_hash_def leaf_words crowd_strings_def)
qed

lemma level_word_inject: "level_word j = level_word k \<longleftrightarrow> (of_nat j :: byte) = of_nat k"
  by (metis add_left_cancel bytes_of_level_word level_word_def list.inject)

lemma levels_distinct: "distinct (map level_word [0..<128])"
  by (auto simp: distinct_map inj_on_def level_word_inject word_of_nat_eq_iff take_bit_nat_eq_self)

lemma crowd_strings_apart: "collision_free level_hash crowd_strings"
proof -
  have climbs: "map (\<lambda>k. level_hash (node_preimage (level_word k) zero32)) [0..<127] = map level_word [Suc 0..<128]"
    by (rule nth_equalityI) (simp_all add: level_hash_climb)
  have "map level_hash crowd_strings
      = [b32 (1 # 76 # 0 # replicate 29 1), b32 (1 # 76 # 1 # replicate 29 1)] @ map level_word [0..<128]"
    using fork_word climbs by (simp add: crowd_strings_def leaf_words node_hash_def upt_conv_Cons [of 0 128] comp_def)
  note hashes = this
  have apart: "b32 (1 # 76 # i # replicate 29 1) \<noteq> level_word k" "level_word k \<noteq> b32 (1 # 76 # i # replicate 29 1)"
    "b32 (1 # 76 # 0 # replicate 29 1) \<noteq> b32 (1 # 76 # 1 # replicate 29 1)" for i k
    by (simp_all add: level_word_def b32_eq_iff)
  have nonzero: "zero32 \<noteq> level_word k" "zero32 \<noteq> b32 (1 # 76 # i # replicate 29 1)" for i k
    by (simp_all add: level_word_def b32_not_zero)
  show ?thesis
  proof (rule collision_free_distinct)
    show "distinct (map level_hash crowd_strings)" unfolding hashes using apart levels_distinct by auto
    show "zero32 \<notin> set (map level_hash crowd_strings)" unfolding hashes using nonzero by auto
  qed
qed

definition crowd_avm :: avm where "crowd_avm = toy_avm\<lparr>avm_sha256 := level_hash\<rparr>"
definition crowd_primitives :: primitives where "crowd_primitives = toy\<lparr>sha256 := level_hash\<rparr>"

definition crowd_contract :: contract where
  "crowd_contract = (on_chain deployed)\<lparr>escaped := True, contract_root := root level_hash crowd_tree, app_balance := 200000\<rparr>"

lemma crowd_simps [simp]:
  "same_hash crowd_avm crowd_primitives" "sha256 crowd_primitives = level_hash"
  by (simp_all add: same_hash_def crowd_avm_def crowd_primitives_def)

lemma crowd_honest_exit:
  "\<exists>c'. force_exit crowd_avm zero32 1 100300 (auth_address zero_account) SCHEME_ED25519 eddie_key (7 # replicate 63 0) (addr 9)
     (concat (map bytes_of (siblings (tree_proof level_hash crowd_tree zero32)))) crowd_contract = Inr c'"
proof -
  have held: "tree_accounts crowd_tree zero32 = Some (account_new 1 100300 (auth_address zero_account))"
    by (simp add: crowd_tree_facts zero_account_def account_new_def)
  have "verify_proof (sha256 crowd_primitives) (contract_root crowd_contract) zero32
      (Some (account_new 1 100300 (auth_address zero_account))) (from_parts (siblings (tree_proof level_hash crowd_tree zero32)) Own)"
    using root_from_tree_proof [OF crowd_tree_facts(1), of zero32] held
    by (simp add: crowd_contract_def tree_proof_own [OF crowd_tree_facts(1) held] verify_proof_def del: tree_proof_parts)
  from force_exit_accepts [OF crowd_simps(1) _ _ this, of eddie_key "addr 9" "7 # replicate 63 0"]
  show ?thesis
    by (simp add: crowd_contract_def funded_defs crowd_avm_def zero_account_def account_new_def toy_avm_def del: tree_proof_parts) blast
qed

lemma crowd_exit_strings:
  "collision_free level_hash (exit_strings level_hash crowd_tree zero32 (account_new 1 100300 (auth_address zero_account))
     (concat (map bytes_of (siblings (tree_proof level_hash crowd_tree zero32)))))"
proof (rule collision_free_mono [OF crowd_strings_apart])
  have "tree_accounts crowd_tree zero32 = Some (account_new 1 100300 (auth_address zero_account))"
    by (simp add: crowd_tree_facts zero_account_def account_new_def)
  from own_exit_strings [OF crowd_tree_facts(1) this]
  show "set (exit_strings level_hash crowd_tree zero32 (account_new 1 100300 (auth_address zero_account))
     (concat (map bytes_of (siblings (tree_proof level_hash crowd_tree zero32))))) \<subseteq> set crowd_strings"
    by (simp add: crowd_tree_strings)
qed

end
