(* ===== verification/Contract_Bank.thy ===== *)
theory Contract_Bank
  imports Contract_Runs "HOL-Library.Sublist"
begin

text \<open>
  The contract as a bank. What the contract is for, with neither roots nor chains nor proofs: settled
  accounts, a queue of what arrived, batches of specified transactions that take entries off it,
  payouts made in order, and once it closes, exits. Short of a collision every history of the contract
  is a run of this bank, so what holds of the bank holds of every deployment.
\<close>

section \<open>The bank\<close>

record bank =
  bank_accounts :: account_map
  bank_inbox :: "inbox_item list"
  bank_settled :: nat
  bank_made :: "(l1_address \<times> u64) list"
  bank_due :: "(l1_address \<times> u64) list"
  bank_exited :: "address \<rightharpoonup> u64"
  bank_open :: bool

definition bank_new :: bank where
  "bank_new = \<lparr>bank_accounts = Map.empty, bank_inbox = [], bank_settled = 0, bank_made = [], bank_due = [],
     bank_exited = Map.empty, bank_open = True\<rparr>"

inductive bank_step :: "primitives \<Rightarrow> deployment_domain \<Rightarrow> bank \<Rightarrow> bank \<Rightarrow> bool" for P domain where
  arrive: "bank_open b \<Longrightarrow> bank_step P domain b (b\<lparr>bank_inbox := bank_inbox b @ [i]\<rparr>)"
| settle: "bank_open b \<Longrightarrow> bank_due b = [] \<Longrightarrow> bank_settled b \<le> n \<Longrightarrow> n \<le> length (bank_inbox b) \<Longrightarrow>
    spec_txns P domain xs \<lparr>spec_accounts = bank_accounts b, spec_items = [], spec_payouts = []\<rparr> = Inr st \<Longrightarrow>
    spec_items st = drop (bank_settled b) (take n (bank_inbox b)) \<Longrightarrow>
    bank_step P domain b (b\<lparr>bank_accounts := spec_accounts st, bank_settled := n, bank_due := spec_payouts st\<rparr>)"
| pay: "bank_due b = p # ps \<Longrightarrow> bank_step P domain b (b\<lparr>bank_made := bank_made b @ [p], bank_due := ps\<rparr>)"
| close: "bank_open b \<Longrightarrow> bank_step P domain b (b\<lparr>bank_open := False\<rparr>)"
| leave: "\<not> bank_open b \<Longrightarrow> bank_accounts b a = Some acc \<Longrightarrow> bank_exited b a = None \<Longrightarrow>
    bank_step P domain b (b\<lparr>bank_exited := (bank_exited b)(a \<mapsto> amount acc)\<rparr>)"

abbreviation bank_run :: "primitives \<Rightarrow> deployment_domain \<Rightarrow> bank \<Rightarrow> bool" where
  "bank_run P domain b \<equiv> (bank_step P domain)\<^sup>*\<^sup>* bank_new b"

section \<open>What holds of the bank\<close>

text \<open>
  Everything ever deposited by a settled entry is on an account, due or paid; nobody leaves while the
  bank is open, and whoever left took exactly what the account held.
\<close>

definition bank_sound :: "bank \<Rightarrow> bool" where
  "bank_sound b \<longleftrightarrow>
     finite (dom (bank_accounts b)) \<and> bank_settled b \<le> length (bank_inbox b)
     \<and> total (bank_accounts b) + paid_out (bank_made b) + paid_out (bank_due b)
         = deposited (take (bank_settled b) (bank_inbox b))
     \<and> (bank_open b \<longrightarrow> bank_exited b = Map.empty)
     \<and> (\<forall>a amt. bank_exited b a = Some amt \<longrightarrow> (\<exists>acc. bank_accounts b a = Some acc \<and> amount acc = amt))"

lemma bank_step_sound:
  assumes "bank_step P domain b b'" and "bank_sound b"
  shows "bank_sound b'"
  using assms
proof (induction rule: bank_step.induct)
  case (settle b n xs st)
  have kept: "total (spec_accounts st) + paid_out (spec_payouts st) = total (bank_accounts b) + deposited (spec_items st)"
    "finite (dom (spec_accounts st))"
    using spec_txns_conserves [OF settle(5)] settle.prems by (simp_all add: bank_sound_def)
  have "take (bank_settled b) (take n (bank_inbox b)) = take (bank_settled b) (bank_inbox b)"
    using settle(3) by (simp add: min_def)
  then have "take n (bank_inbox b) = take (bank_settled b) (bank_inbox b) @ spec_items st"
    by (metis append_take_drop_id settle(6))
  then have "deposited (take n (bank_inbox b)) = deposited (take (bank_settled b) (bank_inbox b)) + deposited (spec_items st)"
    by simp
  moreover have "bank_exited b = Map.empty" using settle(1) settle.prems by (simp add: bank_sound_def)
  ultimately show ?case using settle(2,4) settle.prems kept by (simp add: bank_sound_def)
next
  case (pay b p ps)
  then show ?case by (cases p) (simp add: bank_sound_def)
next
  case (leave b a acc)
  then show ?case by (simp add: bank_sound_def)
qed (simp_all add: bank_sound_def)

lemma bank_run_sound: "bank_run P domain b \<Longrightarrow> bank_sound b"
proof (induction rule: rtranclp_induct)
  case base
  show ?case by (simp add: bank_sound_def bank_new_def total_def)
next
  case (step b b')
  from bank_step_sound [OF step(2,3)] show ?case .
qed

section \<open>The contract is one\<close>

definition shows_bank :: "chronicle \<Rightarrow> bank \<Rightarrow> bool" where
  "shows_bank g b \<longleftrightarrow>
     bank_accounts b = tree_accounts (settled_tree g) \<and> bank_inbox b = arrived g
     \<and> bank_settled b = unat (settled_inbox_cursor (on_chain g)) \<and> bank_due b = dues g
     \<and> bank_exited b = exits (on_chain g) \<and> bank_open b = (\<not> escaped (on_chain g))
     \<and> subseq (bank_made b) (app_payments (on_chain g))"

lemma subseq_more: "subseq xs ys \<Longrightarrow> subseq xs (ys @ zs)"
  by (metis append_Nil2 list_emb_Nil list_emb_append_mono)

lemma subseq_snoc: "subseq xs ys \<Longrightarrow> subseq (xs @ [p]) (ys @ [p])"
  by (simp add: list_emb_append_mono)

text \<open>Calls the bank does not see, and the two that close it.\<close>

lemma shows_bank_still:
  assumes "shows_bank g b" and "settled_tree g' = settled_tree g" "arrived g' = arrived g" "dues g' = dues g"
    and "settled_inbox_cursor (on_chain g') = settled_inbox_cursor (on_chain g)" "exits (on_chain g') = exits (on_chain g)"
    and "escaped (on_chain g') = escaped (on_chain g)" "\<exists>ps. app_payments (on_chain g') = app_payments (on_chain g) @ ps"
  shows "shows_bank g' b"
  using assms by (auto simp: shows_bank_def intro: subseq_more)

fun bank_sees :: "contract_call \<Rightarrow> bool" where
  "bank_sees (MakeDeposit payment recipient) = True"
| "bank_sees (RequestWithdrawal payment n address recipient scheme key sig) = True"
| "bank_sees (PayWithdrawal recipient amt tail) = True"
| "bank_sees (ForceExit address n amt auth scheme key sig recipient sibs) = True"
| "bank_sees (VerifyBatch verifier signals vals) = True"
| "bank_sees SecurityCouncilEscape = True"
| "bank_sees ExecuteEscape = True"
| "bank_sees _ = False"

lemma unseen_call:
  assumes "shows_bank g b" and "perform A t m (on_chain g) = Inr c'" and "\<not> bank_sees m"
  shows "shows_bank (record_call (sha256 P) m c' g) b"
proof (rule shows_bank_still [OF assms(1)])
  show "settled_tree (record_call (sha256 P) m c' g) = settled_tree g" "arrived (record_call (sha256 P) m c' g) = arrived g"
    "dues (record_call (sha256 P) m c' g) = dues g"
    using assms(3) by (cases m; simp)+
  have "settled_inbox_cursor c' = settled_inbox_cursor (on_chain g) \<and> exits c' = exits (on_chain g)
      \<and> escaped c' = escaped (on_chain g) \<and> (\<exists>ps. app_payments c' = app_payments (on_chain g) @ ps)"
    using perform_effect [OF assms(2)] assms(3) by (cases m) (auto simp: effect_defs)
  then show "settled_inbox_cursor (on_chain (record_call (sha256 P) m c' g)) = settled_inbox_cursor (on_chain g)"
    "exits (on_chain (record_call (sha256 P) m c' g)) = exits (on_chain g)"
    "escaped (on_chain (record_call (sha256 P) m c' g)) = escaped (on_chain g)"
    "\<exists>ps. app_payments (on_chain (record_call (sha256 P) m c' g)) = app_payments (on_chain g) @ ps" by simp_all
qed

lemma arriving_call:
  assumes bank: "shows_bank g b" and live: "\<not> escaped (on_chain g)"
    and item: "record_item entry = Some i"
    and c': "c' = appended next_index paid charge entry (on_chain g)
      \<or> (\<exists>n. c' = (appended next_index paid charge entry (on_chain g))\<lparr>request_cursor := n\<rparr>)"
  shows "\<exists>b'. (bank_step P d)\<^sup>=\<^sup>= b b' \<and> shows_bank (g\<lparr>on_chain := c', arrived := arrived g @ appended_items (on_chain g) c'\<rparr>) b'"
proof -
  have "appended_items (on_chain g) c' = [i]" using c' item by (auto simp: appended_items_def appended_def)
  moreover have "bank_step P d b (b\<lparr>bank_inbox := bank_inbox b @ [i]\<rparr>)"
    by (rule bank_step.arrive) (use bank live in \<open>simp add: shows_bank_def\<close>)
  moreover have "shows_bank (g\<lparr>on_chain := c', arrived := arrived g @ [i]\<rparr>) (b\<lparr>bank_inbox := bank_inbox b @ [i]\<rparr>)"
    using bank c' by (auto simp: shows_bank_def appended_def)
  ultimately show ?thesis by auto
qed

lemma closing_call:
  assumes bank: "shows_bank g b" and c': "escaped c'" "settled_inbox_cursor c' = settled_inbox_cursor (on_chain g)"
      "exits c' = exits (on_chain g)" "app_payments c' = app_payments (on_chain g)"
  shows "\<exists>b'. (bank_step P d)\<^sup>=\<^sup>= b b' \<and> shows_bank (g\<lparr>on_chain := c'\<rparr>) b'"
proof (cases "bank_open b")
  case True
  from bank_step.close [OF this] bank c' show ?thesis
    by (intro exI [of _ "b\<lparr>bank_open := False\<rparr>"]) (simp add: shows_bank_def)
next
  case False
  with bank c' show ?thesis by (intro exI [of _ b]) (simp add: shows_bank_def)
qed

lemma paying_call:
  assumes bank: "shows_bank g b" and told: "dues_told A P g" and same: "same_hash A P"
    and ok: "pay_withdrawal A t recipient amt tail (on_chain g) = Inr c'"
    and cf: "collision_free (sha256 P) (hashed_strings (record_call (sha256 P) (PayWithdrawal recipient amt tail) c' g))"
  shows "\<exists>b'. bank_step P d b b' \<and> shows_bank (record_call (sha256 P) (PayWithdrawal recipient amt tail) c' g) b'"
proof -
  from pay_withdrawal_effect [OF ok] obtain left deadline progress where
    head: "pending_withdrawals (on_chain g) = Some (avm_sha256 A (payout_step tail (recipient, amt)))"
    and c': "c' = (on_chain g)\<lparr>pending_withdrawals := (if tail = withdrawal_terminal A then None else Some tail),
     escape_deadline := deadline, escape_progress := progress,
     app_balance := left, app_payments := app_payments (on_chain g) @ [(recipient, amt)]\<rparr>"
    by (elim exE conjE) (rule that)
  from payout_is_due [OF told same _ cf [simplified]] head same obtain ps where due: "dues g = (recipient, amt) # ps"
    by (auto simp: same_hash_def)
  let ?b = "b\<lparr>bank_made := bank_made b @ [(recipient, amt)], bank_due := ps\<rparr>"
  have "bank_step P d b ?b" by (rule bank_step.pay) (use bank due in \<open>simp add: shows_bank_def\<close>)
  moreover have "shows_bank (record_call (sha256 P) (PayWithdrawal recipient amt tail) c' g) ?b"
    using bank due by (simp add: shows_bank_def c' subseq_snoc)
  ultimately show ?thesis by blast
qed

lemma leaving_call:
  assumes bank: "shows_bank g b" and told: "dues_told A P g" and same: "same_hash A P"
    and ok: "force_exit A address n amt auth scheme key sig recipient sibs (on_chain g) = Inr c'"
    and cf: "collision_free (sha256 P)
      (hashed_strings (record_call (sha256 P) (ForceExit address n amt auth scheme key sig recipient sibs) c' g))"
  shows "\<exists>b'. bank_step P d b b' \<and> shows_bank (record_call (sha256 P) (ForceExit address n amt auth scheme key sig recipient sibs) c' g) b'"
proof -
  from force_exit_effect [OF ok] obtain left charge payout where escaped: "escaped (on_chain g)" and
    exit: "exits (on_chain g) address = None" "length sibs div 32 \<le> 256"
      "exit_climb A address sibs (length sibs div 32)
        (avm_sha256 A (leaf_preimage address (account_new n amt auth))) = contract_root (on_chain g)"
    and c': "c' = (on_chain g)\<lparr>exits := (exits (on_chain g))(address \<mapsto> amt),
      app_min_balance := app_min_balance (on_chain g) + charge,
      app_balance := left, app_payments := app_payments (on_chain g) @ [(recipient, payout)]\<rparr>"
    by (elim exE conjE) (rule that)
  have "collision_free (sha256 P) (exit_strings (sha256 P) (settled_tree g) address (account_new n amt auth) sibs)"
    by (rule collision_free_mono [OF cf]) auto
  from exit_is_held [OF told same exit(3,2) this]
  have held: "tree_accounts (settled_tree g) address = Some (account_new n amt auth)" .
  let ?b = "b\<lparr>bank_exited := (bank_exited b)(address \<mapsto> amount (account_new n amt auth))\<rparr>"
  have "bank_step P d b ?b"
    by (rule bank_step.leave) (use bank held exit(1) escaped in \<open>simp_all add: shows_bank_def\<close>)
  moreover have "shows_bank (record_call (sha256 P) (ForceExit address n amt auth scheme key sig recipient sibs) c' g) ?b"
    using bank by (simp add: shows_bank_def c' account_new_def subseq_more)
  ultimately show ?thesis by blast
qed

text \<open>Every call is a step of the bank, or none.\<close>

lemma call_shows_bank:
  assumes bank: "shows_bank g b" and told: "dues_told A P g" and same: "same_hash A P"
    and ok: "perform A t m (on_chain g) = Inr c'" and "\<not> settles m"
    and cf: "collision_free (sha256 P) (hashed_strings (record_call (sha256 P) m c' g))"
  shows "\<exists>b'. (bank_step P d)\<^sup>=\<^sup>= b b' \<and> shows_bank (record_call (sha256 P) m c' g) b'"
proof (cases m)
  case (MakeDeposit payment recipient)
  with ok obtain i where "contract_deposit A t payment recipient (on_chain g) = Inr (i, c')"
    by (auto simp: map_sum_def split: sum.splits)
  from contract_deposit_effect [OF this] obtain amt next_index where live: "\<not> escaped (on_chain g)"
    and c': "c' = appended next_index (unat (pay_amount payment)) (inbox_charge A (on_chain g))
      \<lparr>record_kind = ascii ''d'', record_address = recipient, record_recipient = zero32, record_amount = amt,
       record_payer = pay_sender payment, record_round = call_round t,
       record_chain_after = avm_sha256 A (inbox_step (live_inbox_chain (on_chain g)) (InboxDeposit recipient amt))\<rparr> (on_chain g)"
    by blast
  from arriving_call [OF bank live record_item_of_fields(1) disjI1 [OF c']] show ?thesis by (simp add: MakeDeposit)
next
  case (RequestWithdrawal payment n address recipient scheme key sig)
  with ok obtain i where "request_withdrawal A t payment n address recipient scheme key sig (on_chain g) = Inr (i, c')"
    by (auto simp: map_sum_def split: sum.splits)
  from request_withdrawal_effect [OF this] obtain next_index next_nonce where live: "\<not> escaped (on_chain g)"
    and c': "c' = (appended next_index (unat (pay_amount payment)) (inbox_charge A (on_chain g))
      \<lparr>record_kind = ascii ''w'', record_address = address, record_recipient = recipient, record_amount = 0,
       record_payer = pay_sender payment, record_round = call_round t,
       record_chain_after = avm_sha256 A (inbox_step (live_inbox_chain (on_chain g)) (InboxForcedWithdrawal address recipient))\<rparr> (on_chain g))
      \<lparr>request_cursor := next_nonce\<rparr>"
    by blast
  have "\<exists>n. c' = (appended next_index (unat (pay_amount payment)) (inbox_charge A (on_chain g))
      \<lparr>record_kind = ascii ''w'', record_address = address, record_recipient = recipient, record_amount = 0,
       record_payer = pay_sender payment, record_round = call_round t,
       record_chain_after = avm_sha256 A (inbox_step (live_inbox_chain (on_chain g)) (InboxForcedWithdrawal address recipient))\<rparr> (on_chain g))
      \<lparr>request_cursor := n\<rparr>"
    using c' by blast
  from arriving_call [OF bank live record_item_of_fields(2) disjI2 [OF this]] show ?thesis by (simp add: RequestWithdrawal)
next
  case (PayWithdrawal recipient amt tail)
  with ok have "pay_withdrawal A t recipient amt tail (on_chain g) = Inr c'" by simp
  from paying_call [OF bank told same this cf [unfolded PayWithdrawal], of d] show ?thesis unfolding PayWithdrawal by blast
next
  case (ForceExit address n amt auth scheme key sig recipient sibs)
  with ok have "force_exit A address n amt auth scheme key sig recipient sibs (on_chain g) = Inr c'" by simp
  from leaving_call [OF bank told same this cf [unfolded ForceExit], of d] show ?thesis unfolding ForceExit by blast
next
  case SecurityCouncilEscape
  from perform_effect [OF ok] show ?thesis
    unfolding SecurityCouncilEscape record_call.simps by (intro closing_call [OF bank]) (auto simp: effect_defs)
next
  case ExecuteEscape
  from perform_effect [OF ok] show ?thesis
    unfolding ExecuteEscape record_call.simps by (intro closing_call [OF bank]) (auto simp: effect_defs)
qed (use unseen_call [OF bank ok] assms(5) in auto)

text \<open>A settlement takes the entries between the two cursors off the queue.\<close>

lemma settlement_shows_bank:
  assumes bank: "shows_bank g b" and books: "books A P g" and kept: "well_kept (on_chain g)"
    and told: "inbox_told P g" "batch_told A P g"
    and ok: "contract_verify_batch A t verifier signals vals (on_chain g) = Inr c'"
    and guest: "guest_main P domain old_root anchor batch_bytes sidecar_bytes = Inr vals"
    and decoded: "batch_decode batch_bytes = Inr bt" "sidecar_decode sidecar_bytes bt = Inr s"
    and cf: "collision_free (sha256 P) (hashed_strings (record_settlement A P (b32 domain) batch_bytes bt s c' g))"
  shows "\<exists>b'. bank_step P (contract_domain A) b b' \<and> shows_bank (record_settlement A P (b32 domain) batch_bytes bt s c' g) b'"
proof -
  have dues: "dues_told A P g" using books by (simp add: books_def)
  have "collision_free (sha256 P) (settlement_strings A P g (b32 domain) batch_bytes bt s)"
    by (rule collision_free_mono [OF cf]) (auto simp: record_settlement_def)
  note run = settlement_is_run [OF told kept dues_toldD(1,2) [OF dues] ok guest decoded this]
  note below = sealed_below [OF kept run(3)]
  from contract_verify_batch_effect [OF ok] obtain len sealed cursor deadline target progress where
    facts: "\<not> escaped (on_chain g)" "batch_length (on_chain g) = Some len"
    and c': "c' = (settled_state A vals sealed cursor (on_chain g))
         \<lparr>escape_deadline := deadline, escape_inbox_target := target, escape_progress := progress\<rparr>"
    by (elim exE conjE) (rule that)
  have "pending_withdrawals (on_chain g) = None" using well_keptD(1) [OF kept] facts(2) by (simp add: batch_kept_Some)
  then have none: "dues g = []" using dues_toldD(3) [OF dues] by (auto split: if_splits)
  have fields: "exits c' = exits (on_chain g)" "escaped c' = escaped (on_chain g)" "app_payments c' = app_payments (on_chain g)"
    by (simp_all add: c' settled_state_def delete_batch_def)
  let ?t = "merkle.track (sha256 P) (settled_tree g) (batch_events bt s)"
  let ?b = "b\<lparr>bank_accounts := tree_accounts ?t, bank_settled := unat (settled_inbox_cursor c'),
      bank_due := withdrawal_payouts bt s\<rparr>"
  have now: "bank_accounts b = tree_accounts (settled_tree g)" "bank_inbox b = arrived g" "bank_due b = []"
      "bank_settled b = unat (settled_inbox_cursor (on_chain g))" "bank_open b"
    using bank none facts(1) by (simp_all add: shows_bank_def)
  have "bank_step P (contract_domain A) b ?b"
    using bank_step.settle [OF now(5,3), of "unat (settled_inbox_cursor c')" P "contract_domain A", unfolded now, OF _ _ run(7)]
      below inbox_toldD(1) [OF told(1)] run(4)
    by (simp add: next_items_def)
  moreover have "shows_bank (record_settlement A P (b32 domain) batch_bytes bt s c' g) ?b"
    using bank by (simp add: shows_bank_def record_settlement_def fields)
  ultimately show ?thesis by blast
qed

lemma history_shows_bank:
  assumes "history A P g" and same: "same_hash A P" and "collision_free (sha256 P) (hashed_strings g)"
  shows "\<exists>b. bank_run P (contract_domain A) b \<and> shows_bank g b"
  using assms(1,3)
proof (induction rule: history.induct)
  case (created min_balance balance v p r timeout grace council delay)
  show ?case
    by (intro exI [of _ bank_new]) (simp add: shows_bank_def bank_new_def first_chronicle_def create_application_def)
next
  case (donated g n)
  then obtain b where b: "bank_run P (contract_domain A) b" "shows_bank g b" by auto
  moreover have "shows_bank (g\<lparr>on_chain := (on_chain g)\<lparr>app_balance := app_balance (on_chain g) + n\<rparr>\<rparr>) b"
    by (rule shows_bank_still [OF b(2)]) simp_all
  ultimately show ?case by blast
next
  case (called g m t c')
  have cf: "collision_free (sha256 P) (hashed_strings g)"
    by (rule collision_free_mono [OF called.prems hashed_record_call])
  with called.IH obtain b where b: "bank_run P (contract_domain A) b" "shows_bank g b" by blast
  have "dues_told A P g" using history_books [OF called.hyps(1) same cf] by (simp add: books_def)
  from call_shows_bank [OF b(2) this same called.hyps(3,2) called.prems, of "contract_domain A"] b(1)
  show ?case by (auto intro: rtranclp.rtrancl_into_rtrancl)
next
  case (settled g t verifier signals vals c' domain old_root anchor batch_bytes sidecar_bytes bt s)
  have cf: "collision_free (sha256 P) (hashed_strings g)"
    by (rule collision_free_mono [OF settled.prems hashed_record_settlement])
  with settled.IH obtain b where b: "bank_run P (contract_domain A) b" "shows_bank g b" by blast
  from settlement_shows_bank [OF b(2) history_books [OF settled.hyps(1) same cf] history_kept [OF settled.hyps(1)]
      history_inbox_told [OF settled.hyps(1) same] history_batch_told [OF settled.hyps(1) same] settled.hyps(2-5) settled.prems]
    b(1)
  show ?case by (auto intro: rtranclp.rtrancl_into_rtrancl)
qed

end
