(* ===== verification/Contract_Properties.thy ===== *)
theory Contract_Properties
  imports Contract_Example Contract_Bank
begin

text \<open>
  What the settlement contract promises, in every history a deployment can have: it can pay what it
  owes, it settles exactly what was posted, the sequencer's blocks go through it, and when the
  sequencer fails there is a way out that stays open.
\<close>

section \<open>The contract as a bank\<close>

text \<open>C2: The contract is a bank. Every history of it, whoever called whatever in whatever order, is a run of
  the bank of \<open>Contract_Bank\<close>: entries queue up while it is open, a settlement applies a specified run of
  transactions that consumes the next of them, payouts are made in the order they fell due, it closes
  once, and whoever leaves takes the settled balance once. The root on chain commits to the bank's
  accounts, and its payouts are among the payments the contract made.\<close>

theorem contract_implements_bank:
  assumes "history A P g" and "same_hash A P" and "collision_free (sha256 P) (hashed_strings g)"
  shows "\<exists>b. (bank_step P (contract_domain A))\<^sup>*\<^sup>* bank_new b
    \<and> bank_accounts b = tree_accounts (settled_tree g) \<and> contract_root (on_chain g) = root (sha256 P) (settled_tree g)
    \<and> bank_inbox b = arrived g \<and> bank_settled b = unat (settled_inbox_cursor (on_chain g))
    \<and> bank_due b = dues g \<and> bank_exited b = exits (on_chain g) \<and> bank_open b = (\<not> escaped (on_chain g))
    \<and> subseq (bank_made b) (app_payments (on_chain g))"
  using history_shows_bank [OF assms] history_books [OF assms] by (auto simp: shows_bank_def books_def dues_told_def)

lemma contract_implements_bank_witness:
  "\<exists>g b. history toy_avm toy g \<and> (bank_step toy toy_domain)\<^sup>*\<^sup>* bank_new b \<and> bank_accounts b eddie = Some (account_new 1 100300 eddie)
     \<and> bank_open b"
proof -
  obtain g where g: "history toy_avm toy g" "\<not> escaped (on_chain g)" "collision_free (sha256 toy) (hashed_strings g)"
    "tree_accounts (settled_tree g) = [eddie \<mapsto> account_new 1 100300 eddie]"
    by (rule settled_deployment)
  from contract_implements_bank [OF g(1) _ g(3)] g show ?thesis by auto
qed

text \<open>C4: Nothing is lost and nothing is made over the life of a deployment: what the settled accounts hold,
  with the payouts made and those still due, is what the consumed deposits brought in, to the
  microalgo; the payouts are among the payments of the contract, and whoever exited took exactly the
  settled balance.\<close>

theorem lifetime_conservation:
  assumes "history A P g" and "same_hash A P" and "collision_free (sha256 P) (hashed_strings g)"
  shows "\<exists>made. subseq made (app_payments (on_chain g))
    \<and> total (tree_accounts (settled_tree g)) + paid_out made + paid_out (dues g) = deposited (settled_items g)
    \<and> (\<forall>a amt. exits (on_chain g) a = Some amt \<longrightarrow> (\<exists>acc. tree_accounts (settled_tree g) a = Some acc \<and> amount acc = amt))"
proof -
  obtain b where run: "bank_run P (contract_domain A) b" and b: "shows_bank g b"
    using history_shows_bank [OF assms] by blast
  from bank_run_sound [OF run] b show ?thesis
    by (intro exI [of _ "bank_made b"]) (simp add: bank_sound_def shows_bank_def settled_items_def)
qed

lemma lifetime_conservation_witness:
  "\<exists>g made. history toy_avm toy g \<and> subseq made [(addr 9, 100000)]
     \<and> total (tree_accounts (settled_tree g)) + paid_out made + paid_out (dues g) = deposited (settled_items g)"
proof -
  obtain g where g: "history toy_avm toy g" "collision_free (sha256 toy) (hashed_strings g)" "app_payments (on_chain g) = [(addr 9, 100000)]"
    by (rule settled_deployment)
  from lifetime_conservation [OF g(1) _ g(2)] g show ?thesis by auto
qed

section \<open>Money\<close>

text \<open>C3: Solvency of the contract. In every history, whoever called whatever, its account holds beyond
  the minimum the network asks for: every balance of the settled accounts not yet exited, every
  payout of the last batch not yet made, and every deposit no batch has consumed and nobody has
  reclaimed. Its root commits to those accounts and its pending chain to those payouts.\<close>

theorem contract_stays_solvent:
  assumes "history A P g" and "same_hash A P" and "collision_free (sha256 P) (hashed_strings g)"
  shows "app_min_balance (on_chain g) + (total (tree_accounts (settled_tree g) |` {a. exits (on_chain g) a = None})
      + paid_out (dues g) + unsettled_deposits (on_chain g)) \<le> app_balance (on_chain g)
    \<and> contract_root (on_chain g) = root (sha256 P) (settled_tree g)
    \<and> pending_withdrawals (on_chain g)
        = (if dues g = [] then None else Some (withdrawal_chain (sha256 P) (contract_domain A) (dues g)))"
  using history_books [OF assms] by (simp add: books_def dues_told_def solvent_def owed_def unexited_def)

lemma contract_stays_solvent_witness:
  "\<exists>g. history toy_avm toy g \<and> app_payments (on_chain g) = [(addr 9, 100000)]
     \<and> app_min_balance (on_chain g) + total (tree_accounts (settled_tree g)) \<le> app_balance (on_chain g)"
proof -
  obtain g where "history toy_avm toy g" "exits (on_chain g) = Map.empty" "collision_free (sha256 toy) (hashed_strings g)"
    "app_payments (on_chain g) = [(addr 9, 100000)]"
    by (rule settled_deployment)
  with contract_stays_solvent [of toy_avm toy g] show ?thesis by auto
qed

text \<open>C17: Whatever anyone calls in whatever history, no payment the contract makes fails for want of
  money: not a payout, not an exit, not a refund of a box, not a reclaimed deposit.\<close>

theorem contract_never_overspends:
  assumes "history A P g" and "same_hash A P" and "collision_free (sha256 P) (hashed_strings g @ call_strings P m g)"
  shows "perform A t m (on_chain g) \<noteq> Inl Overspent"
proof -
  have "collision_free (sha256 P) (hashed_strings g)" "collision_free (sha256 P) (call_strings P m g)"
    by (rule collision_free_mono [OF assms(3)], simp)+
  from perform_funds [OF history_books [OF assms(1,2) this(1)] history_kept [OF assms(1)] assms(2) this(2)] show ?thesis .
qed

lemma contract_never_overspends_witness:
  "\<exists>g. history toy_avm toy g \<and> perform toy_avm anyone (PruneDeposit 0) (on_chain g) \<noteq> Inl Overspent"
proof -
  obtain g where g: "history toy_avm toy g" "collision_free (sha256 toy) (hashed_strings g)"
    by (rule settled_deployment)
  have "collision_free (sha256 toy) (hashed_strings g @ call_strings toy (PruneDeposit 0) g)"
    by (rule collision_free_mono [OF g(2)]) (simp add: call_strings_def)
  from contract_never_overspends [OF g(1) _ this, of anyone] g(1) show ?thesis by (meson toy_avm_simps(8))
qed

text \<open>C25: No call ever fails on a missing value, except one that names an inbox box that is not there:
  the optional values of the state are present whenever a method reads them.\<close>

theorem contract_reads_present:
  assumes "history A P g" and "perform A t m (on_chain g) = Inl MissingValue"
  shows "\<exists>i. names_box m = Some i \<and> inbox_boxes (on_chain g) i = None"
  by (rule perform_present [OF history_kept [OF assms(1)] assms(2)])

lemma contract_reads_present_witness:
  "perform toy_avm anyone (PruneDeposit 3) (on_chain with_deposit) = Inl MissingValue
     \<and> (\<exists>i. names_box (PruneDeposit 3) = Some i \<and> inbox_boxes (on_chain with_deposit) i = None)"
proof -
  have "perform toy_avm anyone (PruneDeposit 3) (on_chain with_deposit) = Inl MissingValue"
    by (simp add: prune_deposit_def present_def ok_or_def with_deposit_def funded_defs)
  with contract_reads_present [OF history_funded this] show ?thesis by simp
qed

section \<open>Settling\<close>

text \<open>C6: A settlement is exactly what was posted. Where the guest's inputs are whatever they are and
  \<open>verifyBatch\<close> returns, then, short of a collision, the batch was made for this deployment, its bytes
  are the chunks posted, it consumed exactly the inbox entries between the two cursors, and root
  and payouts are those of the specified run of its transactions on the accounts settled so far.\<close>

theorem settlement_is_exact:
  assumes "history A P g" and "same_hash A P"
    and "contract_verify_batch A t verifier signals vals (on_chain g) = Inr c'"
    and "guest_main P domain old_root anchor batch_bytes sidecar_bytes = Inr vals"
    and "batch_decode batch_bytes = Inr b" and "sidecar_decode sidecar_bytes b = Inr s"
    and "collision_free (sha256 P) (hashed_strings g @ settlement_strings A P g (b32 domain) batch_bytes b s)"
  shows "b32 domain = contract_domain A \<and> batch_bytes = concat (posted_chunks g)
    \<and> batch_inbox_items b = next_items g (settled_inbox_cursor c')
    \<and> b32 (slice 160 192 vals) = withdrawal_chain (sha256 P) (contract_domain A) (withdrawal_payouts b s)
    \<and> (\<exists>t'. wf_tree (sha256 P) t' \<and> contract_root c' = root (sha256 P) t'
        \<and> spec_txns P (contract_domain A) (batch_signed b s)
            \<lparr>spec_accounts = tree_accounts (settled_tree g), spec_items = [], spec_payouts = []\<rparr>
          = Inr \<lparr>spec_accounts = tree_accounts t', spec_items = batch_inbox_items b, spec_payouts = withdrawal_payouts b s\<rparr>)"
proof -
  have cf: "collision_free (sha256 P) (hashed_strings g)"
      "collision_free (sha256 P) (settlement_strings A P g (b32 domain) batch_bytes b s)"
    by (rule collision_free_mono [OF assms(7)], simp)+
  have "books A P g" by (rule history_books [OF assms(1,2) cf(1)])
  then have "wf_tree (sha256 P) (settled_tree g)" "contract_root (on_chain g) = root (sha256 P) (settled_tree g)"
    by (simp_all add: books_def dues_told_def)
  from settlement_is_run [OF history_inbox_told [OF assms(1,2)] history_batch_told [OF assms(1,2)] history_kept [OF assms(1)]
      this assms(3-6) cf(2)]
  show ?thesis by blast
qed

lemma settlement_is_exact_witness:
  "\<exists>g (c' :: contract) b. history toy_avm toy g \<and> batch_inbox_items b = next_items g (settled_inbox_cursor c')
     \<and> batch_decode (concat (posted_chunks g)) = Inr b"
proof -
  obtain g signals vals c' domain old_root anchor batch_bytes sidecar_bytes b s
    where g: "history toy_avm toy g" and run: "contract_verify_batch toy_avm sequencer verifier_call signals vals (on_chain g) = Inr c'"
      "guest_main toy domain old_root anchor batch_bytes sidecar_bytes = Inr vals"
      "batch_decode batch_bytes = Inr b" "sidecar_decode sidecar_bytes b = Inr s"
      "collision_free (sha256 toy) (hashed_strings g @ settlement_strings toy_avm toy g (b32 domain) batch_bytes b s)"
    by (rule posted_deployment)
  from settlement_is_exact [OF g _ run] have "batch_bytes = concat (posted_chunks g)"
    "batch_inbox_items b = next_items g (settled_inbox_cursor c')" by simp_all
  with run(3) g have "history toy_avm toy g \<and> batch_inbox_items b = next_items g (settled_inbox_cursor c')
     \<and> batch_decode (concat (posted_chunks g)) = Inr b" by simp
  then show ?thesis by blast
qed

text \<open>C5: The sequencer and the contract fit. Whatever history led there: if the contract holds the
  words and the accounts a ledger starts from, and the block that ledger builds consumes the next
  entries of the contract's inbox, then the host prepares a settlement of it, every call of that
  settlement is accepted, the batch opened, each chunk, the verification and each payout, and the
  contract ends with the words and the accounts the ledger ends with, its payouts made in order,
  ready for the next block. An escape may have been signalled: a block that is in time, before the
  deadline and over all that waited at the signal, goes through the same and lifts it.\<close>

theorem block_settles_on_chain:
  assumes "history A P g" and "same_hash A P"
    and "wf_ledger P l" and "list_all wf_signed xs" and "get_block P xs l = Inr (blk, l')"
    and "length (batch_encode (block_batch blk)) < 2 ^ 64" and "length (sidecar_encode (block_sidecar blk)) < 2 ^ 64"
    and "at_rest A P g l"
    and "unat (settled_inbox_cursor (on_chain g)) \<le> unat target" and "unat target \<le> unat (inbox_cursor (on_chain g))"
    and "batch_inbox_items (block_batch blk) = next_items g target"
    and "call_sender t = avm_creator A" and "pay_sender verifier = verifier_address (on_chain g)"
    and "in_time t target (on_chain g)"
    and "\<forall>(r, a)\<in>set (withdrawal_payouts (block_batch blk) (block_sidecar blk)). avm_delivers A r a"
    and "collision_free (sha256 P) (block_strings A P g blk)"
  shows "\<exists>s g'. for_block P blk = Inr s
    \<and> run_calls A (settlement_calls P t verifier
        (proof_signals A (on_chain g) (settlement_public_values s) word) target s) (on_chain g) = Inr (on_chain g')
    \<and> history A P g' \<and> at_rest A P g' l' \<and> escape_deadline (on_chain g') = None
    \<and> settled_inbox_cursor (on_chain g') = target \<and> dues g' = []
    \<and> app_payments (on_chain g') = app_payments (on_chain g) @ withdrawal_payouts (block_batch blk) (block_sidecar blk)"
  using settles_on_chain [OF assms] by blast

lemma block_settles_on_chain_witness:
  "\<exists>(blk :: block) l g. get_block toy eddie_stxns toy_ledger = Inr (blk, l) \<and> at_rest toy_avm toy g l
     \<and> history toy_avm toy g \<and> app_payments (on_chain g) = [(addr 9, 100000)]"
proof -
  obtain blk l where blk: "get_block toy eddie_stxns toy_ledger = Inr (blk, l)"
    and size: "length (batch_encode (block_batch blk)) < 2 ^ 64" "length (sidecar_encode (block_sidecar blk)) < 2 ^ 64"
    and items: "batch_inbox_items (block_batch blk) = next_items with_deposit 1"
    and paid: "withdrawal_payouts (block_batch blk) (block_sidecar blk) = [(addr 9, 100000)]"
    and cf: "collision_free (sha256 toy) (block_strings toy_avm toy with_deposit blk)"
    by (rule eddie_block_facts)
  have "\<forall>(r, a)\<in>set (withdrawal_payouts (block_batch blk) (block_sidecar blk)). avm_delivers toy_avm r a" by simp
  from block_settles_on_chain [OF history_funded _ toy_ledger_facts(1) eddie_stxns_wf blk size funded_rest
      funded_ready(5,6) items funded_ready(1-3) this cf]
  show ?thesis using blk by (fastforce simp: paid with_deposit_def funded_defs)
qed

text \<open>C7: Nobody's entry can be refused, and serving the inbox is always a way to keep the rollup. Whatever
  history led there: a ledger in step with the contract builds a block of everything that waits in
  the inbox, deposits and requests, without failing; every call of its settlement is accepted, even
  under a signalled escape up to its deadline; afterwards nothing waits and no escape is signalled.
  Room is needed for the nonces the requests use up, the account's balance is a 64-bit word, and
  the network delivers payments of at least the minimum to those who asked for them.\<close>

theorem inbox_always_served:
  assumes "history A P g" and "same_hash A P" and "collision_free (sha256 P) (hashed_strings g)"
    and "wf_ledger P l" and "at_rest A P g l" and "app_balance (on_chain g) < 2 ^ 64"
    and "\<forall>a. nonce_of (ledger_accounts l a) + length (next_items g (inbox_cursor (on_chain g))) < 2 ^ 64"
    and "length (next_items g (inbox_cursor (on_chain g))) < 2 ^ 40"
    and "call_sender t = avm_creator A" and "pay_sender verifier = verifier_address (on_chain g)"
    and "case escape_deadline (on_chain g) of None \<Rightarrow> True | Some deadline \<Rightarrow> call_round t \<le> deadline"
    and "\<And>a r amt. InboxForcedWithdrawal a r \<in> set (next_items g (inbox_cursor (on_chain g))) \<Longrightarrow> MIN_WITHDRAWAL \<le> amt \<Longrightarrow>
      avm_delivers A r amt"
  shows "\<exists>blk l'. get_block P (map item_transaction (next_items g (inbox_cursor (on_chain g)))) l = Inr (blk, l')
    \<and> (collision_free (sha256 P) (block_strings A P g blk) \<longrightarrow>
       (\<exists>s g'. for_block P blk = Inr s
         \<and> run_calls A (settlement_calls P t verifier
             (proof_signals A (on_chain g) (settlement_public_values s) word) (inbox_cursor (on_chain g)) s) (on_chain g)
           = Inr (on_chain g')
         \<and> history A P g' \<and> at_rest A P g' l' \<and> escape_deadline (on_chain g') = None
         \<and> settled_inbox_cursor (on_chain g') = inbox_cursor (on_chain g) \<and> dues g' = []))"
  by (rule inbox_block_settles [OF assms(1-5) inbox_keptD(1) [OF well_keptD(4) [OF history_kept [OF assms(1)]]] order_refl
      assms(6-10) whole_inbox_in_time [OF assms(1,11)] assms(12)])

lemma inbox_always_served_witness:
  "\<exists>g l. history toy_avm toy g \<and> at_rest toy_avm toy g l \<and> settled_inbox_cursor (on_chain g) = 1"
proof -
  have cursor: "inbox_cursor (on_chain with_deposit) = 1" by (simp add: with_deposit_def funded_defs)
  have cf: "collision_free (sha256 toy) (hashed_strings with_deposit)" by (simp add: with_deposit_def collision_free_def)
  have small: "app_balance (on_chain with_deposit) < 2 ^ 64" by (simp add: with_deposit_def funded_defs)
  have quiet: "case escape_deadline (on_chain with_deposit) of None \<Rightarrow> True | Some deadline \<Rightarrow> call_round sequencer \<le> deadline"
    by (simp add: with_deposit_def funded_defs)
  from inbox_always_served [where word = zero32, OF history_funded _ cf toy_ledger_facts(1) funded_rest small _ _ funded_ready(1,2) quiet]
  obtain blk l where "inbox_block toy with_deposit 1 toy_ledger = Inr (blk, l)"
    and "collision_free (sha256 toy) (block_strings toy_avm toy with_deposit blk) \<Longrightarrow>
      \<exists>g'. history toy_avm toy g' \<and> at_rest toy_avm toy g' l \<and> settled_inbox_cursor (on_chain g') = 1"
    by (auto simp: cursor funded_items)
  with served_strings show ?thesis by blast
qed

text \<open>C8: The sequencer's block cannot be disturbed. While it makes its calls, one to open and one for each
  chunk, anyone may call anything in between, successfully or not; unless the council, an escape or a
  new verifier takes over, the sequencer's calls all return, and its proof is then accepted and
  settles the block as if nobody else had called, under an escape signalled meanwhile as well, up to
  its deadline.\<close>

theorem block_withstands_others:
  assumes "history A P g" and "same_hash A P"
    and "wf_ledger P l" and "list_all wf_signed xs" and "get_block P xs l = Inr (blk, l')"
    and "length (batch_encode (block_batch blk)) < 2 ^ 64" and "length (sidecar_encode (block_sidecar blk)) < 2 ^ 64"
    and "at_rest A P g l"
    and "unat (settled_inbox_cursor (on_chain g)) \<le> unat target" and "unat target \<le> unat (inbox_cursor (on_chain g))"
    and "batch_inbox_items (block_batch blk) = next_items g target"
    and "pay_sender verifier = verifier_address (on_chain g)"
    and "posting_run A ms"
    and "map snd (filter (by_sequencer A) ms) = OpenBatch (of_nat (length (batch_encode (block_batch blk)))) target
      # map AccumulateChunk (chunks CHUNK_SIZE (batch_encode (block_batch blk)))"
  shows "\<exists>s c. for_block P blk = Inr s \<and> run_mixed A ms (on_chain g) = Inr c
    \<and> (\<forall>t. call_sender t = avm_creator A \<longrightarrow> answerable t c \<longrightarrow>
        (\<exists>c'. contract_verify_batch A t verifier (proof_signals A (on_chain g) (settlement_public_values s) word)
            (settlement_public_values s) c = Inr c'
          \<and> contract_root c' = state_root P l' \<and> settled_inbox_chain c' = ledger_inbox_chain l'
          \<and> settled_inbox_cursor c' = target
          \<and> pending_withdrawals c' = (if settlement_withdrawal_chain s = withdrawal_terminal A then None
              else Some (settlement_withdrawal_chain s))))"
proof -
  from built_block_in_step [OF history_inbox_told [OF assms(1,2)] history_kept [OF assms(1)] assms(3-11)]
  obtain s where s: "for_block P blk = Inr s" "in_step A (on_chain g) target s" "settlement_batch_length s < 2 ^ 64"
    and new: "settlement_new_root s = state_root P l'" "settlement_new_inbox_chain s = ledger_inbox_chain l'" by blast
  have "map snd (filter (by_sequencer A) ms)
      = OpenBatch (of_nat (settlement_batch_length s)) target # map AccumulateChunk (settlement_chunks s)"
    using assms(14) by (simp add: settlement_batch_length_def settlement_chunks_def for_block_fields(6) [OF s(1)] del: CHUNK_SIZE_eq)
  from block_settles_interleaved [OF assms(1,2) s assms(13) this assms(12), where word = word] s(1)
  show ?thesis by (simp add: new)
qed

lemma block_withstands_others_witness:
  "\<exists>chunk c c' s vals. run_mixed toy_avm
       [(sequencer, OpenBatch (of_nat (length chunk)) 1), (anyone, MakeDeposit deposit_payment eddie), (anyone, AbandonBatch),
        (sequencer, AccumulateChunk chunk)] (on_chain with_deposit) = Inr c
     \<and> contract_verify_batch toy_avm sequencer verifier_call s vals c = Inr c' \<and> settled_inbox_cursor c' = 1"
proof -
  obtain blk l where blk: "get_block toy eddie_stxns toy_ledger = Inr (blk, l)"
    and size: "length (batch_encode (block_batch blk)) < 2 ^ 64" "length (sidecar_encode (block_sidecar blk)) < 2 ^ 64"
    and one: "chunks CHUNK_SIZE (batch_encode (block_batch blk)) = [batch_encode (block_batch blk)]"
    and items: "batch_inbox_items (block_batch blk) = next_items with_deposit 1"
    by (rule eddie_block_facts)
  define chunk where "chunk = batch_encode (block_batch blk)"
  define ms where "ms = [(sequencer, OpenBatch (of_nat (length chunk)) 1), (anyone, MakeDeposit deposit_payment eddie),
    (anyone, AbandonBatch), (sequencer, AccumulateChunk chunk)]"
  have run: "posting_run toy_avm ms" "map snd (filter (by_sequencer toy_avm) ms)
      = OpenBatch (of_nat (length (batch_encode (block_batch blk)))) 1
        # map AccumulateChunk (chunks CHUNK_SIZE (batch_encode (block_batch blk)))"
    unfolding one by (simp_all add: ms_def posting_run_def by_sequencer_def anyone_else chunk_def del: toy_avm_simps(3))
  have same: "same_hash toy_avm toy" by simp
  from block_withstands_others [OF history_funded same toy_ledger_facts(1) eddie_stxns_wf blk size funded_rest funded_ready(5,6)
      items funded_ready(2) run, where word = zero32]
  obtain s c where "for_block toy blk = Inr s" and c: "run_mixed toy_avm ms (on_chain with_deposit) = Inr c"
    and settles: "answerable sequencer c \<Longrightarrow> \<exists>c'. contract_verify_batch toy_avm sequencer verifier_call
        (proof_signals toy_avm (on_chain with_deposit) (settlement_public_values s) zero32) (settlement_public_values s) c = Inr c'
      \<and> settled_inbox_cursor c' = 1"
    using funded_ready(1) by blast
  have "escape_deadline (on_chain with_deposit) = None" "escape_progress (on_chain with_deposit) = None"
    by (simp_all add: with_deposit_def funded_defs)
  then have "escape_deadline c = None \<and> escape_progress c = None"
    using c by (auto simp: ms_def effect_defs simp del: perform.simps dest!: perform_effect split: sum.splits if_splits)
  then have "answerable sequencer c" by (simp add: answerable_def)
  from settles [OF this] c show ?thesis unfolding ms_def by blast
qed

text \<open>C15: Nobody can hold up a payout. In every history, escaped or not, whoever is left, anyone but the
  sequencer can make all the payouts that are due, in order, and the money is there for each; then
  none is due and the next batch may be opened.\<close>

theorem payouts_always_payable:
  assumes "history A P g" and "same_hash A P" and "collision_free (sha256 P) (hashed_strings g)"
    and "call_sender t \<noteq> avm_creator A" and "\<forall>(r, a)\<in>set (dues g). avm_delivers A r a"
  shows "\<exists>c'. run_calls A (map (pay_call t) (withdrawal_links (sha256 P) (contract_domain A) (dues g))) (on_chain g) = Inr c'
    \<and> pending_withdrawals c' = None \<and> app_payments c' = app_payments (on_chain g) @ dues g"
  by (rule dues_payable [OF assms(1-3) _ assms(5)]) (simp add: assms(4))

lemma payouts_always_payable_witness:
  "\<exists>g c'. history toy_avm toy g \<and> pending_withdrawals (on_chain g) \<noteq> None
     \<and> run_calls toy_avm (map (pay_call anyone) (withdrawal_links toy_hash toy_domain [(addr 9, 100000)])) (on_chain g) = Inr c'
     \<and> app_payments c' = [(addr 9, 100000)]"
proof -
  obtain g where g: "history toy_avm toy g" "collision_free (sha256 toy) (hashed_strings g)" "dues g = [(addr 9, 100000)]"
    "app_payments (on_chain g) = []"
    by (rule unpaid_deployment)
  have same: "same_hash toy_avm toy" by simp
  have "pending_withdrawals (on_chain g) \<noteq> None"
    using history_books [OF g(1) same g(2)] g(3) by (simp add: books_def dues_told_def)
  with payouts_always_payable [OF g(1) same g(2) anyone_else(2)] g show ?thesis by auto
qed

section \<open>The way out\<close>

text \<open>C13: Who can leave after an escape, and who cannot. In every such history take a settled account
  not yet exited, bound to an Ed25519 key, with more on it than the box that records the exit costs,
  and let the network deliver the payment. If no other settled address shares the first 127 bits of
  its own, the proof the tree gives and a signature by that key fit a transaction, and the call takes
  the whole balance out, however many others left before. If some other settled address does share
  them, the account is locked out: no transaction anyone can send, with whatever proof, key or
  signature, is an exit of it, short of a collision. After an escape the root
  never moves again, so the lockout is for good; and since a deposit names any 32 bytes as its recipient,
  anyone can bring it about for any account beforehand.\<close>

theorem exits_open_unless_crowded:
  assumes "history A P g" and "same_hash A P" and "collision_free (sha256 P) (hashed_strings g)"
    and "escaped (on_chain g)" and "exits (on_chain g) a = None"
    and "tree_accounts (settled_tree g) a = Some acc"
    and "length key = 32" and "address_from_public_key (sha256 P) Ed25519 key = auth_address acc"
    and "length sig = 64"
    and "avm_ed25519verify_bare A (ascii ''EXIT'' @ bytes_of (contract_domain A) @ bytes_of a @ bytes_of recipient) sig key"
    and "unat (avm_exit_box_cost A) < unat (amount acc)"
    and "avm_delivers A recipient (amount acc - avm_exit_box_cost A)"
  shows "if \<forall>b. b \<noteq> a \<longrightarrow> tree_accounts (settled_tree g) b \<noteq> None \<longrightarrow> common_prefix_len a b < 127
    then \<exists>c'. submit A t (ForceExit a (nonce acc) (amount acc) (auth_address acc) SCHEME_ED25519 key sig recipient
        (concat (map bytes_of (siblings (tree_proof (sha256 P) (settled_tree g) a))))) (on_chain g) = Inr c'
      \<and> exits c' = (exits (on_chain g))(a \<mapsto> amount acc)
      \<and> app_payments c' = app_payments (on_chain g) @ [(recipient, amount acc - avm_exit_box_cost A)]
    else \<forall>t n amt auth scheme key sig recipient sibs c'.
      collision_free (sha256 P) (exit_strings (sha256 P) (settled_tree g) a (account_new n amt auth) sibs)
        \<longrightarrow> submit A t (ForceExit a n amt auth scheme key sig recipient sibs) (on_chain g) \<noteq> Inr c'"
proof (cases "crowded (tree_accounts (settled_tree g)) a 127")
  case False
  from exit_reaches [OF assms(1-6) this assms(7-12)] show ?thesis unfolding if_P [OF False [unfolded not_crowded_iff]] .
next
  case True
  have "dues_told A P g" using history_books [OF assms(1-3)] by (simp add: books_def)
  note tree = dues_toldD(1,2) [OF this]
  from crowded_cannot_exit [OF assms(2) this True] show ?thesis unfolding if_not_P [OF True [unfolded crowded_iff]] by blast
qed

lemma exits_open_unless_crowded_witness:
  "\<exists>g c'. history toy_avm toy g \<and> submit toy_avm anyone (ForceExit eddie 1 100300 eddie SCHEME_ED25519 eddie_key
      (sig_bytes eddie_sig) (addr 9) (concat (map bytes_of (siblings (tree_proof toy_hash (settled_tree g) eddie))))) (on_chain g) = Inr c'
    \<and> exits c' eddie = Some 100300"
proof -
  obtain g where g: "history toy_avm toy g" "escaped (on_chain g)" "exits (on_chain g) = Map.empty"
      "collision_free (sha256 toy) (hashed_strings g)"
      "tree_accounts (settled_tree g) = [eddie \<mapsto> account_new 1 100300 eddie]"
    by (rule escaped_deployment)
  have lengths: "length eddie_key = 32" "length (sig_bytes eddie_sig) = 64" "hd (sig_bytes eddie_sig) = 7"
    by (simp_all add: eddie_key_def eddie_sig_def)
  from exits_open_unless_crowded [OF g(1) _ g(4,2) _ _ lengths(1) _ lengths(2),
      of eddie "account_new 1 100300 eddie" "addr 9" anyone] g lengths(3)
  show ?thesis by (auto simp: account_new_def eddie_address)
qed

text \<open>The lockout is real: on a contract whose root commits to two accounts that share 127 bits, the honest
  proof would be accepted if it could be sent, and it cannot.\<close>

lemma crowded_account_locked_out:
  "(\<exists>c'. force_exit crowd_avm zero32 1 100300 (auth_address zero_account) SCHEME_ED25519 eddie_key (7 # replicate 63 0) (addr 9)
       (concat (map bytes_of (siblings (tree_proof level_hash crowd_tree zero32)))) crowd_contract = Inr c')
   \<and> (\<forall>c'. submit crowd_avm anyone (ForceExit zero32 1 100300 (auth_address zero_account) SCHEME_ED25519 eddie_key
       (7 # replicate 63 0) (addr 9) (concat (map bytes_of (siblings (tree_proof level_hash crowd_tree zero32))))) crowd_contract
       \<noteq> Inr c')"
proof (intro conjI allI)
  have "wf_tree (sha256 crowd_primitives) crowd_tree" by (simp add: crowd_tree_facts)
  moreover have "contract_root crowd_contract = root (sha256 crowd_primitives) crowd_tree" by (simp add: crowd_contract_def)
  ultimately show "submit crowd_avm anyone (ForceExit zero32 1 100300 (auth_address zero_account) SCHEME_ED25519 eddie_key
      (7 # replicate 63 0) (addr 9) (concat (map bytes_of (siblings (tree_proof level_hash crowd_tree zero32))))) crowd_contract
      \<noteq> Inr c'" for c'
    by (rule crowded_cannot_exit [OF crowd_simps(1) _ _ crowd_tree_facts(3)]) (simp add: crowd_exit_strings del: tree_proof_parts)
qed (rule crowd_honest_exit)

text \<open>C14: The proof the host hands out is good for the money. Once a settlement has brought contract and
  ledger in step, anyone may call anything; if that ends in an escape with no settlement in between,
  the exit proof the host writes for a key from its ledger, with a signature by that key, goes into a
  transaction as it stands, is accepted and pays out the whole balance, less the cost of recording the
  exit. The proof may have no more than 127 siblings, which is all one application argument holds, and
  a proof that short means that no other account of the ledger shares the first 127 bits of its address.\<close>

theorem host_exit_proof_accepted:
  assumes "history A P g" and "same_hash A P" and "wf_ledger P l" and "at_rest A P g l"
    and "no_settlement ms" and "chronicle_after A P ms g = Inr g'"
    and "collision_free (sha256 P) (hashed_strings g')" and "escaped (on_chain g')"
    and "exit_proof_of P l key = Inr e" and "exit_auth_address e = exit_address e"
    and "length (exit_siblings e) \<le> 127" and "length key = 32" and "length sig = 64"
    and "exits (on_chain g') (exit_address e) = None"
    and "avm_ed25519verify_bare A (ascii ''EXIT'' @ bytes_of (contract_domain A) @ bytes_of (exit_address e)
        @ bytes_of recipient) sig key"
    and "unat (avm_exit_box_cost A) < unat (exit_amount e)"
    and "avm_delivers A recipient (exit_amount e - avm_exit_box_cost A)"
  shows "(\<exists>c'. submit A t (ForceExit (exit_address e) (exit_nonce e) (exit_amount e) (exit_auth_address e) SCHEME_ED25519 key sig
        recipient (concat (map bytes_of (exit_siblings e)))) (on_chain g') = Inr c'
      \<and> exits c' = (exits (on_chain g'))(exit_address e \<mapsto> exit_amount e)
      \<and> app_payments c' = app_payments (on_chain g') @ [(recipient, exit_amount e - avm_exit_box_cost A)])
    \<and> (\<forall>b. b \<noteq> exit_address e \<longrightarrow> ledger_accounts l b \<noteq> None \<longrightarrow> common_prefix_len (exit_address e) b < 127)"
  using host_proof_reaches [OF assms] short_proof_iff [OF assms(3,9), of 127] assms(11) by (simp only: not_crowded_iff)

lemma host_exit_proof_accepted_witness:
  "\<exists>g l e c'. at_rest toy_avm toy g l \<and> exit_proof_of toy l eddie_key = Inr e
     \<and> app_payments c' = [(addr 9, 100000), (addr 9, 100280)]
     \<and> (\<exists>c. perform toy_avm council SecurityCouncilEscape (on_chain g) = Inr c
         \<and> submit toy_avm anyone (ForceExit eddie 1 100300 eddie SCHEME_ED25519 eddie_key (sig_bytes eddie_sig) (addr 9)
             (concat (map bytes_of (exit_siblings e)))) c = Inr c')"
proof -
  obtain g l where g: "history toy_avm toy g" "wf_ledger toy l" "at_rest toy_avm toy g l"
    "security_council (on_chain g) = addr 4" "exits (on_chain g) = Map.empty" "collision_free (sha256 toy) (hashed_strings g)"
    "ledger_accounts l = [eddie \<mapsto> account_new 1 100300 eddie]" "app_payments (on_chain g) = [(addr 9, 100000)]"
    by (rule settled_ledger)
  obtain c where c: "perform toy_avm council SecurityCouncilEscape (on_chain g) = Inr c" and out: "escaped c" "exits c = exits (on_chain g)"
    by (rule council_escapes [OF g(4)]) (use g(3) in \<open>simp add: at_rest_def\<close>)
  let ?g = "record_call (sha256 toy) SecurityCouncilEscape c g"
  have run: "chronicle_after toy_avm toy [(council, SecurityCouncilEscape)] g = Inr ?g"
    using c by (simp del: perform.simps)
  have address: "exit_address_of toy eddie_key = eddie" by (simp add: exit_address_of_def eddie_address)
  obtain e where e: "exit_proof_of toy l eddie_key = Inr e" "exit_address e = eddie" "exit_account e = account_new 1 100300 eddie"
    using exit_proof_of_held [OF g(2), of eddie_key] g(7) address by auto
  then have fields: "exit_nonce e = 1" "exit_amount e = 100300" "exit_auth_address e = eddie"
    by (simp_all add: exit_account_def account_new_def)
  have "length (exit_siblings e) \<le> 127"
    using short_proof_iff [OF g(2) e(1)] by (simp add: crowded_def g(7) e(2))
  moreover have "app_payments c = [(addr 9, 100000)]"
    using perform_effect [OF c] g(8) by (auto simp: effect_defs)
  moreover have "length eddie_key = 32" "length (sig_bytes eddie_sig) = 64" "hd (sig_bytes eddie_sig) = 7"
    by (simp_all add: eddie_key_def eddie_sig_def)
  ultimately show ?thesis
    using host_exit_proof_accepted [OF g(1) _ g(2,3) _ run _ _ e(1), of "sig_bytes eddie_sig" "addr 9" anyone] g c out e fields
    by fastforce
qed

text \<open>C21: After an escape whoever paid for a deposit that no batch consumed gets it back, with the box
  it paid for, in every history.\<close>

theorem deposits_reclaimable:
  assumes "history A P g" and "same_hash A P" and "collision_free (sha256 P) (hashed_strings g)"
    and "escaped (on_chain g)" and "unat (settled_inbox_cursor (on_chain g)) \<le> unat i"
    and "inbox_boxes (on_chain g) i = Some entry" and "record_kind entry = ascii ''d''"
    and "avm_delivers A (record_payer entry) (record_amount entry + avm_inbox_box_cost A)"
  shows "\<exists>c'. reclaim_deposit A i (on_chain g) = Inr c' \<and> inbox_boxes c' = (inbox_boxes (on_chain g))(i := None)
    \<and> app_payments c' = app_payments (on_chain g) @ [(record_payer entry, record_amount entry + avm_inbox_box_cost A)]"
  by (rule deposits_stay_reclaimable [OF assms])

lemma deposits_reclaimable_witness:
  "\<exists>g c'. history toy_avm toy g \<and> reclaim_deposit toy_avm 0 (on_chain g) = Inr c'
     \<and> app_payments c' = [(addr 6, 200340)]"
proof -
  let ?t = "\<lparr>call_sender = addr 4, call_round = 2\<rparr>"
  obtain c where c: "perform toy_avm ?t SecurityCouncilEscape (on_chain with_deposit) = Inr c"
    and state: "escaped c" "inbox_boxes c = [0 \<mapsto> deposit_entry]" "settled_inbox_cursor c = 0" "app_payments c = []"
    by (auto simp: security_council_escape_def assert_security_council_def require_def ensure_def Let_def delete_signal_def
        with_deposit_def funded_defs)
  let ?g = "record_call (sha256 toy) SecurityCouncilEscape c with_deposit"
  have "history toy_avm toy ?g" by (rule history.called [OF history_funded _ c]) simp
  moreover have "collision_free (sha256 toy) (hashed_strings ?g)" by (simp add: with_deposit_def collision_free_def)
  ultimately show ?thesis
    using deposits_reclaimable [of toy_avm toy ?g 0 deposit_entry] state by (fastforce simp: deposit_entry_def)
qed

text \<open>C19: A sequencer cannot talk its way out of an accusation. Unless a settlement answers it, its
  target stays, and over any calls by anyone the deadline moves by one grace period for each
  tranche of 256 inbox entries really settled and payouts the sequencer really made; progress short
  of a tranche moves nothing.\<close>

theorem escape_clock_bounded:
  assumes "history A P g" and "run_calls A ms (on_chain g) = Inr c'"
    and "escape_deadline (on_chain g) = Some deadline" and "escape_progress (on_chain g) = Some progress"
    and "escape_inbox_target (on_chain g) = Some target"
    and "\<forall>ns rest d. ms = ns @ rest \<and> run_calls A ns (on_chain g) = Inr d \<longrightarrow> escape_deadline d \<noteq> None"
  shows "\<exists>n deadline' progress'. escape_deadline c' = Some deadline' \<and> escape_progress c' = Some progress'
    \<and> escape_inbox_target c' = Some target
    \<and> unat deadline' = unat deadline + n * unat (escape_grace (on_chain g))
    \<and> unat ESCAPE_PROGRESS_TRANCHE * n + unat progress'
        \<le> unat progress + (unat (settled_inbox_cursor c') - unat (settled_inbox_cursor (on_chain g))) + payouts_made A ms"
proof -
  have "accused (on_chain g) (unat deadline, unat progress) target" using assms(3-5) by (simp add: accused_def)
  from run_calls_clock [OF assms(2) history_kept [OF assms(1)] this] assms(6)
  show ?thesis by (fastforce simp: clock_moves_def clock_step_def accused_def)
qed

lemma escape_clock_bounded_witness:
  "\<exists>g c'. history toy_avm toy g \<and> run_calls toy_avm [(anyone, OpUp 3)] (on_chain g) = Inr c'
     \<and> escape_deadline c' = Some 105"
proof -
  let ?t = "\<lparr>call_sender = addr 6, call_round = 100\<rparr>"
  obtain c where c: "perform toy_avm ?t SignalEscape (on_chain with_deposit) = Inr c"
    and state: "escape_deadline c = Some 105" "escape_progress c = Some 0" "escape_inbox_target c = Some 1"
      "settled_inbox_cursor c = 0"
    by (auto simp: signal_escape_def require_def ensure_def present_def ok_or_def plus64_def checked_add_def Let_def
        with_deposit_def funded_defs deposit_entry_def)
  let ?g = "record_call (sha256 toy) SignalEscape c with_deposit"
  have g: "history toy_avm toy ?g" by (rule history.called [OF history_funded _ c]) simp
  have run: "run_calls toy_avm [(anyone, OpUp 3)] (on_chain ?g) = Inr c" by (simp add: op_up_def)
  have live: "\<forall>ns rest d. [(anyone, OpUp 3)] = ns @ rest \<and> run_calls toy_avm ns (on_chain ?g) = Inr d \<longrightarrow> escape_deadline d \<noteq> None"
    using state by (auto simp: Cons_eq_append_conv op_up_def)
  have "\<exists>deadline'. escape_deadline c = Some deadline'"
    using escape_clock_bounded [OF g run _ _ _ live] state by auto
  with g run state show ?thesis by blast
qed

text \<open>C18: An escape is final. Whatever is called afterwards, the root everyone exits against stays, no
  entry joins the inbox and none is consumed, boxes only go and recorded exits only stay, so no
  account can exit twice and none can be settled away.\<close>

theorem escape_is_final:
  assumes "run_calls A ms c = Inr c'" and "escaped c"
  shows "escaped c' \<and> contract_root c' = contract_root c
    \<and> inbox_cursor c' = inbox_cursor c \<and> live_inbox_chain c' = live_inbox_chain c
    \<and> settled_inbox_cursor c' = settled_inbox_cursor c \<and> settled_inbox_chain c' = settled_inbox_chain c
    \<and> inbox_boxes c' \<subseteq>\<^sub>m inbox_boxes c \<and> exits c \<subseteq>\<^sub>m exits c'"
  using run_calls_frozen [OF assms] by (simp add: frozen_from_def)

lemma escape_is_final_witness:
  "\<exists>g c'. history toy_avm toy g \<and> escaped (on_chain g)
     \<and> run_calls toy_avm [(anyone, ForceExit eddie 1 100300 eddie SCHEME_ED25519 eddie_key (sig_bytes eddie_sig) (addr 9)
          (concat (map bytes_of (siblings (tree_proof toy_hash (settled_tree g) eddie)))))] (on_chain g) = Inr c'
     \<and> contract_root c' = contract_root (on_chain g)"
proof -
  obtain g where g: "history toy_avm toy g" "escaped (on_chain g)" "exits (on_chain g) = Map.empty"
      "collision_free (sha256 toy) (hashed_strings g)"
      "tree_accounts (settled_tree g) = [eddie \<mapsto> account_new 1 100300 eddie]"
    by (rule escaped_deployment)
  have held: "tree_accounts (settled_tree g) eddie = Some (account_new 1 100300 eddie)" by (simp add: g(5))
  have "hd (sig_bytes eddie_sig) = 7" by (simp add: eddie_sig_def)
  with exits_stay_open [OF g(1) _ g(4,2) _ held, of eddie_key "addr 9" "sig_bytes eddie_sig"] g(3) obtain c' where
    "force_exit toy_avm eddie 1 100300 eddie SCHEME_ED25519 eddie_key (sig_bytes eddie_sig) (addr 9)
      (concat (map bytes_of (siblings (tree_proof toy_hash (settled_tree g) eddie)))) (on_chain g) = Inr c'"
    by (auto simp: account_new_def eddie_address)
  then have run: "run_calls toy_avm [(anyone, ForceExit eddie 1 100300 eddie SCHEME_ED25519 eddie_key (sig_bytes eddie_sig) (addr 9)
      (concat (map bytes_of (siblings (tree_proof toy_hash (settled_tree g) eddie)))))] (on_chain g) = Inr c'" by simp
  from escape_is_final [OF run g(2)] run g(1,2) show ?thesis by blast
qed

end
