(* ===== verification/Error_Messages.thy ===== *)
theory Error_Messages
  imports Execution
begin

text \<open>
  The messages of the decoding and execution errors (\<open>Display\<close>), as text, and how far they tell the
  errors apart.
\<close>

section \<open>Decimal numbers\<close>

text \<open>What \<open>{}\<close> writes for an unsigned integer.\<close>

fun decimal :: "nat \<Rightarrow> string" where
  "decimal n = (if n < 10 then [char_of (48 + n)] else decimal (n div 10) @ [char_of (48 + n mod 10)])"

declare decimal.simps [simp del]

definition digit_value :: "char \<Rightarrow> nat" where
  "digit_value c = of_char c - 48"

lemma digit_value_char [simp]: "n < 10 \<Longrightarrow> digit_value (char_of (48 + n)) = n"
  by (simp add: digit_value_def of_char_of)

lemma decimal_value: "foldl (\<lambda>v c. 10 * v + digit_value c) 0 (decimal n) = n"
proof (induction n rule: decimal.induct)
  case (1 n)
  then show ?case by (subst decimal.simps) simp
qed

lemma decimal_inject [simp]: "decimal m = decimal n \<longleftrightarrow> m = n"
  by (metis decimal_value)

lemma decimal_digits: "c \<in> set (decimal n) \<Longrightarrow> c \<noteq> CHR '' ''"
proof (induction n rule: decimal.induct)
  case (1 n)
  have digit: "char_of (48 + k) \<noteq> CHR '' ''" if "k < 10" for k :: nat
  proof
    assume "char_of (48 + k) = CHR '' ''"
    then have "of_char (char_of (48 + k) :: char) = (of_char CHR '' '' :: nat)" by simp
    with that show False by (simp add: of_char_of)
  qed
  show ?case
  proof (cases "n < 10")
    case True
    with 1(2) digit [of n] show ?thesis by (subst (asm) decimal.simps) simp
  next
    case False
    with 1 digit [of "n mod 10"] show ?thesis by (subst (asm) (2) decimal.simps) auto
  qed
qed

text \<open>A number ends where the space after it starts.\<close>

lemma decimal_then_space:
  "decimal m @ CHR '' '' # xs = decimal n @ CHR '' '' # ys \<longleftrightarrow> m = n \<and> xs = ys"
proof
  assume eq: "decimal m @ CHR '' '' # xs = decimal n @ CHR '' '' # ys"
  have "takeWhile (\<lambda>c. c \<noteq> CHR '' '') (decimal k @ CHR '' '' # zs) = decimal k" for k zs
    using decimal_digits by (auto simp: takeWhile_append2)
  with eq have "decimal m = decimal n" by metis
  with eq show "m = n \<and> xs = ys" by simp
qed simp

section \<open>Messages\<close>

text \<open>\<open>{:?}\<close> of \<open>escape_ascii()\<close>: the iterator's own \<open>Debug\<close>, which names the type and nothing else.\<close>

definition debug_escape_ascii :: "byte list \<Rightarrow> string" where
  "debug_escape_ascii bs = ''EscapeAscii { .. }''"

fun decode_error_message :: "decode_error \<Rightarrow> string" where
  "decode_error_message (UnsupportedVersion version) = ''unsupported version '' @ decimal (unat version)"
| "decode_error_message UnexpectedEnd = ''input ended mid-field''"
| "decode_error_message TrailingBytes = ''trailing bytes after the last item''"
| "decode_error_message MalformedVarint = ''malformed varint''"
| "decode_error_message ImplausibleLength = ''implausible length or count''"
| "decode_error_message (UnknownTransactionKind kind) = ''unknown transaction kind '' @ decimal (unat kind)"
| "decode_error_message (UnknownScheme name) = ''unknown signature scheme '' @ debug_escape_ascii name"
| "decode_error_message (UnknownSlotKind kind) = ''unknown slot kind '' @ decimal (unat kind)"
| "decode_error_message (UnknownPresenceTag tag) = ''unknown presence tag '' @ decimal (unat tag)"
| "decode_error_message (UnknownAddressRef reference) =
     ''address reference '' @ decimal (unat reference) @ '' is not in the dictionary''"
| "decode_error_message (ProofTooDeep depth) = ''proof depth '' @ decimal depth @ '' exceeds '' @ decimal DEPTH"
| "decode_error_message (DecodeLengthMismatch expected found) =
     ''sidecar carries '' @ decimal found @ '' entries for a batch of '' @ decimal expected @ '' transactions''"

text \<open>\<open>{:?}\<close> of a \<open>VerificationError\<close> is the name of the variant.\<close>

fun verification_error_name :: "verification_error \<Rightarrow> string" where
  "verification_error_name InvalidAuthAddress = ''InvalidAuthAddress''"
| "verification_error_name InvalidSignature = ''InvalidSignature''"
| "verification_error_name MalformedKey = ''MalformedKey''"
| "verification_error_name MalformedSignature = ''MalformedSignature''"
| "verification_error_name InvalidNonce = ''InvalidNonce''"
| "verification_error_name UnknownSender = ''UnknownSender''"
| "verification_error_name InsufficientFunds = ''InsufficientFunds''"
| "verification_error_name AmountOverflow = ''AmountOverflow''"
| "verification_error_name WithdrawalTooSmall = ''WithdrawalTooSmall''"
| "verification_error_name MalformedProof = ''MalformedProof''"
| "verification_error_name StaleWitness = ''StaleWitness''"
| "verification_error_name RootMismatch = ''RootMismatch''"
| "verification_error_name SidecarLengthMismatch = ''SidecarLengthMismatch''"
| "verification_error_name SidecarKindMismatch = ''SidecarKindMismatch''"

fun execution_error_message :: "execution_error \<Rightarrow> string" where
  "execution_error_message (DecodeFailed e) = ''could not decode the block: '' @ decode_error_message e"
| "execution_error_message (VerificationFailed e) = ''the block does not verify: '' @ verification_error_name e"

lemma verification_error_name_inject: "verification_error_name e = verification_error_name f \<longleftrightarrow> e = f"
  by (cases e; cases f; simp)

lemma decode_error_message_inject:
  "decode_error_message e = decode_error_message f \<longleftrightarrow> e = f \<or> (\<exists>x y. e = UnknownScheme x \<and> f = UnknownScheme y)"
  by (cases e; cases f; simp add: debug_escape_ascii_def decimal_then_space word_unat_eq_iff conj_commute)

text \<open>C35: An error message tells which error it was, down to its numbers, with one exception: the messages
  of all unknown signature schemes are the same text, so the bytes that were not recognized,
  which the message is there to show, are lost.\<close>

theorem error_messages_tell_apart:
  "execution_error_message e = execution_error_message f
     \<longleftrightarrow> e = f \<or> (\<exists>x y. e = DecodeFailed (UnknownScheme x) \<and> f = DecodeFailed (UnknownScheme y))"
  by (cases e; cases f) (auto simp: decode_error_message_inject verification_error_name_inject)

end
