(* ===== verification/Report_Text.thy ===== *)
theory Report_Text
  imports Error_Messages Host_Prover
begin

text \<open>
  The lines \<open>Report::print\<close> writes to the terminal (\<^verbatim>\<open>report.rs\<close>). How a duration reads is the standard
  library's, and a parameter: the text of \<open>elapsed\<close>.
\<close>

definition pad_right :: "nat \<Rightarrow> string \<Rightarrow> string" where
  "pad_right n s = s @ replicate (n - length s) CHR '' ''"

definition pad_left :: "nat \<Rightarrow> string \<Rightarrow> string" where
  "pad_left n s = replicate (n - length s) CHR '' '' @ s"

definition per_txn :: "report \<Rightarrow> u64 \<Rightarrow> string" where
  "per_txn r whole = (if report_txns r = 0 then ''-'' else decimal (unat (whole div of_nat (report_txns r))))"

definition syscall_line :: "report \<Rightarrow> string \<times> u64 \<Rightarrow> string" where
  "syscall_line r = (\<lambda>(name, n).
     ''    '' @ pad_right 28 name @ '' '' @ pad_left 12 (decimal (unat n)) @ '' ('' @ per_txn r n @ ''/txn)'')"

definition report_lines :: "string \<Rightarrow> report \<Rightarrow> string list" where
  "report_lines elapsed r =
     (''  executed in '' @ elapsed @ '': '' @ decimal (unat (report_instructions r)) @ '' instructions (''
        @ per_txn r (report_instructions r) @ ''/txn)'')
     # (case report_gas r of
          Some gas \<Rightarrow> ''  gas '' @ decimal (unat gas) @ '' ('' @ per_txn r gas @ ''/txn)''
        | None \<Rightarrow> ''  gas not calculated'')
     # (if report_syscalls r = [] then [''  no precompiles reached -- see this module's note on what that means'']
        else ''  precompiles:'' # map (syscall_line r) (report_syscalls r))"

text \<open>
  A report of a settlement shows every system call that was made and no other, one to a line, and the
  share of a transaction is never more than the whole.
\<close>

lemma report_lines_show:
  assumes "report_settlement K s = Inr r" and "sdk_execute K (stdin_for s) = Inr (committed, x)"
  shows "set (drop 3 (report_lines elapsed r)) = syscall_line r ` {(name, n) \<in> set (syscall_counts x). n > 0}"
proof -
  have "report_syscalls r = syscalls x"
    using assms by (auto simp: report_settlement_def split: if_splits)
  moreover have "set (syscalls x) = {(name, n) \<in> set (syscall_counts x). n > 0}"
    by (auto simp: syscalls_def)
  ultimately show ?thesis by (auto simp: report_lines_def)
qed

lemma per_txn_bounded:
  assumes "report_txns r \<noteq> 0" and "report_txns r < 2 ^ 64"
  shows "\<exists>share. per_txn r whole = decimal share \<and> share * report_txns r \<le> unat whole"
proof (intro exI conjI)
  have "unat (of_nat (report_txns r) :: u64) = report_txns r" using assms(2) by (simp add: unat_of_nat)
  then have share: "unat (whole div of_nat (report_txns r)) = unat whole div report_txns r"
    by (simp add: unat_div)
  show "per_txn r whole = decimal (unat whole div report_txns r)" using assms(1) share by (simp add: per_txn_def)
  show "unat whole div report_txns r * report_txns r \<le> unat whole" by simp
qed

end
