(* ===== verification/Spec2Isabelle.thy ===== *)
theory Spec2Isabelle
  imports Merkle_Properties Wire_Properties Chain_Properties Rollup_Properties Scenario_Properties Prover_Properties
    Contract_Properties Report_Text
begin

text \<open>
  A payment rollup that settles on Algorand: the state transition of \<^verbatim>\<open>crates/payment-rollup\<close>, the
  Falcon wrapper of \<^verbatim>\<open>crates/falcon-det1024\<close>, the zkVM guest of \<^verbatim>\<open>crates/sp1-guest\<close>, the emitter of
  \<^verbatim>\<open>crates/sp1-host\<close>, and the settlement contract of \<^verbatim>\<open>contracts/contracts/rollup-verifier.algo.ts\<close>.

  \<^bold>\<open>The program.\<close> A sequencer holds a \<open>Ledger\<close>: accounts by address, a sparse Merkle tree over
  them, and the end of the inbox chain, a hash chain over what L1 accepted (deposits and requests
  to withdraw). \<open>get_block\<close> applies signed transactions and writes down a batch, which is published,
  and a sidecar of signatures and Merkle witnesses, which only the prover sees. The guest decodes
  both, replays the batch against nothing but a root (\<open>verify_batch\<close>) and commits 192 bytes of public
  values: the old and new root, a commitment to the batch bytes, both ends of the inbox chain and
  the head of a chain of payouts. The settlement contract holds a root and an inbox chain, folds
  posted chunks into the commitment, checks a proof against the six words and then pays the
  payouts in order. The host computes what the contract needs from a block. Anyone may accuse a
  sequencer that leaves the inbox waiting; when its grace runs out the rollup escapes, and accounts
  exit against the last root.

  \<^bold>\<open>Theories and code.\<close>
  \<^item> \<open>Prelude\<close>: results, checked arithmetic, big-endian bytes, 32-byte arrays, buffer writes.
  \<^item> \<open>Accounts\<close>, \<open>Transactions\<close> (\<^verbatim>\<open>lib.rs\<close> 1-702, \<^verbatim>\<open>crypto.rs\<close>, verification in \<^verbatim>\<open>falcon-det1024\<close>):
    schemes, addresses, accounts, what is signed, the four transactions, signature checks.
  \<^item> \<open>Merkle\<close> (\<^verbatim>\<open>merkle.rs\<close>): the tree, its proofs and the check that recomputes a root.
    \<open>Merkle_Tree\<close> has the invariant and the map the tree stands for, \<open>Merkle_Proofs\<close> soundness and
    completeness of proofs, \<open>Merkle_Depth\<close> how long a proof is and that an inclusion proof is the only one,
    \<open>Merkle_Bounds\<close> the same walks with the index check of \<open>address[depth / 8]\<close>.
  \<^item> \<open>Chains\<close> and \<open>Commitment\<close> (\<^verbatim>\<open>lib.rs\<close> 895-1034, 1333-1480): hash chains, chunks, commitment, public
    values. The locales \<open>hash_chain\<close> and \<open>anchored_chain\<close> state what makes a chain pin its items and
    are interpreted on the inbox, the payouts and the chunks.
  \<^item> \<open>Replay\<close> (\<^verbatim>\<open>lib.rs\<close> 704-893, 1036-1330): batch, sidecar, block, \<open>verify_batch\<close>, \<open>verify_block\<close>.
  \<^item> \<open>State_Spec\<close>: the specification, the same transactions on a map from addresses to accounts with
    neither tree nor witness. \<open>State_Commitment\<close> states what a commitment to such a map promises
    (locales \<open>state_commitment\<close>, \<open>sound_commitment\<close>, interpreted on the tree) and lifts it to sequences
    of reads and writes; \<open>Replay_Sound\<close> refines the replay to the specification with it.
  \<^item> \<open>Ledger\<close> (\<^verbatim>\<open>lib.rs\<close> 1575-1844) and \<open>Ledger_Refines\<close>: the sequencer, its invariant, and the
    equivalence of \<open>get_block\<close> with the specification.
  \<^item> \<open>Codec\<close>, \<open>Batch_Codec\<close>, \<open>Sidecar_Codec\<close> (\<^verbatim>\<open>codec.rs\<close>): the wire format; the locale \<open>byte_format\<close>
    is a writer and a reader that undoes it, interpreted on each field.
  \<^item> \<open>Execution\<close> (\<^verbatim>\<open>lib.rs\<close> 1481-1574, \<^verbatim>\<open>sp1-guest/src/main.rs\<close>, \<^verbatim>\<open>sp1-host/src/lib.rs\<close>): the guest
    and the host's settlement.
  \<^item> \<open>Error_Messages\<close>: the \<open>Display\<close> texts of the decoding and execution errors.
    \<open>Report_Text\<close>: the lines of a cost report.
  \<^item> \<open>Wire_Sizes\<close>: how long the two encodings of a built block can be. \<open>Funding\<close>: budgets under which a
    list of transactions cannot fail, in the specification and so in \<open>get_block\<close>.
  \<^item> \<open>Falcon_Signing\<close>, \<open>Scenarios\<close> (\<^verbatim>\<open>falcon-det1024/src/lib.rs\<close>, \<^verbatim>\<open>scenarios.rs\<close>): key generation and
    signing, the blocks the emitter settles. \<open>Scenario_Builds\<close> and \<open>Scenario_Signed\<close> show them funded.
  \<^item> \<open>Host_Prover\<close> (\<^verbatim>\<open>prove.rs\<close>, \<^verbatim>\<open>report.rs\<close>), \<open>Host_Fixture\<close> and \<open>Host_Cli\<close> (\<^verbatim>\<open>sp1-host/src/main.rs\<close>): the
    guest's input, the prover and the reporter over the SP1 SDK, the JSON of a fixture, the command
    line and the run, with and without the \<open>prove\<close> feature.
  \<^item> \<open>Contract\<close> (\<^verbatim>\<open>rollup-verifier.algo.ts\<close>): the contract's state and one definition per method, each
    assertion in its place. \<open>Contract_Rust\<close> relates its words to the crate's. \<open>Contract_Calls\<close> gathers the
    methods as calls and shows, method by method, what a call that returned had checked and did;
    \<open>Contract_Effects\<close> says the same in one definition. \<open>Contract_Kept\<close> is the invariant of the state itself.
  \<^item> \<open>Contract_History\<close>: the histories of a deployment as an inductive predicate over chronicles, which keep
    beside the state the accounts its root commits to, the inbox items, the payouts due, the chunks
    posted and the strings hashed; the locale \<open>contract_invariant\<close> says what makes a predicate on the state hold
    in all of them and over every run, and is interpreted on each invariant. \<open>Contract_Solvency\<close> proves the books, \<open>Contract_Funds\<close> that no
    payment fails, \<open>Contract_Exits\<close> that exits and refunds stay open.
  \<^item> \<open>Contract_Runs\<close>: sequences of calls, the escape clock, what an escape freezes, the drain of the payouts.
    \<open>Contract_Drive\<close> and \<open>Contract_Blocks\<close>: the calls made of a host's \<open>Settlement\<close>, and that a block built by a
    ledger in step with the contract goes through them, in time for an escape already signalled.
  \<^item> \<open>Contract_Service\<close>: whatever waits in the inbox makes a block that builds and settles. \<open>Contract_Interleaving\<close>:
    posting a block while anyone calls in between, as a simulation of the run alone. \<open>Contract_Custody\<close>: the
    host's exit proof, from the settlement that made it good until the next. \<open>Contract_Bank\<close>: an abstract bank
    with neither roots nor chains nor proofs, and that every history of the contract is a run of it.
  \<^item> \<open>Contract_Delivery\<close>: which calls fit a transaction at all (\<open>deliverable\<close>, \<open>submit\<close>), that everything a
    sequencer sends to settle does, and for which accounts an exit does. \<open>Contract_Example\<close> is a small
    deployment, and a contract with two accounts on the same 127 bits.
  \<^item> \<open>Toy\<close> and the theories named \<open>*_Properties\<close>: examples, and the properties of each part; the ones
    that span parts are below.

  \<^bold>\<open>How code becomes definitions.\<close> A \<open>Result\<close> is a sum with the error on the left, an \<open>Option\<close> an option;
  a panic of the sequencer or the emitter (\<open>unwrap\<close>, \<open>expect\<close>, \<open>assert!\<close>, a bad slice) is an error
  value too. \<open>u64\<close> is \<open>64 word\<close>, \<open>[u8; 32]\<close> a type of its own, a \<open>BTreeMap\<close> a map. State is passed
  and returned. SHA-256, Ed25519, the Falcon C functions and the SP1 SDK are arguments, gathered in
  \<open>primitives\<close>, \<open>signers\<close> and \<open>sdk\<close>. Files the emitter writes are a log it returns.

  \<^bold>\<open>Hypotheses.\<close> No hash is free of collisions, so a theorem that needs it says that the finitely
  many strings actually hashed do not collide (and that none hashes to the zero word, which stands
  for an empty subtree): \<open>collision_free H strings\<close>, with the strings computed from the theorem's own
  data. \<open>usize\<close> has 64 bits, as on the guest's target, so encodings are assumed shorter than \<open>2 ^ 64\<close>.
  The tree is 256 deep because addresses have 256 bits. No definition takes fuel: every loop is a
  structural recursion or has a measure.

  \<^bold>\<open>The contract's hypotheses.\<close> A history of the contract starts at \<open>createApplication\<close> on an account that holds
  its minimum; anyone may then call anything and pay the account besides. One thing is assumed of it:
  where \<open>verifyBatch\<close> returns, a verified proof means that the guest, on inputs nobody sees, committed
  those public values. \<open>updateApplication\<close> ends a history, since from then on another program runs. What
  the network charges for a box and which payments it delivers are parameters (\<open>avm\<close>), and so are the
  hash and signature opcodes; \<open>same_hash\<close> says the hash is the crate's. A method as \<open>perform\<close> runs it takes
  arguments of any length. Where that would promise too much, in who can leave after an escape, a call
  is submitted instead: its arguments must have the lengths their ARC-4 types give them, and each must
  fit the 4096 bytes of one application argument, so an exit carries at most 127 siblings. The safety
  theorems range over the calls without that limit, which are more.

  \<^bold>\<open>Not modelled.\<close> What the prover network and the zkVM do is behind the SDK's functions, the Groth16
  verifier is a program the contract knows by its address, and how the contract is compiled is not
  looked at. The opcode budget is not counted: \<open>forceExit\<close> spends more than one call is given and borrows the
  rest from \<open>opUp\<close> calls in its group. A write that fails, the printing of JSON and progress on the terminal are I/O. The elliptic curve, the
  lattice scheme and SHA-256 are libraries. Allocation hints have no effect on values. The contract's tests and the script that generates its clients are left out.
\<close>

section \<open>An example block\<close>

text \<open>
  The blocks an empty ledger builds from the example transactions: all four, and only the deposit
  with the payment that spends it.
\<close>

definition ex_block :: "panic + block \<times> ledger" where
  "ex_block = get_block toy ex_stxns ex_ledger"

definition ex_short_block :: "panic + block \<times> ledger" where
  "ex_short_block = get_block toy (take 2 ex_stxns) ex_ledger"

definition sizes_ok :: "panic + block \<times> ledger \<Rightarrow> bool" where
  "sizes_ok r = (case r of Inl _ \<Rightarrow> False | Inr (blk, _) \<Rightarrow>
     length (batch_encode (block_batch blk)) < 500 \<and> length (sidecar_encode (block_sidecar blk)) < 2000)"

lemma ex_block_sizes: "sizes_ok ex_block"
  by code_simp

lemma ex_short_block_sizes: "sizes_ok ex_short_block"
  by code_simp

definition separate :: "panic + block \<times> ledger \<Rightarrow> bool" where
  "separate r = (case r of Inl _ \<Rightarrow> False | Inr (blk, _) \<Rightarrow>
     collision_free toy_hash
       (event_preimages toy_hash tree_new (batch_events (block_batch blk) (block_sidecar blk))
        @ inbox_preimages toy_hash INBOX_CHAIN_GENESIS (batch_inbox_items (block_batch blk))))"

lemma ex_short_block_separate: "separate ex_short_block"
  by code_simp

definition one_deposit :: "panic + block \<times> ledger \<Rightarrow> bool" where
  "one_deposit r = (case r of Inl _ \<Rightarrow> False | Inr (blk, _) \<Rightarrow>
     batch_inbox_items (block_batch blk) = [InboxDeposit alice 200000])"

lemma ex_short_block_one_deposit: "one_deposit ex_short_block"
  by code_simp

lemma ex_signed_wf: "list_all wf_signed ex_stxns"
  by (simp add: ex_stxns_def)

lemma ex_ledger_words:
  "ledger_domain ex_ledger = zero32" "state_root toy ex_ledger = root toy_hash tree_new"
  "ledger_inbox_chain ex_ledger = INBOX_CHAIN_GENESIS"
  by (simp_all add: ex_ledger_def ledger_with_domain_def state_root_def)

section \<open>The replay against the account map\<close>

text \<open>C1: Soundness of the replay: \<open>verify_batch\<close> sees a root and untrusted witnesses, and still what
  it accepts is what the specification does on the account map that root commits to. Short of a
  collision, the new root is the root of the accounts after the run, the inbox chain has consumed
  exactly the run's L1 items and the withdrawal chain commits to exactly its payouts. No sidecar
  can make a batch do anything else.\<close>

theorem verify_batch_sound:
  assumes "wf_tree (sha256 P) t"
    and "collision_free (sha256 P) (event_preimages (sha256 P) t (batch_events b s))"
    and "verify_batch P domain (root (sha256 P) t) anchor b s = Inr (rt, inbox_chain, wchain)"
  shows "\<exists>st t'. spec_txns P domain (batch_signed b s)
        \<lparr>spec_accounts = tree_accounts t, spec_items = [], spec_payouts = []\<rparr> = Inr st
    \<and> wf_tree (sha256 P) t' \<and> tree_accounts t' = spec_accounts st
    \<and> rt = root (sha256 P) t'
    \<and> inbox_chain = inbox.fold_chain (sha256 P) anchor (spec_items st)
    \<and> wchain = withdrawal_chain (sha256 P) domain (spec_payouts st)"
  using verify_batch_refines [OF assms] by force

lemma verify_batch_sound_witness:
  "\<exists>b s rt i w st. verify_batch toy zero32 (root toy_hash tree_new) INBOX_CHAIN_GENESIS b s = Inr (rt, i, w)
     \<and> spec_txns toy zero32 (batch_signed b s) ex_start = Inr st \<and> batch_signed b s = take 2 ex_stxns
     \<and> w = withdrawal_chain toy_hash zero32 (spec_payouts st)"
proof -
  obtain blk l' where blk: "get_block toy (take 2 ex_stxns) ex_ledger = Inr (blk, l')"
    and sep: "collision_free toy_hash (event_preimages toy_hash tree_new (batch_events (block_batch blk) (block_sidecar blk)))"
    using ex_short_block_separate
    by (auto simp: separate_def ex_short_block_def split: sum.splits
        dest!: collision_free_appendD)
  note claims = get_block_claims [OF ex_ledger_wf(1) blk, unfolded ex_ledger_words]
  have ok: "verify_batch toy zero32 (root (sha256 toy) tree_new) INBOX_CHAIN_GENESIS (block_batch blk) (block_sidecar blk)
      = Inr (block_new_root blk, block_new_inbox_chain blk, block_withdrawal_chain blk)"
    using claims(1) by (simp only: verify_block_Inr_iff claims(2-4) toy_simps)
  have "wf_tree (sha256 toy) tree_new" by (rule wf_tree_new)
  from verify_batch_sound [OF this _ ok] sep obtain st where
    "spec_txns toy zero32 (batch_signed (block_batch blk) (block_sidecar blk)) ex_start = Inr st"
    "block_withdrawal_chain blk = withdrawal_chain toy_hash zero32 (spec_payouts st)"
    by (auto simp: ex_start_def)
  with ok claims(5) show ?thesis unfolding toy_simps by blast
qed

section \<open>The sequencer against the replay\<close>

text \<open>C10: \<open>get_block\<close> decides what the specification decides. From a ledger in step with its tree it
  panics, with the panic of the first rejected transaction, exactly when the specification
  rejects; otherwise the ledger afterwards holds the specification's accounts, the block carries
  the transactions in order, and \<open>verify_block\<close> accepts it.\<close>

theorem get_block_decides:
  assumes "wf_ledger P l"
  shows "(case spec_txns P (ledger_domain l) xs (ledger_rollup l) of
      Inl e \<Rightarrow> get_block P xs l = Inl (panic_of e)
    | Inr st \<Rightarrow> \<exists>blk l'. get_block P xs l = Inr (blk, l') \<and> wf_ledger P l'
        \<and> ledger_accounts l' = spec_accounts st
        \<and> batch_signed (block_batch blk) (block_sidecar blk) = xs
        \<and> block_new_root blk = state_root P l'
        \<and> block_new_inbox_chain blk = inbox.fold_chain (sha256 P) (ledger_inbox_chain l) (spec_items st)
        \<and> block_withdrawal_chain blk = withdrawal_chain (sha256 P) (ledger_domain l) (spec_payouts st)
        \<and> verify_block P blk = Inr ())"
proof (cases "spec_txns P (ledger_domain l) xs (ledger_rollup l)")
  case (Inl e)
  with get_block_Inl [OF assms] show ?thesis by simp
next
  case (Inr st)
  with get_block_Inr [OF assms Inr] show ?thesis by auto
qed

lemma get_block_decides_witness:
  "\<exists>blk l'. get_block toy ex_stxns ex_ledger = Inr (blk, l') \<and> verify_block toy blk = Inr ()"
proof -
  obtain st where "spec_txns toy zero32 ex_stxns ex_start = Inr st" using ex_run by blast
  with get_block_decides [of toy ex_ledger ex_stxns] show ?thesis by auto
qed

text \<open>C11: Every block the sequencer builds proves and settles: encoded to its two wire halves, handed
  to the guest with the ledger's domain, root and inbox chain, it makes the guest commit the
  ledger's own old and new words, and the host's \<open>for_block\<close> accepts it with the same public
  values. A block cannot be built that cannot be settled.\<close>

theorem built_block_settles:
  assumes "wf_ledger P l" and "list_all wf_signed xs" and "get_block P xs l = Inr (blk, l')"
    and "length (batch_encode (block_batch blk)) < 2 ^ 64"
    and "length (sidecar_encode (block_sidecar blk)) < 2 ^ 64"
  shows "\<exists>s values. values = public_values (sha256 P) (ledger_domain l) (state_root P l) (state_root P l')
        (batch_encode (block_batch blk)) (ledger_inbox_chain l) (ledger_inbox_chain l')
        (withdrawal_chain (sha256 P) (ledger_domain l) (withdrawal_payouts (block_batch blk) (block_sidecar blk)))
    \<and> guest_main P (bytes_of (ledger_domain l)) (bytes_of (state_root P l)) (bytes_of (ledger_inbox_chain l))
        (batch_encode (block_batch blk)) (sidecar_encode (block_sidecar blk)) = Inr values
    \<and> for_block P blk = Inr s \<and> settlement_public_values s = values
    \<and> settlement_inbox s = batch_inbox_items (block_batch blk)
    \<and> settlement_withdrawals s = withdrawal_payouts (block_batch blk) (block_sidecar blk)"
proof (rule get_block_cases [OF assms(1,3)])
  fix st
  assume b: "block_domain blk = ledger_domain l" "block_old_root blk = state_root P l"
    "block_new_root blk = state_root P l'" "block_old_inbox_chain blk = ledger_inbox_chain l"
    "block_new_inbox_chain blk = ledger_inbox_chain l'" "verify_block P blk = Inr ()"
  note wire = built_block_wire [OF assms]
  have "block_withdrawal_chain blk = withdrawal_chain (sha256 P) (ledger_domain l)
      (withdrawal_payouts (block_batch blk) (block_sidecar blk))"
    using b(6,1) verify_batch_outputs(2) by (fastforce simp: verify_block_Inr_iff)
  with for_block_of_executed [OF wire(3,1,2)] wire(3) b show ?thesis
    by (auto simp: guest_main_def try_into_32_def)
qed

lemma built_block_settles_witness:
  "\<exists>blk l' s. get_block toy ex_stxns ex_ledger = Inr (blk, l') \<and> for_block toy blk = Inr s
     \<and> settlement_inbox s = batch_inbox_items (block_batch blk)"
proof -
  obtain blk l' where blk: "get_block toy ex_stxns ex_ledger = Inr (blk, l')"
    and size: "length (batch_encode (block_batch blk)) < 2 ^ 64" "length (sidecar_encode (block_sidecar blk)) < 2 ^ 64"
    using ex_block_sizes by (auto simp: sizes_ok_def ex_block_def split: sum.splits)
  from built_block_settles [OF ex_ledger_wf(1) ex_signed_wf blk size] blk show ?thesis by auto
qed

section \<open>What a proof means to the settlement contract\<close>

text \<open>C9: Solvency. The contract holds the root of a tree, has settled the inbox items \<open>h\<close> and accepted
  \<open>pending\<close> since. If the guest commits public values whose inbox end is the value the contract
  holds, then, short of a collision, the batch consumed exactly \<open>pending\<close>, the new root is the
  root of a tree, and what that tree's accounts hold plus every payout the withdrawal chain
  commits the contract to make is what the old tree's accounts held plus the pending deposits:
  the rollup never owes more than L1 took in.\<close>

theorem settled_batch_is_solvent:
  assumes "wf_tree (sha256 P) t"
    and "execute P domain (root (sha256 P) t) (inbox.fold_chain (sha256 P) INBOX_CHAIN_GENESIS h)
           batch_bytes sidecar_bytes = Inr values"
    and "slice 128 160 values = bytes_of (inbox.fold_chain (sha256 P) INBOX_CHAIN_GENESIS (h @ pending))"
    and "batch_decode batch_bytes = Inr b" and "sidecar_decode sidecar_bytes b = Inr s"
    and "collision_free (sha256 P) (event_preimages (sha256 P) t (batch_events b s)
           @ inbox_preimages (sha256 P) INBOX_CHAIN_GENESIS (h @ batch_inbox_items b)
           @ inbox_preimages (sha256 P) INBOX_CHAIN_GENESIS (h @ pending))"
  shows "batch_inbox_items b = pending
    \<and> (\<exists>t'. wf_tree (sha256 P) t' \<and> slice 32 64 values = bytes_of (root (sha256 P) t')
         \<and> total (tree_accounts t') + paid_out (withdrawal_payouts b s)
             = total (tree_accounts t) + deposited pending)
    \<and> slice 64 96 values = bytes_of (batch_commitment (sha256 P) domain batch_bytes)
    \<and> slice 160 192 values = bytes_of (withdrawal_chain (sha256 P) domain (withdrawal_payouts b s))"
proof -
  let ?H = "sha256 P" and ?anchor = "inbox.fold_chain (sha256 P) INBOX_CHAIN_GENESIS h"
  obtain rt i w where v: "verify_batch P domain (root ?H t) ?anchor b s = Inr (rt, i, w)"
    and vals: "values = public_values ?H domain (root ?H t) rt batch_bytes ?anchor i w"
    using execute_Inr [OF assms(2)] assms(4,5) by auto
  note slices = slice_public_values [OF vals]
  have "collision_free ?H (event_preimages ?H t (batch_events b s))"
    and cf: "collision_free ?H (inbox.preimages ?H INBOX_CHAIN_GENESIS (h @ batch_inbox_items b)
      @ inbox.preimages ?H INBOX_CHAIN_GENESIS (h @ pending))"
    using assms(6) by (auto simp only: inbox_preimages_def dest!: collision_free_appendD)
  from verify_batch_refines [OF assms(1) this(1) v] obtain t' where
    spec: "spec_txns P domain (batch_signed b s)
        \<lparr>spec_accounts = tree_accounts t, spec_items = [], spec_payouts = []\<rparr>
      = Inr \<lparr>spec_accounts = tree_accounts t', spec_items = batch_inbox_items b, spec_payouts = withdrawal_payouts b s\<rparr>"
    and t': "wf_tree ?H t'" "rt = root ?H t'"
    and i: "i = inbox.fold_chain ?H ?anchor (batch_inbox_items b)"
    and w: "w = withdrawal_chain ?H domain (withdrawal_payouts b s)"
    by auto
  have "i = inbox.fold_chain ?H INBOX_CHAIN_GENESIS (h @ pending)"
    using assms(3) slices(5) by simp
  then have items: "batch_inbox_items b = pending"
    using inbox.chain_pins_suffix [of ?H h "batch_inbox_items b" pending] cf i
    by (simp add: INBOX_CHAIN_GENESIS_def)
  have "total (tree_accounts t') + paid_out (withdrawal_payouts b s) = total (tree_accounts t) + deposited pending"
    using spec_txns_conserves [OF spec] items by (simp add: tree_accounts_def)
  with items t' w slices show ?thesis by auto
qed

lemma settled_batch_is_solvent_witness:
  "\<exists>(blk :: block) t'. batch_inbox_items (block_batch blk) = [InboxDeposit alice 200000] \<and> wf_tree toy_hash t'
     \<and> total (tree_accounts t') + paid_out (withdrawal_payouts (block_batch blk) (block_sidecar blk)) = 200000"
proof -
  obtain blk l' where blk: "get_block toy (take 2 ex_stxns) ex_ledger = Inr (blk, l')"
    and sep: "collision_free toy_hash (event_preimages toy_hash tree_new (batch_events (block_batch blk) (block_sidecar blk))
      @ inbox_preimages toy_hash INBOX_CHAIN_GENESIS (batch_inbox_items (block_batch blk)))"
    using ex_short_block_separate
    by (simp add: separate_def ex_short_block_def split: sum.splits prod.splits)
  have "length (batch_encode (block_batch blk)) < 500 \<and> length (sidecar_encode (block_sidecar blk)) < 2000"
    using ex_short_block_sizes blk by (simp add: sizes_ok_def ex_short_block_def)
  then have size: "length (batch_encode (block_batch blk)) < 2 ^ 64" "length (sidecar_encode (block_sidecar blk)) < 2 ^ 64"
    by simp_all
  note claims = get_block_claims [OF ex_ledger_wf(1) blk, unfolded ex_ledger_words]
  have "list_all wf_signed (take 2 ex_stxns)" by (simp add: ex_stxns_def)
  note wire = built_block_wire [OF ex_ledger_wf(1) this blk size, unfolded claims(2-4)]
  have items: "batch_inbox_items (block_batch blk) = [InboxDeposit alice 200000]"
    using ex_short_block_one_deposit blk by (simp add: one_deposit_def ex_short_block_def)
  let ?chain = "inbox.fold_chain (sha256 toy) INBOX_CHAIN_GENESIS"
  have "block_new_inbox_chain blk = ?chain [InboxDeposit alice 200000]"
    using claims(1) verify_batch_outputs(1) items
    unfolding verify_block_Inr_iff claims(2-4) by fastforce
  then have "slice 128 160 (public_values (sha256 toy) zero32 (root toy_hash tree_new) (block_new_root blk)
      (batch_encode (block_batch blk)) INBOX_CHAIN_GENESIS (block_new_inbox_chain blk) (block_withdrawal_chain blk))
    = bytes_of (?chain ([] @ [InboxDeposit alice 200000]))"
    by (simp add: slice_public_values [OF refl])
  from settled_batch_is_solvent [of toy tree_new zero32 "[]", OF _ _ this wire(1,2)] wire(3) sep items
  obtain t' where t': "wf_tree toy_hash t'" and
    sum: "total (tree_accounts t') + paid_out (withdrawal_payouts (block_batch blk) (block_sidecar blk))
      = total (tree_accounts tree_new) + deposited [InboxDeposit alice 200000]"
    by (auto simp: collision_free_def list_all_iff)
  have "total (tree_accounts tree_new) = 0" by (simp add: total_def)
  with sum have "total (tree_accounts t')
      + paid_out (withdrawal_payouts (block_batch blk) (block_sidecar blk)) = 200000" by simp
  with items t' show ?thesis by blast
qed

text \<open>The guest takes nothing on trust: what it commits opens with the root and the inbox anchor
  it was given, commits to the exact batch bytes it decoded, and is 192 bytes; inputs of the wrong
  length, bytes that do not decode and blocks that do not replay commit nothing.\<close>

theorem guest_commits_its_inputs:
  assumes "guest_main P domain old_root anchor batch_bytes sidecar_bytes = Inr vals"
  shows "length vals = PUBLIC_VALUES_SIZE \<and> length domain = 32
    \<and> slice 0 32 vals = old_root \<and> slice 96 128 vals = anchor
    \<and> slice 64 96 vals = bytes_of (batch_commitment (sha256 P) (b32 domain) batch_bytes)
    \<and> (\<exists>b s rt i w. batch_decode batch_bytes = Inr b \<and> sidecar_decode sidecar_bytes b = Inr s
         \<and> verify_batch P (b32 domain) (b32 old_root) (b32 anchor) b s = Inr (rt, i, w)
         \<and> slice 32 64 vals = bytes_of rt \<and> slice 128 160 vals = bytes_of i \<and> slice 160 192 vals = bytes_of w)"
proof -
  from assms have len: "length domain = 32" "length old_root = 32" "length anchor = 32"
    and "execute P (b32 domain) (b32 old_root) (b32 anchor) batch_bytes sidecar_bytes = Inr vals"
    by (auto simp: guest_main_def try_into_32_def and_then_Inr_iff map_sum_def split: if_splits sum.splits)
  from execute_Inr [OF this(4)] obtain b s rt i w where
    "batch_decode batch_bytes = Inr b" "sidecar_decode sidecar_bytes b = Inr s"
    "verify_batch P (b32 domain) (b32 old_root) (b32 anchor) b s = Inr (rt, i, w)"
    and vals: "vals = public_values (sha256 P) (b32 domain) (b32 old_root) rt batch_bytes (b32 anchor) i w"
    by blast
  then show ?thesis
    using slice_public_values [OF vals] len
    by (auto simp: PUBLIC_VALUES_SIZE_def)
qed

lemma guest_commits_its_inputs_witness:
  "\<exists>vals. guest_main toy (replicate 32 0) (replicate 32 9) (replicate 32 8) [1, 0] [1, 0] = Inr vals
     \<and> slice 0 32 vals = replicate 32 9 \<and> slice 96 128 vals = replicate 32 8"
proof -
  have "accepted (guest_main toy (replicate 32 0) (replicate 32 9) (replicate 32 8) [1, 0] [1, 0])"
    by code_simp
  then obtain vals where "guest_main toy (replicate 32 0) (replicate 32 9) (replicate 32 8) [1, 0] [1, 0] = Inr vals"
    using accepted_ex by blast
  with guest_commits_its_inputs [OF this] show ?thesis by blast
qed

text \<open>A settlement is self-consistent: the chunks it posts take the contract to the commitment in
  its public values, in the announced number; replaying its inbox onto L1 takes the chain from the
  anchor to the value the batch reaches; and the payout calls it lists drain the withdrawal chain
  to the terminal value.\<close>

theorem settlement_consistent:
  assumes "for_block P blk = Inr s"
  shows "post_chunks (sha256 P) (settlement_batch_length s)
        (chunk_accumulator_seed (sha256 P) (settlement_domain s) (settlement_batch_length s)) (settlement_chunks s)
      = Some (settlement_batch_commitment s)
    \<and> length (settlement_chunks s) = settlement_chunk_count s
    \<and> inbox.fold_chain (sha256 P) (settlement_old_inbox_chain s) (settlement_inbox s) = settlement_new_inbox_chain s
    \<and> pay_links (sha256 P) (settlement_withdrawal_chain s) (settlement_withdrawal_links P s)
      = Some (withdrawal_chain_terminal (sha256 P) (settlement_domain s))"
proof -
  let ?bb = "batch_encode (block_batch blk)" and ?sb = "sidecar_encode (block_sidecar blk)"
  from assms obtain vals b sc where
    exec: "execute P (block_domain blk) (block_old_root blk) (block_old_inbox_chain blk) ?bb ?sb = Inr vals"
    and sl: "slice 128 160 vals = bytes_of (block_new_inbox_chain blk)"
      "slice 160 192 vals = bytes_of (block_withdrawal_chain blk)"
    and dec: "batch_decode ?bb = Inr b" "sidecar_decode ?sb b = Inr sc"
    and s: "settlement_batch_bytes s = ?bb" "settlement_domain s = block_domain blk"
      "settlement_public_values s = vals" "settlement_old_inbox_chain s = block_old_inbox_chain blk"
      "settlement_new_inbox_chain s = block_new_inbox_chain blk"
      "settlement_withdrawal_chain s = block_withdrawal_chain blk"
      "settlement_inbox s = batch_inbox_items b" "settlement_withdrawals s = withdrawal_payouts b sc"
    by (auto simp: for_block_def Let_def and_then_Inr_iff from_decode_error_def map_sum_def
        batch_inbox_items_def split: if_splits sum.splits)
  from execute_Inr [OF exec] dec obtain rt i w where
    v: "verify_batch P (block_domain blk) (block_old_root blk) (block_old_inbox_chain blk) b sc = Inr (rt, i, w)"
    and vals: "vals = public_values (sha256 P) (block_domain blk) (block_old_root blk) rt ?bb
      (block_old_inbox_chain blk) i w" by auto
  note slices = slice_public_values [OF vals]
  have "i = block_new_inbox_chain blk" "w = block_withdrawal_chain blk" using slices sl by auto
  with verify_batch_outputs [OF v] slices s
    post_chunks_commitment [of "sha256 P" "length ?bb" "block_domain blk" "chunks CHUNK_SIZE ?bb"]
  show ?thesis
    by (auto simp: settlement_batch_length_def settlement_chunks_def settlement_batch_commitment_def
        settlement_chunk_count_def settlement_withdrawal_links_def pay_withdrawal_links
        length_chunks chunk_count_def simp del: CHUNK_SIZE_eq) (simp_all add: length_chunks)
qed

lemma settlement_consistent_witness:
  "\<exists>s. for_block toy (fst (projr ex_block)) = Inr s \<and> length (settlement_chunks s) = settlement_chunk_count s"
proof -
  obtain blk l' where blk: "get_block toy ex_stxns ex_ledger = Inr (blk, l')"
    and size: "length (batch_encode (block_batch blk)) < 2 ^ 64" "length (sidecar_encode (block_sidecar blk)) < 2 ^ 64"
    using ex_block_sizes by (auto simp: sizes_ok_def ex_block_def split: sum.splits)
  note wire = built_block_wire [OF ex_ledger_wf(1) ex_signed_wf blk size]
  from for_block_of_executed [OF wire(3,1,2)]
  obtain s where "for_block toy blk = Inr s" by blast
  with settlement_consistent [OF this] blk show ?thesis by (auto simp: ex_block_def)
qed

text \<open>A fresh deployment can be settled from its first block: an empty ledger's root is the genesis
  root the contract is created with, its inbox chain is the genesis chain, and whatever block it
  builds, the settlement of that block settles from genesis.\<close>

theorem first_block_settles_from_genesis:
  assumes "get_block P xs (ledger_with_domain domain) = Inr (blk, l')" and "for_block P blk = Inr s"
  shows "state_root P (ledger_with_domain domain) = GENESIS_ROOT \<and> settles_from_genesis s"
  using first_settlement_from_genesis [OF assms]
  by (simp add: state_root_def ledger_with_domain_def root_def tree_new_def GENESIS_ROOT_def EMPTY_SUBTREE_def)

lemma first_block_settles_from_genesis_witness:
  "\<exists>blk l' s. get_block toy [] (ledger_with_domain zero32) = Inr (blk, l') \<and> for_block toy blk = Inr s
     \<and> settles_from_genesis s"
proof -
  have "case get_block toy [] (ledger_with_domain zero32) of Inl _ \<Rightarrow> False
    | Inr (blk, _) \<Rightarrow> accepted (for_block toy blk)" by code_simp
  then obtain blk l' s where "get_block toy [] (ledger_with_domain zero32) = Inr (blk, l')" "for_block toy blk = Inr s"
    by (auto dest!: accepted_ex split: sum.splits)
  with first_block_settles_from_genesis [OF this] show ?thesis by blast
qed

end
